(* ===== verification/Prelude.thy ===== *)
theory Prelude
  imports Main "HOL-Library.Multiset" "HOL-Library.Monad_Syntax" "HOL-Library.Sublist"
    "HOL-Library.Word"
begin

text \<open>
  Shared vocabulary of the development.

  A Rust \<^verbatim>\<open>char\<close> is a Unicode scalar value; the model keeps its code point, a
  natural number, so that character comparison and the ranges of a character class are
  those of the code (\<^verbatim>\<open>char\<close> is ordered by code point). A Rust \<^verbatim>\<open>String\<close> or
  \<^verbatim>\<open>&[char]\<close> is the list of its code points. \<open>lit ''...''\<close> is a string literal of
  the source. A \<^verbatim>\<open>Result<T, E>\<close> is the sum \<open>'e + 't\<close> (\<open>Inl\<close> the error). Code that can
  panic (an index out of range, \<^verbatim>\<open>unreachable!\<close>) is written in the option monad, with
  \<open>None\<close> for the panic; \<open>idx\<close> is the checked index operation.
\<close>

section \<open>Characters and strings\<close>

type_synonym rchar = nat
type_synonym rstring = "rchar list"

definition lit :: "string \<Rightarrow> rstring" where
  "lit s = map of_char s"

lemma lit_Nil [simp]: "lit [] = []"
  by (simp add: lit_def)

lemma lit_Cons [simp]: "lit (c # cs) = of_char c # lit cs"
  by (simp add: lit_def)

abbreviation (input) ch_nul :: rchar where "ch_nul \<equiv> 0"
abbreviation (input) ch_space :: rchar where "ch_space \<equiv> 32"
abbreviation (input) ch_bang :: rchar where "ch_bang \<equiv> 33"
abbreviation (input) ch_star :: rchar where "ch_star \<equiv> 42"
abbreviation (input) ch_comma :: rchar where "ch_comma \<equiv> 44"
abbreviation (input) ch_minus :: rchar where "ch_minus \<equiv> 45"
abbreviation (input) ch_dot :: rchar where "ch_dot \<equiv> 46"
abbreviation (input) ch_slash :: rchar where "ch_slash \<equiv> 47"
abbreviation (input) ch_quest :: rchar where "ch_quest \<equiv> 63"
abbreviation (input) ch_lbrack :: rchar where "ch_lbrack \<equiv> 91"
abbreviation (input) ch_bslash :: rchar where "ch_bslash \<equiv> 92"
abbreviation (input) ch_rbrack :: rchar where "ch_rbrack \<equiv> 93"
abbreviation (input) ch_under :: rchar where "ch_under \<equiv> 95"
abbreviation (input) ch_lbrace :: rchar where "ch_lbrace \<equiv> 123"
abbreviation (input) ch_rbrace :: rchar where "ch_rbrace \<equiv> 125"

section \<open>Checked indexing\<close>

text \<open>\<^verbatim>\<open>xs[i]\<close>: \<open>None\<close> is the panic of an index out of range.\<close>

definition idx :: "'a list \<Rightarrow> nat \<Rightarrow> 'a option" where
  "idx xs i = (if i < length xs then Some (xs ! i) else None)"

lemma idx_in [simp]: "i < length xs \<Longrightarrow> idx xs i = Some (xs ! i)"
  by (simp add: idx_def)

lemma idx_eq_Some: "idx xs i = Some x \<longleftrightarrow> i < length xs \<and> xs ! i = x"
  by (simp add: idx_def)

lemma idx_Cons_0 [simp]: "idx (x # xs) 0 = Some x"
  by (simp add: idx_def)

lemma drop_step: "i < length xs \<Longrightarrow> drop i xs = xs ! i # drop (Suc i) xs"
  by (rule Cons_nth_drop_Suc [symmetric])

lemma length_takeWhile_all: "length (takeWhile P xs) = length xs \<longleftrightarrow> (\<forall>x \<in> set xs. P x)"
  by (induction xs) auto

lemma ex_from_Suc:
  "n < m \<Longrightarrow> (\<exists>k. n \<le> k \<and> k < m \<and> P k) \<longleftrightarrow> P n \<or> (\<exists>k. Suc n \<le> k \<and> k < m \<and> P k)"
  by (metis Suc_leD Suc_leI le_neq_implies_less order_refl)

lemma in_set_map: "x \<in> set (map f xs) \<longleftrightarrow> (\<exists>a \<in> set xs. f a = x)"
  by auto

section \<open>Machine integers of the source\<close>

type_synonym u16 = "16 word"
type_synonym u32 = "32 word"
type_synonym u64 = "64 word"
type_synonym usize = "64 word"
type_synonym i32 = "32 word"
type_synonym i64 = "64 word"

section \<open>Strings\<close>

text \<open>\<^verbatim>\<open>haystack.contains(needle)\<close>\<close>

definition contains :: "rstring \<Rightarrow> rstring \<Rightarrow> bool" where
  "contains haystack needle = list_ex (prefix needle) (suffixes haystack)"

lemma contains_iff: "contains haystack needle \<longleftrightarrow> (\<exists>u v. haystack = u @ needle @ v)"
proof -
  have "contains haystack needle \<longleftrightarrow> (\<exists>x. suffix x haystack \<and> prefix needle x)"
    by (auto simp: contains_def list_ex_iff)
  also have "\<dots> \<longleftrightarrow> (\<exists>u v. haystack = u @ needle @ v)"
    unfolding suffix_def prefix_def by blast
  finally show ?thesis .
qed

text \<open>\<^verbatim>\<open>s.split(sep)\<close>: one piece more than there are separators.\<close>

fun split_on :: "rchar \<Rightarrow> rstring \<Rightarrow> rstring list" where
  "split_on sep [] = [[]]"
| "split_on sep (c # s) =
     (if c = sep then [] # split_on sep s
      else case split_on sep s of [] \<Rightarrow> [[c]] | p # ps \<Rightarrow> (c # p) # ps)"

text \<open>\<^verbatim>\<open>pieces.join(sep)\<close>\<close>

fun join_with :: "rstring \<Rightarrow> rstring list \<Rightarrow> rstring" where
  "join_with sep [] = []"
| "join_with sep [p] = p"
| "join_with sep (p # q # ps) = p @ sep @ join_with sep (q # ps)"

text \<open>\<^verbatim>\<open>s.rsplit_once(sep).map(|(_, n)| n).unwrap_or(s)\<close>: the part after the last separator.\<close>

definition after_last :: "rchar \<Rightarrow> rstring \<Rightarrow> rstring" where
  "after_last sep s = rev (takeWhile (\<lambda>c. c \<noteq> sep) (rev s))"

lemma split_on_no_sep: "p \<in> set (split_on sep s) \<Longrightarrow> sep \<notin> set p"
proof (induction s arbitrary: p)
  case (Cons c s)
  then show ?case by (auto split: list.splits if_splits)
qed simp

lemma after_last_append: "sep \<notin> set name \<Longrightarrow> after_last sep (d @ sep # name) = name"
  unfolding after_last_def by (simp, subst takeWhile_append2) auto

text \<open>The names on a path: its non-empty pieces between slashes.\<close>

definition path_names :: "rstring \<Rightarrow> rstring list" where
  "path_names path = filter (\<lambda>c. c \<noteq> []) (split_on ch_slash path)"

lemma split_on_nonempty: "split_on sep s \<noteq> []"
  by (cases s) (auto split: list.splits)

lemma split_on_append:
  "sep \<notin> set p \<Longrightarrow> split_on sep (p @ sep # s) = p # split_on sep s"
  by (induction p) (auto split: list.splits)

lemma split_on_no: "sep \<notin> set p \<Longrightarrow> split_on sep p = [p]"
  by (induction p) auto

lemma split_on_append_general:
  "split_on sep (p @ sep # s) = split_on sep p @ split_on sep s"
proof (induction p)
  case (Cons c p)
  then show ?case using split_on_nonempty [of sep p] by (cases "split_on sep p") auto
qed simp

lemma path_names_simps:
  "path_names [] = []"
  "path_names (ch_slash # s) = path_names s"
  "path_names (p @ ch_slash # s) = path_names p @ path_names s"
  by (simp_all add: path_names_def split_on_append_general)

lemma path_names_single: "ch_slash \<notin> set n \<Longrightarrow> n \<noteq> [] \<Longrightarrow> path_names n = [n]"
  by (simp add: path_names_def split_on_no)

lemma path_names_wf: "n \<in> set (path_names path) \<Longrightarrow> n \<noteq> [] \<and> ch_slash \<notin> set n"
  by (auto simp: path_names_def dest: split_on_no_sep)

lemma path_names_join:
  "\<forall>n \<in> set ns. n \<noteq> [] \<and> ch_slash \<notin> set n \<Longrightarrow> path_names (join_with [ch_slash] ns) = ns"
  by (induction "[ch_slash]" ns rule: join_with.induct)
    (simp_all add: path_names_simps path_names_single)

section \<open>Sequencing fallible computations\<close>

text \<open>
  \<^verbatim>\<open>for x in xs { out.extend(f(x)?) }\<close>: the first panic or error ends the loop,
  otherwise the results are concatenated in order.
\<close>

fun extend_all :: "('e + 'a list) option list \<Rightarrow> ('e + 'a list) option" where
  "extend_all [] = Some (Inr [])"
| "extend_all (r # rs) =
     do {
       x \<leftarrow> r;
       case x of
         Inl e \<Rightarrow> Some (Inl e)
       | Inr ys \<Rightarrow> do {
           y \<leftarrow> extend_all rs;
           Some (case y of Inl e \<Rightarrow> Inl e | Inr zs \<Rightarrow> Inr (ys @ zs))
         }
     }"

lemma extend_all_Ok:
  "(\<And>x. x \<in> set xs \<Longrightarrow> f x = Some (Inr (g x))) \<Longrightarrow>
   extend_all (map f xs) = Some (Inr (concat (map g xs)))"
  by (induction xs) auto

lemma extend_all_total: "None \<notin> set rs \<Longrightarrow> extend_all rs \<noteq> None"
proof (induction rs)
  case (Cons r rs)
  then show ?case by (cases r) (auto split: sum.splits)
qed simp

lemma extend_all_Err_iff:
  "None \<notin> set rs \<Longrightarrow> (\<exists>e. extend_all rs = Some (Inl e)) \<longleftrightarrow> (\<exists>e. Some (Inl e) \<in> set rs)"
proof (induction rs)
  case (Cons r rs)
  then obtain x where r: "r = Some x" by (cases r) auto
  from Cons.prems have "extend_all rs \<noteq> None" by (intro extend_all_total) simp
  with Cons r show ?case by (cases x) (fastforce split: sum.splits)+
qed simp

lemma extend_all_InlD: "extend_all rs = Some (Inl e) \<Longrightarrow> Some (Inl e) \<in> set rs"
proof (induction rs)
  case (Cons r rs)
  then obtain x where r: "r = Some x" by (cases r) auto
  show ?case
  proof (cases x)
    case (Inr ys)
    with Cons r show ?thesis by (cases "extend_all rs") (auto split: sum.splits)
  qed (use Cons r in auto)
qed simp

lemma extend_all_OkD:
  "extend_all rs = Some (Inr ys) \<Longrightarrow>
   \<exists>yss. rs = map (\<lambda>ys. Some (Inr ys)) yss \<and> ys = concat yss"
proof (induction rs arbitrary: ys)
  case (Cons r rs)
  then obtain zs ws where "r = Some (Inr zs)" "extend_all rs = Some (Inr ws)" "ys = zs @ ws"
    by (auto split: sum.splits bind_splits)
  with Cons.IH obtain yss where "rs = map (\<lambda>ys. Some (Inr ys)) yss" "ws = concat yss" by blast
  with \<open>r = _\<close> \<open>ys = _\<close> show ?case by (intro exI [of _ "zs # yss"]) simp
qed simp

text \<open>The successes and the errors of a message sequence, in order.\<close>

fun oks :: "('e + 'a) list \<Rightarrow> 'a list" where
  "oks [] = []"
| "oks (Inl e # ms) = oks ms"
| "oks (Inr x # ms) = x # oks ms"

lemma oks_append [simp]: "oks (xs @ ys) = oks xs @ oks ys"
  by (induction xs rule: oks.induct) auto

lemma oks_map_Inr [simp]: "oks (map Inr xs) = xs"
  by (induction xs) auto

lemma in_set_oks [simp]: "x \<in> set (oks ms) \<longleftrightarrow> Inr x \<in> set ms"
  by (induction ms rule: oks.induct) auto

end
