(* ===== verification/Worklist.thy ===== *)
theory Worklist
  imports Prelude
begin

text \<open>
  The scheduling that \<^verbatim>\<open>stream_walk\<close> and \<^verbatim>\<open>glob_walk\<close> of
  \<^verbatim>\<open>hdfs-bridge/src/client.rs\<close> share: a LIFO stack of directories to list, up to
  \<^verbatim>\<open>max_parallelism\<close> listing RPCs in flight, completions handled in whatever order
  they arrive, entries sent to the channel as they are found. The two walks differ in what
  they do with one completed listing, which is the parameter \<open>visit\<close>.

  The unknown scheduler is the index \<open>k\<close> of the future that \<^verbatim>\<open>in_flight.next()\<close> yields;
  a walk is a sequence of polls, or ends early when the consumer drops the stream. The
  locale \<open>scheduled\<close> states what the scheduler needs of \<open>visit\<close> and proves, once for both
  walks, that every schedule ends, none panics, and all that complete send the same entries.
\<close>

section \<open>The scheduler\<close>

text \<open>How the handling of one listing ends: the walk goes on, forwards an error, or panics.\<close>

datatype 'err ending = Go | Fail 'err | Panic

record ('job, 'out, 'err) visit_result =
  outs :: "'out list"
  jobs :: "'job list"
  ending :: "'err ending"

datatype walk_status = Running | Completed | Failed | Panicked | Dropped

record ('job, 'out, 'err) walk_state =
  pending :: "'job list"
  in_flight :: "'job list"
  sent :: "('err + 'out) list"
  status :: walk_status

lemma walk_status_ended:
  "st \<noteq> Running \<Longrightarrow> st \<noteq> Panicked \<Longrightarrow> st \<noteq> Dropped \<Longrightarrow> st \<in> {Completed, Failed}"
  by (cases st) simp_all

text \<open>\<^verbatim>\<open>while in_flight.len() < max_parallelism { match pending.pop() ... }\<close>\<close>

function fill :: "nat \<Rightarrow> 'job list \<Rightarrow> 'job list \<Rightarrow> 'job list \<times> 'job list" where
  "fill n pend fl =
     (if length fl < n \<and> pend \<noteq> [] then fill n (butlast pend) (fl @ [last pend]) else (pend, fl))"
  by pat_completeness auto
termination
  by (relation "measure (\<lambda>(n, pend, fl). length pend)") auto

declare fill.simps [simp del]

text \<open>The messages one handled listing sends.\<close>

definition messages :: "('job, 'out, 'err) visit_result \<Rightarrow> ('err + 'out) list" where
  "messages r = map Inr (outs r) @ (case ending r of Fail e \<Rightarrow> [Inl e] | _ \<Rightarrow> [])"

definition end_status :: "'err ending \<Rightarrow> walk_status" where
  "end_status e = (case e of Go \<Rightarrow> Running | Fail _ \<Rightarrow> Failed | Panic \<Rightarrow> Panicked)"

text \<open>One iteration of the loop when the \<open>k\<close>-th future in flight is the next to complete.\<close>

definition poll ::
  "('job \<Rightarrow> ('job, 'out, 'err) visit_result) \<Rightarrow> nat \<Rightarrow> nat
     \<Rightarrow> ('job, 'out, 'err) walk_state \<Rightarrow> ('job, 'out, 'err) walk_state" where
  "poll visit n k s =
     (let (pend, fl) = fill n (pending s) (in_flight s)
      in if fl = [] then s\<lparr>pending := pend, in_flight := fl, status := Completed\<rparr>
         else let i = k mod length fl; r = visit (fl ! i)
           in s\<lparr>pending := pend @ jobs r,
                in_flight := take i fl @ drop (Suc i) fl,
                sent := sent s @ messages r,
                status := end_status (ending r)\<rparr>)"

text \<open>A whole schedule; a walk that is not running any more does nothing.\<close>

fun run_schedule ::
  "('job \<Rightarrow> ('job, 'out, 'err) visit_result) \<Rightarrow> nat \<Rightarrow> nat list
     \<Rightarrow> ('job, 'out, 'err) walk_state \<Rightarrow> ('job, 'out, 'err) walk_state" where
  "run_schedule visit n [] s = s"
| "run_schedule visit n (k # ks) s =
     run_schedule visit n ks (if status s = Running then poll visit n k s else s)"

text \<open>
  The steps of a walk. When the consumer drops the stream, or the handle is dropped and
  the task aborted, the walk stops after some of the messages it was about to send.
\<close>

inductive walk_step ::
  "('job \<Rightarrow> ('job, 'out, 'err) visit_result) \<Rightarrow> nat
     \<Rightarrow> ('job, 'out, 'err) walk_state \<Rightarrow> ('job, 'out, 'err) walk_state \<Rightarrow> bool"
  for visit :: "'job \<Rightarrow> ('job, 'out, 'err) visit_result" and n :: nat where
  polled: "status s = Running \<Longrightarrow> walk_step visit n s (poll visit n k s)"
| dropped: "status s = Running \<Longrightarrow> prefix ms (sent (poll visit n k s)) \<Longrightarrow> prefix (sent s) ms \<Longrightarrow>
    walk_step visit n s (s\<lparr>sent := ms, status := Dropped\<rparr>)"

abbreviation walk_steps where
  "walk_steps visit n \<equiv> (walk_step visit n)\<^sup>*\<^sup>*"

inductive_cases walk_stepE: "walk_step visit n s t"

section \<open>What every schedule does\<close>

lemma mset_pop: "xs \<noteq> [] \<Longrightarrow> add_mset (last xs) (mset (butlast xs)) = mset xs"
  by (induction xs) auto

lemma fill_mset: "mset (fst (fill n pend fl)) + mset (snd (fill n pend fl)) = mset pend + mset fl"
proof (induction n pend fl rule: fill.induct)
  case (1 n pend fl)
  then show ?case
    by (subst (1 2) fill.simps) (auto simp: mset_pop [symmetric])
qed

lemma fill_bound: "length fl \<le> n \<Longrightarrow> length (snd (fill n pend fl)) \<le> n"
proof (induction n pend fl rule: fill.induct)
  case (1 n pend fl)
  then show ?case by (subst fill.simps) auto
qed

lemma fill_empty: "0 < n \<Longrightarrow> snd (fill n pend fl) = [] \<longleftrightarrow> pend = [] \<and> fl = []"
proof (induction n pend fl rule: fill.induct)
  case (1 n pend fl)
  then show ?case by (subst fill.simps) auto
qed

text \<open>The jobs a state still has to list.\<close>

definition todo :: "('job, 'out, 'err) walk_state \<Rightarrow> 'job multiset" where
  "todo s = mset (pending s) + mset (in_flight s)"

text \<open>A poll either finds nothing to do or lists one of the jobs that are to do.\<close>

lemma poll_cases:
  assumes "0 < n"
  obtains (empty) "todo s = {#}" "poll visit n k s = s\<lparr>pending := [], in_flight := [], status := Completed\<rparr>"
  | (job) j rest where "todo s = add_mset j rest"
      "todo (poll visit n k s) = rest + mset (jobs (visit j))"
      "sent (poll visit n k s) = sent s @ messages (visit j)"
      "status (poll visit n k s) = end_status (ending (visit j))"
proof -
  obtain pend fl where f: "fill n (pending s) (in_flight s) = (pend, fl)" by force
  have m: "mset pend + mset fl = todo s"
    using fill_mset [of n "pending s" "in_flight s"] f by (simp add: todo_def)
  show thesis
  proof (cases "fl = []")
    case True
    then have "pending s = [] \<and> in_flight s = []"
      using fill_empty [OF assms, of "pending s" "in_flight s"] f by simp
    moreover from this f have "pend = []" by (simp add: fill.simps)
    ultimately show thesis
      using True f m by (intro empty) (simp_all add: poll_def todo_def)
  next
    case False
    let ?i = "k mod length fl"
    have i: "?i < length fl" using False by simp
    then have fl: "fl = take ?i fl @ fl ! ?i # drop (Suc ?i) fl"
      by (rule id_take_nth_drop)
    then have "mset fl = add_mset (fl ! ?i) (mset (take ?i fl @ drop (Suc ?i) fl))"
      by (metis mset_append mset.simps(2) union_mset_add_mset_right)
    with False f m show thesis
      by (intro job [of "fl ! ?i" "mset pend + mset (take ?i fl @ drop (Suc ?i) fl)"])
        (auto simp: poll_def todo_def Let_def)
  qed
qed

section \<open>The work below a job\<close>

text \<open>
  \<open>yields visit j M\<close>: the listings below \<open>j\<close> all succeed (or are pruned), there are
  finitely many of them, and \<open>M\<close> is what they send, with multiplicities.
\<close>

inductive yields :: "('job \<Rightarrow> ('job, 'out, 'err) visit_result) \<Rightarrow> 'job \<Rightarrow> 'out multiset \<Rightarrow> bool"
  and yields_all :: "('job \<Rightarrow> ('job, 'out, 'err) visit_result) \<Rightarrow> 'job multiset \<Rightarrow> 'out multiset \<Rightarrow> bool"
  for visit :: "'job \<Rightarrow> ('job, 'out, 'err) visit_result" where
  yields_job: "ending (visit j) = Go \<Longrightarrow> yields_all visit (mset (jobs (visit j))) M \<Longrightarrow>
    yields visit j (mset (outs (visit j)) + M)"
| yields_none: "yields_all visit {#} {#}"
| yields_add: "yields visit j M \<Longrightarrow> yields_all visit J N \<Longrightarrow> yields_all visit (add_mset j J) (M + N)"

inductive_simps yields_simp: "yields visit j M"
inductive_simps yields_all_empty [simp]: "yields_all visit {#} M"

lemma yields_all_remove:
  "yields_all visit J N \<Longrightarrow> j \<in># J \<Longrightarrow> \<exists>M N'. yields visit j M \<and> yields_all visit (J - {#j#}) N' \<and> N = M + N'"
proof (induction J N rule: yields_yields_all.inducts(2) [where ?P1.0 = "\<lambda>_ _. True"])
  case (yields_add i M J N)
  show ?case
  proof (cases "j = i")
    case True
    with yields_add show ?thesis by auto
  next
    case False
    with yields_add obtain M' N' where
      *: "yields visit j M'" "yields_all visit (J - {#j#}) N'" "N = M' + N'" by auto
    have "yields_all visit (add_mset i (J - {#j#})) (M + N')"
      using yields_add.hyps(1) *(2) by (rule yields_yields_all.yields_add)
    moreover have "add_mset i J - {#j#} = add_mset i (J - {#j#})"
      using False by simp
    ultimately show ?thesis using * by (metis union_assoc union_commute)
  qed
qed auto

lemma yields_all_add_mset:
  "yields_all visit (add_mset j J) N \<longleftrightarrow> (\<exists>M N'. yields visit j M \<and> yields_all visit J N' \<and> N = M + N')"
  using yields_all_remove [of visit "add_mset j J" N j] by (auto intro: yields_add)

lemma yields_all_union:
  "yields_all visit (I + J) N \<longleftrightarrow> (\<exists>M N'. yields_all visit I M \<and> yields_all visit J N' \<and> N = M + N')"
proof (induction I arbitrary: N)
  case (add i I)
  then show ?case by (simp add: yields_all_add_mset) (metis union_assoc)
qed simp

lemma yields_unique_all:
  "(yields visit j M \<longrightarrow> (\<forall>M'. yields visit j M' \<longrightarrow> M = M')) \<and>
   (yields_all visit J N \<longrightarrow> (\<forall>N'. yields_all visit J N' \<longrightarrow> N = N'))"
proof (rule yields_yields_all.induct)
  fix j M
  assume "ending (visit j) = Go" "yields_all visit (mset (jobs (visit j))) M"
    and "\<forall>N'. yields_all visit (mset (jobs (visit j))) N' \<longrightarrow> M = N'"
  then show "\<forall>M'. yields visit j M' \<longrightarrow> mset (outs (visit j)) + M = M'"
    unfolding yields_simp by blast
next
  fix j M J N
  assume "\<forall>M'. yields visit j M' \<longrightarrow> M = M'" "\<forall>N'. yields_all visit J N' \<longrightarrow> N = N'"
  then show "\<forall>N'. yields_all visit (add_mset j J) N' \<longrightarrow> M + N = N'"
    unfolding yields_all_add_mset by blast
qed simp

lemma yields_unique: "yields_all visit J N \<Longrightarrow> yields_all visit J N' \<Longrightarrow> N = N'"
  using yields_unique_all [of visit undefined undefined J N] by fast

text \<open>A poll moves one job's output from the work still to do to what was sent.\<close>

lemma oks_messages [simp]: "oks (messages r) = outs r"
  by (auto simp: messages_def split: ending.split)

lemma poll_yields:
  assumes "0 < n" and "status s = Running" and "yields_all visit (todo s) M"
  obtains M' where "yields_all visit (todo (poll visit n k s)) M'"
    and "mset (oks (sent (poll visit n k s))) + M' = mset (oks (sent s)) + M"
    and "status (poll visit n k s) \<in> {Running, Completed}"
    and "status (poll visit n k s) = Completed \<Longrightarrow> M' = {#}"
proof (cases rule: poll_cases [OF assms(1), of s visit k, case_names empty job])
  case empty
  with assms(3) that [of "{#}"] show thesis by (simp add: todo_def)
next
  case (job j rest)
  with assms(3) obtain M1 M2 where M: "M = M1 + M2" "yields visit j M1" "yields_all visit rest M2"
    by (auto simp: yields_all_add_mset)
  from M(2) obtain M3 where M3: "ending (visit j) = Go" "M1 = mset (outs (visit j)) + M3"
      "yields_all visit (mset (jobs (visit j))) M3"
    by (auto elim: yields.cases)
  then have "yields_all visit (todo (poll visit n k s)) (M2 + M3)"
    using M(3) job(2) by (auto simp: yields_all_union)
  moreover have "messages (visit j) = map Inr (outs (visit j))"
    using M3(1) by (simp add: messages_def)
  ultimately show thesis
    using that [of "M2 + M3"] job M(1) M3 by (auto simp: end_status_def ac_simps)
qed

text \<open>Completed walks, followed backwards: every job that was to do yields its part.\<close>

lemma poll_completed_yields:
  assumes "0 < n" and "status s = Running"
    and "status (poll visit n k s) = Completed \<or>
      status (poll visit n k s) = Running \<and> yields_all visit (todo (poll visit n k s)) M'"
  shows "\<exists>M. yields_all visit (todo s) M \<and>
    (status (poll visit n k s) = Completed \<longrightarrow> M = {#} \<and> sent (poll visit n k s) = sent s) \<and>
    (status (poll visit n k s) = Running \<longrightarrow>
      mset (oks (sent s)) + M = mset (oks (sent (poll visit n k s))) + M')"
proof (cases rule: poll_cases [OF assms(1), of s visit k, case_names empty job])
  case empty
  then show ?thesis by simp
next
  case (job j rest)
  then have go: "ending (visit j) = Go"
    using assms(3) by (auto simp: end_status_def split: ending.splits)
  with job assms(3) have "yields_all visit (rest + mset (jobs (visit j))) M'"
    by (simp add: end_status_def)
  then obtain M1 M2 where M: "yields_all visit rest M1" "yields_all visit (mset (jobs (visit j))) M2" "M' = M1 + M2"
    by (auto simp: yields_all_union)
  then have "yields_all visit (todo s) (mset (outs (visit j)) + M2 + M1)"
    unfolding job(1) by (intro yields_add yields_job go)
  with job go M(3) show ?thesis
    by (intro exI conjI) (auto simp: end_status_def ac_simps)
qed

section \<open>Messages\<close>

text \<open>
  The shape of what has been sent: entries, and after a failure one error as the very last
  message.
\<close>

definition well_sent :: "('job, 'out, 'err) walk_state \<Rightarrow> bool" where
  "well_sent s \<longleftrightarrow>
     (if status s = Failed then \<exists>xs e. sent s = map Inr xs @ [Inl e]
      else status s = Dropped \<or> (\<exists>xs. sent s = map Inr xs))"

lemma poll_well_sent:
  assumes "0 < n" "status s = Running" "well_sent s"
  shows "well_sent (poll visit n k s)"
proof (cases rule: poll_cases [OF assms(1), of s visit k, case_names empty job])
  case empty
  with assms(2,3) show ?thesis by (simp add: well_sent_def)
next
  case (job j rest)
  obtain xs where xs: "sent s = map Inr xs" using assms(2,3) by (auto simp: well_sent_def)
  obtain ys where ys: "ys = xs @ outs (visit j)" by simp
  have "sent (poll visit n k s) = map Inr ys @
      (case ending (visit j) of Fail e \<Rightarrow> [Inl e] | _ \<Rightarrow> [])"
    using job xs ys by (simp add: messages_def)
  then show ?thesis
    using job(4) by (cases "ending (visit j)") (auto simp: well_sent_def end_status_def)
qed

lemma run_schedule_stopped: "status s \<noteq> Running \<Longrightarrow> run_schedule visit n ks s = s"
  by (induction ks) auto

lemma run_schedule_invariant:
  assumes "P s" and "\<And>s k. status s = Running \<Longrightarrow> P s \<Longrightarrow> P (poll visit n k s)"
  shows "P (run_schedule visit n ks s)"
  using assms(1)
proof (induction ks arbitrary: s)
  case (Cons k ks)
  show ?case
  proof (cases "status s = Running")
    case True
    then show ?thesis using Cons assms(2) [of s k] by simp
  next
    case False
    then show ?thesis using Cons by simp
  qed
qed simp

lemma run_schedule_append:
  "run_schedule visit n (ks @ ks') s = run_schedule visit n ks' (run_schedule visit n ks s)"
  by (induction ks arbitrary: s) auto

lemma run_schedule_steps: "walk_steps visit n s (run_schedule visit n ks s)"
proof (rule run_schedule_invariant)
  fix t k
  assume "status t = Running" "walk_steps visit n s t"
  then show "walk_steps visit n s (poll visit n k t)"
    by (blast intro: rtranclp.rtrancl_into_rtrancl polled)
qed simp

lemma run_schedule_well_sent:
  "0 < n \<Longrightarrow> well_sent s \<Longrightarrow> well_sent (run_schedule visit n ks s)"
  by (rule run_schedule_invariant) (auto intro: poll_well_sent)

lemma run_schedule_not_dropped:
  assumes "status s \<noteq> Dropped"
  shows "status (run_schedule visit n ks s) \<noteq> Dropped"
  by (rule run_schedule_invariant [where P = "\<lambda>s. status s \<noteq> Dropped", OF assms])
    (auto simp: poll_def end_status_def Let_def split: prod.splits ending.splits)

text \<open>Never more than \<open>n\<close> listings are in flight.\<close>

lemma poll_in_flight:
  "length (in_flight s) \<le> n \<Longrightarrow> length (in_flight (poll visit n k s)) \<le> n"
  using fill_bound [of "in_flight s" n "pending s"]
    mod_less_divisor [of "length (snd (fill n (pending s) (in_flight s)))" k]
  by (auto simp: poll_def Let_def simp del: mod_less_divisor split: prod.splits)

lemma walk_in_flight:
  "walk_steps visit n s t \<Longrightarrow> length (in_flight s) \<le> n \<Longrightarrow> length (in_flight t) \<le> n"
  by (induction rule: rtranclp_induct) (auto elim!: walk_stepE intro: poll_in_flight)

section \<open>Reachable jobs\<close>

abbreviation child_job where
  "child_job visit j j' \<equiv> j' \<in> set (jobs (visit j))"

definition job_reach :: "('job \<Rightarrow> ('job, 'out, 'err) visit_result) \<Rightarrow> 'job set \<Rightarrow> 'job set" where
  "job_reach visit J = {j'. \<exists>j \<in> J. (child_job visit)\<^sup>*\<^sup>* j j'}"

lemma job_reach_self: "j \<in> J \<Longrightarrow> j \<in> job_reach visit J"
  by (auto simp: job_reach_def)

lemma job_reach_step: "j \<in> job_reach visit J \<Longrightarrow> child_job visit j j' \<Longrightarrow> j' \<in> job_reach visit J"
  by (auto simp: job_reach_def intro: rtranclp.rtrancl_into_rtrancl)

lemma job_reach_unfold:
  "job_reach visit {j} = insert j (job_reach visit (set (jobs (visit j))))"
  by (auto simp: job_reach_def intro: converse_rtranclp_into_rtranclp elim: converse_rtranclpE)

lemma job_reach_insert:
  "job_reach visit (insert j J) = job_reach visit {j} \<union> job_reach visit J"
  "job_reach visit {} = {}"
  by (auto simp: job_reach_def)

lemma yields_reach:
  "(yields visit j M \<longrightarrow>
     set_mset M = (\<Union>i \<in> job_reach visit {j}. set (outs (visit i))) \<and>
     (\<forall>i \<in> job_reach visit {j}. ending (visit i) = Go)) \<and>
   (yields_all visit J N \<longrightarrow>
     set_mset N = (\<Union>i \<in> job_reach visit (set_mset J). set (outs (visit i))) \<and>
     (\<forall>i \<in> job_reach visit (set_mset J). ending (visit i) = Go))"
proof (rule yields_yields_all.induct, goal_cases)
  case (1 j M)
  then show ?case by (simp add: job_reach_unfold [of visit j])
next
  case 2
  show ?case by (simp add: job_reach_insert(2))
next
  case (3 j M J N)
  then show ?case by (simp add: job_reach_insert(1) [of visit j "set_mset J"] UN_Un ball_Un)
qed

lemma yields_all_reach:
  assumes "yields_all visit J N"
  shows "set_mset N = (\<Union>i \<in> job_reach visit (set_mset J). set (outs (visit i)))"
    and "i \<in> job_reach visit (set_mset J) \<Longrightarrow> ending (visit i) = Go"
  using yields_reach [of visit undefined undefined J N] assms by blast+

section \<open>The interface to the handling of a listing\<close>

text \<open>
  What the scheduler relies on: on jobs that satisfy an invariant \<open>ok\<close>, handling a listing
  does not panic, queues jobs that satisfy it again, and the jobs below a job are
  well-founded (the directory tree has no infinite descent).
\<close>

locale scheduled =
  fixes visit :: "'job \<Rightarrow> ('job, 'out, 'err) visit_result" and ok :: "'job \<Rightarrow> bool"
  assumes ok_jobs: "ok j \<Longrightarrow> child_job visit j j' \<Longrightarrow> ok j'"
    and ok_ending: "ok j \<Longrightarrow> ending (visit j) \<noteq> Panic"
    and ok_wf: "wf {(j', j). ok j \<and> child_job visit j j'}"
begin

definition ok_state where
  "ok_state s \<longleftrightarrow> (\<forall>j \<in># todo s. ok j) \<and> status s \<noteq> Panicked"

lemma poll_ok:
  assumes "0 < n" "ok_state s"
  shows "ok_state (poll visit n k s)"
proof (cases rule: poll_cases [OF assms(1), of s visit k, case_names empty job])
  case empty
  then show ?thesis by (simp add: ok_state_def todo_def)
next
  case (job j rest)
  with assms(2) have "ok j" "\<forall>i \<in># rest. ok i" by (auto simp: ok_state_def)
  with job show ?thesis
    using ok_jobs ok_ending [of j]
    by (auto simp: ok_state_def end_status_def split: ending.splits)
qed

lemma steps_ok:
  assumes "0 < n"
  shows "walk_steps visit n s t \<Longrightarrow> ok_state s \<Longrightarrow> ok_state t"
proof (induction rule: rtranclp_induct)
  case (step t u)
  then show ?case
    by (auto elim!: walk_stepE intro: poll_ok [OF assms]) (simp add: ok_state_def todo_def)
qed

lemma run_ok: "0 < n \<Longrightarrow> ok_state s \<Longrightarrow> ok_state (run_schedule visit n ks s)"
  using steps_ok run_schedule_steps by blast

text \<open>Every step that leaves a walk running lowers its work in the multiset order.\<close>

abbreviation job_order where
  "job_order \<equiv> {(j', j). ok j \<and> child_job visit j j'}"

lemma poll_decreases:
  assumes "0 < n" "ok_state s" "status (poll visit n k s) = Running"
  shows "(todo (poll visit n k s), todo s) \<in> mult1 job_order"
proof (cases rule: poll_cases [OF assms(1), of s visit k, case_names empty job])
  case empty
  with assms(3) show ?thesis by simp
next
  case (job j rest)
  with assms(2) have "ok j" by (simp add: ok_state_def)
  then have "(rest + mset (jobs (visit j)), add_mset j rest) \<in> mult1 job_order"
    unfolding mult1_def by (intro CollectI case_prodI exI conjI) (auto intro: refl)
  with job(1,2) show ?thesis by simp
qed

lemma poll_todo_finite:
  assumes "0 < n"
  shows "todo (poll visit n k s) \<in> insert {#} ((\<lambda>j. todo s - {#j#} + mset (jobs (visit j))) ` set_mset (todo s))"
proof (cases rule: poll_cases [OF assms, of s visit k, case_names empty job])
  case empty
  then show ?thesis by (simp add: todo_def)
next
  case (job j rest)
  then show ?thesis by auto
qed

text \<open>Termination: enough polls end the walk, whatever the order of the completions.\<close>

lemma terminates:
  assumes n: "0 < n"
  shows "\<exists>m. \<forall>s ks. todo s = T \<longrightarrow> ok_state s \<longrightarrow> m \<le> length ks \<longrightarrow>
    status (run_schedule visit n ks s) \<noteq> Running"
proof (induction T rule: wf_induct [OF wf_mult1 [OF ok_wf]])
  case (1 T)
  let ?next = "insert {#} ((\<lambda>j. T - {#j#} + mset (jobs (visit j))) ` set_mset T)"
  let ?below = "{T' \<in> ?next. (T', T) \<in> mult1 job_order}"
  define ends where "ends T m \<longleftrightarrow> (\<forall>s ks. todo s = T \<longrightarrow> ok_state s \<longrightarrow> m \<le> length ks \<longrightarrow>
    status (run_schedule visit n ks s) \<noteq> Running)" for T m
  have "\<forall>T' \<in> ?below. \<exists>m. ends T' m" using 1 by (auto simp: ends_def)
  then obtain f where f: "\<forall>T' \<in> ?below. ends T' (f T')" by (rule bchoice [THEN exE])
  define m where "m = Suc (\<Sum>T' \<in> ?below. f T')"
  have fin: "finite ?below" by simp
  have "ends T m" unfolding ends_def
  proof (intro allI impI)
    fix s :: "('job, 'out, 'err) walk_state" and ks :: "nat list"
    assume s: "todo s = T" "ok_state s" "m \<le> length ks"
    then obtain k ks' where ks: "ks = k # ks'" "(\<Sum>T' \<in> ?below. f T') \<le> length ks'"
      by (cases ks) (auto simp: m_def)
    let ?t = "poll visit n k s"
    show "status (run_schedule visit n ks s) \<noteq> Running"
    proof (cases "status s = Running \<and> status ?t = Running")
      case True
      have below: "todo ?t \<in> ?below"
        using poll_decreases [OF n s(2)] poll_todo_finite [OF n, of k s] s(1) True by auto
      then have "f (todo ?t) \<le> length ks'"
        using member_le_sum [OF below, of f] fin ks(2) by force
      moreover have "ends (todo ?t) (f (todo ?t))" using f below by blast
      ultimately show ?thesis
        using poll_ok [OF n s(2)] True ks(1) by (simp add: ends_def)
    next
      case False
      then show ?thesis using ks(1) by (auto simp: run_schedule_stopped)
    qed
  qed
  then show ?case by (auto simp: ends_def)
qed

lemma always_ends:
  assumes "0 < n" "ok_state s"
  obtains m where "\<And>ks. m \<le> length ks \<Longrightarrow> status (run_schedule visit n ks s) \<noteq> Running"
  using terminates [OF assms(1), of "todo s"] assms(2) by blast

text \<open>If nothing below the work to do fails, the work has a definite result.\<close>

lemma yields_exists:
  assumes "ok j" "\<forall>i \<in> job_reach visit {j}. ending (visit i) = Go"
  shows "\<exists>M. yields visit j M"
  using assms
proof (induction j rule: wf_induct_rule [OF ok_wf])
  case (1 j)
  have "\<exists>N. yields_all visit (mset is) N" if "set is \<subseteq> set (jobs (visit j))" for "is"
    using that
  proof (induction "is")
    case (Cons i "is")
    then have "i \<in> set (jobs (visit j))" by simp
    moreover from this have "job_reach visit {i} \<subseteq> job_reach visit {j}"
      unfolding job_reach_def by (auto intro: converse_rtranclp_into_rtranclp)
    ultimately obtain M where "yields visit i M"
      using 1 ok_jobs by blast
    with Cons show ?case by (auto simp: yields_all_add_mset)
  qed (auto intro: yields_none)
  then obtain N where "yields_all visit (mset (jobs (visit j))) N" by blast
  moreover have "ending (visit j) = Go" using 1 by (simp add: job_reach_self)
  ultimately show ?case by (blast intro: yields_job)
qed

lemma yields_all_exists:
  assumes "\<forall>j \<in># J. ok j" "\<forall>i \<in> job_reach visit (set_mset J). ending (visit i) = Go"
  shows "\<exists>N. yields_all visit J N"
  using assms
proof (induction J)
  case (add j J)
  then have "ok j" "\<forall>i \<in> job_reach visit {j}. ending (visit i) = Go"
    and J: "\<forall>i \<in># J. ok i" "\<forall>i \<in> job_reach visit (set_mset J). ending (visit i) = Go"
    by (auto simp: job_reach_def)
  then obtain M where "yields visit j M" using yields_exists by blast
  moreover from J add.IH obtain N where "yields_all visit J N" by blast
  ultimately show ?case by (auto simp: yields_all_add_mset)
qed (auto intro: yields_none)

end

section \<open>Results of schedules\<close>

lemma run_yields:
  fixes s :: "('job, 'out, 'err) walk_state"
  assumes "0 < n" and "status s = Running" and "yields_all visit (todo s) M"
  shows "status (run_schedule visit n ks s) \<in> {Running, Completed}"
    and "status (run_schedule visit n ks s) = Completed \<Longrightarrow>
      mset (oks (sent (run_schedule visit n ks s))) = mset (oks (sent s)) + M"
proof -
  define P where "P t \<longleftrightarrow> status t \<in> {Running, Completed} \<and>
    (\<exists>M'. yields_all visit (todo t) M' \<and> mset (oks (sent t)) + M' = mset (oks (sent s)) + M \<and>
      (status t = Completed \<longrightarrow> M' = {#}))" for t :: "('job, 'out, 'err) walk_state"
  have "P (run_schedule visit n ks s)"
  proof (rule run_schedule_invariant)
    show "P s" using assms by (auto simp: P_def)
    fix t k
    assume t: "status t = Running" "P t"
    then obtain M' where M': "yields_all visit (todo t) M'" "mset (oks (sent t)) + M' = mset (oks (sent s)) + M"
      by (auto simp: P_def)
    show "P (poll visit n k t)"
      by (rule poll_yields [OF assms(1) t(1) M'(1), of k]) (auto simp: P_def M'(2))
  qed
  then show "status (run_schedule visit n ks s) \<in> {Running, Completed}"
    and "status (run_schedule visit n ks s) = Completed \<Longrightarrow>
      mset (oks (sent (run_schedule visit n ks s))) = mset (oks (sent s)) + M"
    by (auto simp: P_def)
qed

lemma completed_yields:
  assumes "0 < n"
  shows "status s = Running \<Longrightarrow> status (run_schedule visit n ks s) = Completed \<Longrightarrow>
    \<exists>M. yields_all visit (todo s) M"
proof (induction ks arbitrary: s)
  case (Cons k ks)
  show ?case
  proof (cases "status (poll visit n k s) = Running")
    case True
    with Cons obtain M' where "yields_all visit (todo (poll visit n k s)) M'" by fastforce
    with poll_completed_yields [OF assms Cons.prems(1)] True show ?thesis by blast
  next
    case False
    with Cons.prems have "status (poll visit n k s) = Completed"
      by (simp add: run_schedule_stopped)
    with poll_completed_yields [OF assms Cons.prems(1)] show ?thesis by blast
  qed
qed simp

text \<open>
  The order in which listings complete, and how many run in parallel, do not matter: if one
  schedule completes then no other one fails, and all that complete send the same entries.
\<close>

lemma schedule_independent:
  assumes "0 < n" "0 < n'" "status s = Running"
    and "status (run_schedule visit n ks s) = Completed"
  shows "status (run_schedule visit n' ks' s) \<in> {Running, Completed}"
    and "status (run_schedule visit n' ks' s) = Completed \<Longrightarrow>
      mset (oks (sent (run_schedule visit n' ks' s))) = mset (oks (sent (run_schedule visit n ks s)))"
proof -
  obtain M where M: "yields_all visit (todo s) M"
    using completed_yields [OF assms(1,3,4)] by blast
  show "status (run_schedule visit n' ks' s) \<in> {Running, Completed}"
    by (rule run_yields(1) [OF assms(2,3) M])
  show "status (run_schedule visit n' ks' s) = Completed \<Longrightarrow>
      mset (oks (sent (run_schedule visit n' ks' s))) = mset (oks (sent (run_schedule visit n ks s)))"
    using run_yields(2) [OF assms(2,3) M] run_yields(2) [OF assms(1,3) M assms(4)] by simp
qed

text \<open>Soundness: whatever is sent comes from a job below the initial work.\<close>

lemma poll_reach:
  assumes "0 < n" "set_mset (todo s) \<subseteq> job_reach visit J"
  shows "set_mset (todo (poll visit n k s)) \<subseteq> job_reach visit J \<and>
    (\<forall>x. Inr x \<in> set (sent (poll visit n k s)) \<longrightarrow>
      Inr x \<in> set (sent s) \<or> (\<exists>j \<in> job_reach visit J. x \<in> set (outs (visit j)))) \<and>
    (\<forall>e. Inl e \<in> set (sent (poll visit n k s)) \<longrightarrow>
      Inl e \<in> set (sent s) \<or> (\<exists>j \<in> job_reach visit J. ending (visit j) = Fail e))"
proof (cases rule: poll_cases [OF assms(1), of s visit k, case_names empty job])
  case empty
  then show ?thesis by (simp add: todo_def)
next
  case (job j rest)
  with assms(2) have j: "j \<in> job_reach visit J" and rest: "set_mset rest \<subseteq> job_reach visit J" by auto
  have "set (jobs (visit j)) \<subseteq> job_reach visit J" using job_reach_step [OF j] by blast
  with job j rest show ?thesis
    by (auto simp: messages_def split: ending.splits)
qed

lemma walk_reach:
  assumes "0 < n" "walk_steps visit n s t"
  shows "set_mset (todo t) \<subseteq> job_reach visit (set_mset (todo s)) \<and>
    (\<forall>x. Inr x \<in> set (sent t) \<longrightarrow>
      Inr x \<in> set (sent s) \<or> (\<exists>j \<in> job_reach visit (set_mset (todo s)). x \<in> set (outs (visit j)))) \<and>
    (\<forall>e. Inl e \<in> set (sent t) \<longrightarrow>
      Inl e \<in> set (sent s) \<or> (\<exists>j \<in> job_reach visit (set_mset (todo s)). ending (visit j) = Fail e))"
  using assms(2)
proof (induction rule: rtranclp_induct)
  case base
  show ?case by (auto intro: job_reach_self)
next
  case (step t u)
  from step.hyps(2) consider (polled) k where "u = poll visit n k t"
    | (dropped) ms k where "prefix ms (sent (poll visit n k t))" "u = t\<lparr>sent := ms, status := Dropped\<rparr>"
    by (auto elim: walk_stepE)
  then show ?case
  proof cases
    case polled
    with step.IH poll_reach [OF assms(1), of t visit "set_mset (todo s)" k] show ?thesis by blast
  next
    case dropped
    then have "set ms \<subseteq> set (sent (poll visit n k t))" by (auto simp: prefix_def)
    with dropped(2) step.IH poll_reach [OF assms(1), of t visit "set_mset (todo s)" k] show ?thesis
      by (simp add: todo_def) blast
  qed
qed

section \<open>Walks of a tree\<close>

text \<open>
  When jobs and entries have positions in a tree, children one level below their parent and
  siblings at different positions, then no entry is sent twice.
\<close>

definition once :: "('a \<Rightarrow> 'b) \<Rightarrow> 'a multiset \<Rightarrow> bool" where
  "once f M \<longleftrightarrow> (\<forall>y. count (image_mset f M) y \<le> 1)"

lemma once_mset: "once f (mset xs) \<longleftrightarrow> distinct (map f xs)"
proof -
  have "n \<le> 1 \<longleftrightarrow> n = (if 0 < n then 1 else 0)" for n :: nat by auto
  then have "once f (mset xs) \<longleftrightarrow> (\<forall>y. count (mset (map f xs)) y = (if y \<in> set (map f xs) then 1 else 0))"
    unfolding once_def mset_map [symmetric] by (metis count_greater_zero_iff set_mset_mset)
  then show ?thesis by (simp only: distinct_count_atmost_1)
qed

lemma once_union:
  "once f (M + N) \<longleftrightarrow> once f M \<and> once f N \<and> (\<forall>x \<in># M. \<forall>y \<in># N. f x \<noteq> f y)"
proof -
  have pos: "0 < count (image_mset f K) y \<longleftrightarrow> y \<in> f ` set_mset K" for K :: "'a multiset" and y
    by (metis count_greater_zero_iff set_image_mset)
  have "a + b \<le> 1 \<longleftrightarrow> a \<le> 1 \<and> b \<le> 1 \<and> \<not> (0 < a \<and> 0 < b)" for a b :: nat by linarith
  then have "once f (M + N) \<longleftrightarrow> once f M \<and> once f N \<and>
      (\<forall>y. \<not> (0 < count (image_mset f M) y \<and> 0 < count (image_mset f N) y))"
    unfolding once_def image_mset_union count_union by blast
  then show ?thesis unfolding pos by blast
qed

locale tree_scheduled = scheduled visit ok
  for visit :: "'job \<Rightarrow> ('job, 'out, 'err) visit_result" and ok :: "'job \<Rightarrow> bool" +
  fixes jname :: "'job \<Rightarrow> 'k list" and oname :: "'out \<Rightarrow> 'k list"
  assumes job_names: "ok j \<Longrightarrow> child_job visit j j' \<Longrightarrow> \<exists>k. jname j' = jname j @ [k]"
    and job_distinct: "ok j \<Longrightarrow> distinct (map jname (jobs (visit j)))"
    and out_names: "ok j \<Longrightarrow> x \<in> set (outs (visit j)) \<Longrightarrow> \<exists>k. oname x = jname j @ [k]"
    and out_distinct: "ok j \<Longrightarrow> distinct (map oname (outs (visit j)))"
begin

definition inside where
  "inside J x \<longleftrightarrow> (\<exists>j \<in> J. \<exists>k ks. oname x = jname j @ k # ks)"

lemma yields_once_all:
  "(yields visit j M \<longrightarrow> ok j \<longrightarrow> once oname M \<and> (\<forall>x \<in># M. inside {j} x)) \<and>
   (yields_all visit J N \<longrightarrow> (\<forall>L. (\<forall>i \<in># J. ok i \<and> length (jname i) = L) \<longrightarrow> once jname J \<longrightarrow>
      once oname N \<and> (\<forall>x \<in># N. inside (set_mset J) x)))"
proof (rule yields_yields_all.induct, goal_cases)
  case (1 j M)
  show ?case
  proof
    assume "ok j"
    then have "\<forall>i \<in> set (jobs (visit j)). ok i \<and> length (jname i) = Suc (length (jname j))"
      using ok_jobs job_names by fastforce
    moreover have "once jname (mset (jobs (visit j)))"
      using job_distinct [OF \<open>ok j\<close>] by (simp add: once_mset)
    ultimately have M: "once oname M" "\<forall>x \<in># M. inside (set (jobs (visit j))) x"
      using 1(3) by auto
    have deep: "\<exists>k k' ks. oname x = jname j @ k # k' # ks" if "x \<in># M" for x
    proof -
      from M(2) that obtain i k' ks where "i \<in> set (jobs (visit j))" "oname x = jname i @ k' # ks"
        by (auto simp: inside_def)
      with job_names [OF \<open>ok j\<close>] show ?thesis by fastforce
    qed
    have flat: "\<exists>k. oname x = jname j @ [k]" if "x \<in> set (outs (visit j))" for x
      using out_names [OF \<open>ok j\<close> that] .
    have "oname x \<noteq> oname y" if "x \<in> set (outs (visit j))" "y \<in># M" for x y
      using deep [OF that(2)] flat [OF that(1)] by fastforce
    then have "once oname (mset (outs (visit j)) + M)"
      using out_distinct [OF \<open>ok j\<close>] M(1) by (auto simp: once_union once_mset)
    moreover have "inside {j} x" if "x \<in># mset (outs (visit j)) + M" for x
      using that deep flat by (auto simp: inside_def) blast+
    ultimately show "once oname (mset (outs (visit j)) + M) \<and>
        (\<forall>x \<in># mset (outs (visit j)) + M. inside {j} x)" by blast
  qed
next
  case 2
  show ?case by (simp add: once_def)
next
  case (3 j M J N)
  show ?case
  proof (intro allI impI)
    fix L
    assume L: "\<forall>i \<in># add_mset j J. ok i \<and> length (jname i) = L" and o: "once jname (add_mset j J)"
    have oJ: "once jname J" "\<forall>i \<in># J. jname j \<noteq> jname i"
      using o once_union [of jname "{#j#}" J] by auto
    have M: "once oname M" "\<forall>x \<in># M. inside {j} x" using 3(2) L by auto
    have N: "once oname N" "\<forall>x \<in># N. inside (set_mset J) x" using 3(4) L oJ(1) by auto
    have "oname x \<noteq> oname y" if xM: "x \<in># M" and yN: "y \<in># N" for x y
    proof
      assume eq: "oname x = oname y"
      obtain k ks where "oname x = jname j @ k # ks" using M(2) xM unfolding inside_def by blast
      moreover obtain i k' ks' where "i \<in># J" "oname y = jname i @ k' # ks'"
        using N(2) yN unfolding inside_def by blast
      ultimately show False using eq L oJ(2) by fastforce
    qed
    with M N show "once oname (M + N) \<and> (\<forall>x \<in># M + N. inside (set_mset (add_mset j J)) x)"
      by (auto simp: once_union inside_def)
  qed
qed

lemma yields_once: "yields visit j M \<Longrightarrow> ok j \<Longrightarrow> once oname M \<and> (\<forall>x \<in># M. inside {j} x)"
  using yields_once_all [of j M "{#}" "{#}"] by blast

end

end
