(* ===== verification/Hdfs_Error.thy ===== *)
theory Hdfs_Error
  imports Prelude
begin

text \<open>
  The errors of the \<^verbatim>\<open>hdfs-native\<close> client as the bridge sees them, and their
  classification into the FFI categories (\<^verbatim>\<open>hdfs-bridge/src/lib.rs\<close>: \<^verbatim>\<open>classify\<close>,
  \<^verbatim>\<open>classify_rpc\<close>, \<^verbatim>\<open>classify_io\<close>, \<^verbatim>\<open>is_permission\<close>).

  The type of errors belongs to \<^verbatim>\<open>hdfs-native\<close>. The model has the constructors the
  bridge matches on and one, \<open>OtherError\<close>, for the variants it only meets in its
  catch-all arms; payloads the bridge never inspects are kept as text.
\<close>

section \<open>Errors\<close>

datatype error_kind =
    KNotFound | KPermissionDenied | KAlreadyExists
  | KConnectionRefused | KConnectionReset | KConnectionAborted | KNotConnected
  | KBrokenPipe | KTimedOut | KUnexpectedEof
  | KOther rstring

datatype io_error = IoError (kind: error_kind) (io_message: rstring)

datatype hdfs_error =
    FileNotFound rstring
  | AlreadyExists rstring
  | InvalidPath rstring
  | InvalidArgument rstring
  | UrlParseError rstring
  | RPCError rstring rstring
  | FatalRPCError rstring rstring
  | SASLError rstring
  | GSSAPIError rstring
  | NoSASLMechanism
  | DataTransferError rstring
  | BlocksNotFound rstring
  | IOError io_error
  | OtherError rstring

section \<open>Categories\<close>

definition HDFS_OK :: i32 where "HDFS_OK = 0"
definition HDFS_ERR_IO :: i32 where "HDFS_ERR_IO = 1"
definition HDFS_ERR_NOT_FOUND :: i32 where "HDFS_ERR_NOT_FOUND = 2"
definition HDFS_ERR_PERMISSION :: i32 where "HDFS_ERR_PERMISSION = 3"
definition HDFS_ERR_ALREADY_EXISTS :: i32 where "HDFS_ERR_ALREADY_EXISTS = 4"
definition HDFS_ERR_CONNECTION :: i32 where "HDFS_ERR_CONNECTION = 5"
definition HDFS_ERR_INVALID_ARGUMENT :: i32 where "HDFS_ERR_INVALID_ARGUMENT = 6"

lemmas category_defs =
  HDFS_OK_def HDFS_ERR_IO_def HDFS_ERR_NOT_FOUND_def HDFS_ERR_PERMISSION_def
  HDFS_ERR_ALREADY_EXISTS_def HDFS_ERR_CONNECTION_def HDFS_ERR_INVALID_ARGUMENT_def

definition classify_rpc :: "rstring \<Rightarrow> i32" where
  "classify_rpc class_name =
     (if contains class_name (lit ''AccessControlException'')
         \<or> contains class_name (lit ''SecurityException'')
      then HDFS_ERR_PERMISSION
      else if contains class_name (lit ''FileNotFoundException'') then HDFS_ERR_NOT_FOUND
      else if contains class_name (lit ''FileAlreadyExistsException'')
         \<or> contains class_name (lit ''AlreadyBeingCreated'')
      then HDFS_ERR_ALREADY_EXISTS
      else if contains class_name (lit ''StandbyException'')
         \<or> contains class_name (lit ''RetriableException'')
      then HDFS_ERR_CONNECTION
      else HDFS_ERR_IO)"

definition classify_io :: "io_error \<Rightarrow> i32" where
  "classify_io io =
     (case kind io of
        KNotFound \<Rightarrow> HDFS_ERR_NOT_FOUND
      | KPermissionDenied \<Rightarrow> HDFS_ERR_PERMISSION
      | KAlreadyExists \<Rightarrow> HDFS_ERR_ALREADY_EXISTS
      | KConnectionRefused \<Rightarrow> HDFS_ERR_CONNECTION
      | KConnectionReset \<Rightarrow> HDFS_ERR_CONNECTION
      | KConnectionAborted \<Rightarrow> HDFS_ERR_CONNECTION
      | KNotConnected \<Rightarrow> HDFS_ERR_CONNECTION
      | KBrokenPipe \<Rightarrow> HDFS_ERR_CONNECTION
      | KTimedOut \<Rightarrow> HDFS_ERR_CONNECTION
      | KUnexpectedEof \<Rightarrow> HDFS_ERR_CONNECTION
      | KOther _ \<Rightarrow> HDFS_ERR_IO)"

fun classify :: "hdfs_error \<Rightarrow> i32" where
  "classify (FileNotFound _) = HDFS_ERR_NOT_FOUND"
| "classify (AlreadyExists _) = HDFS_ERR_ALREADY_EXISTS"
| "classify (InvalidPath _) = HDFS_ERR_INVALID_ARGUMENT"
| "classify (InvalidArgument _) = HDFS_ERR_INVALID_ARGUMENT"
| "classify (UrlParseError _) = HDFS_ERR_INVALID_ARGUMENT"
| "classify (RPCError class_name _) = classify_rpc class_name"
| "classify (FatalRPCError class_name _) = classify_rpc class_name"
| "classify (SASLError _) = HDFS_ERR_CONNECTION"
| "classify (GSSAPIError _) = HDFS_ERR_CONNECTION"
| "classify NoSASLMechanism = HDFS_ERR_CONNECTION"
| "classify (DataTransferError _) = HDFS_ERR_CONNECTION"
| "classify (BlocksNotFound _) = HDFS_ERR_CONNECTION"
| "classify (IOError io) = classify_io io"
| "classify (OtherError _) = HDFS_ERR_IO"

definition is_permission :: "hdfs_error \<Rightarrow> bool" where
  "is_permission err = (classify err = HDFS_ERR_PERMISSION)"

section \<open>What the categories say\<close>

text \<open>The classification never yields \<open>HDFS_OK\<close>: a reported error is never read as success.\<close>

lemma classify_rpc_not_ok: "classify_rpc class_name \<noteq> HDFS_OK"
  by (simp add: classify_rpc_def category_defs)

lemma classify_io_not_ok: "classify_io io \<noteq> HDFS_OK"
  by (simp add: classify_io_def category_defs split: error_kind.split)

lemma classify_not_ok: "classify err \<noteq> HDFS_OK"
  using classify_rpc_not_ok classify_io_not_ok by (cases err) (simp_all add: category_defs)

text \<open>
  Exactly these errors count as permission errors, the ones a walk may prune: an RPC error
  whose server exception class names an access-control or a security exception, and the operating
  system's permission-denied error.
\<close>

theorem permission_errors:
  "is_permission err \<longleftrightarrow>
     (\<exists>class_name msg. err \<in> {RPCError class_name msg, FatalRPCError class_name msg} \<and>
        (contains class_name (lit ''AccessControlException'') \<or>
         contains class_name (lit ''SecurityException''))) \<or>
     (\<exists>msg. err = IOError (IoError KPermissionDenied msg))"
proof (cases err)
  case (IOError io)
  then show ?thesis
    by (cases io; cases "kind io") (auto simp: is_permission_def classify_io_def category_defs)
qed (auto simp: is_permission_def classify_rpc_def category_defs)

end
