(* ===== verification/Brace.thy ===== *)
theory Brace
  imports Hdfs_Error
begin

text \<open>
  Brace expansion (\<^verbatim>\<open>hdfs-bridge/src/glob.rs\<close>: \<^verbatim>\<open>expand_braces\<close>): the code with its
  indices, a reading of it on the remaining input, and what it computes: it never panics
  and ends; it fails exactly when some group is not closed; its results hold no group;
  and on the text of a brace expression it returns the expression's alternatives in order.
\<close>

section \<open>The code\<close>

text \<open>Find the first unescaped opening brace.\<close>

function find_open :: "rstring \<Rightarrow> nat \<Rightarrow> nat option option" where
  "find_open chars i =
     (if i < length chars then do {
        c \<leftarrow> idx chars i;
        if c = ch_bslash then find_open chars (i + 2)
        else if c = ch_lbrace then Some (Some i)
        else find_open chars (i + 1)
      } else Some None)"
  by pat_completeness auto
termination
  by (relation "measure (\<lambda>(chars, i). length chars - i)") auto

declare find_open.simps [simp del]

text \<open>
  Collect the top-level alternatives up to the matching closing brace: the loop over
  \<open>j\<close> with its variables \<open>depth\<close>, \<open>current\<close> and \<open>alternatives\<close>. \<open>Some None\<close> when the
  group is not closed, else the alternatives and the index of the closing brace.
\<close>

function collect_alts ::
  "rstring \<Rightarrow> nat \<Rightarrow> nat \<Rightarrow> rstring \<Rightarrow> rstring list \<Rightarrow> (rstring list \<times> nat) option option" where
  "collect_alts chars j depth current alternatives =
     (if j < length chars then do {
        c \<leftarrow> idx chars j;
        if c = ch_bslash then
          (if j + 1 < length chars then do {
             d \<leftarrow> idx chars (j + 1);
             collect_alts chars (j + 2) depth (current @ [c, d]) alternatives
           } else collect_alts chars (j + 2) depth (current @ [c]) alternatives)
        else if c = ch_lbrace then
          collect_alts chars (j + 1) (depth + 1) (current @ [c]) alternatives
        else if c = ch_rbrace then
          (if depth - 1 = 0 then Some (Some (alternatives @ [current], j))
           else collect_alts chars (j + 1) (depth - 1) (current @ [c]) alternatives)
        else if c = ch_comma \<and> depth = 1 then
          collect_alts chars (j + 1) depth [] (alternatives @ [current])
        else collect_alts chars (j + 1) depth (current @ [c]) alternatives
      } else Some None)"
  by pat_completeness auto
termination
  by (relation "measure (\<lambda>(chars, j, depth, current, alternatives). length chars - j)") auto

declare collect_alts.simps [simp del]

text \<open>Every alternative is shorter than the group it comes from, which ends the recursion.\<close>

lemma collect_alts_shorter:
  "collect_alts chars j depth current alternatives = Some (Some (alts, close)) \<Longrightarrow>
   j \<le> close \<and> close < length chars \<and>
   (\<forall>alt \<in> set alts. alt \<in> set alternatives \<or> length alt + j \<le> length current + close)"
proof (induction chars j depth current alternatives rule: collect_alts.induct)
  case (1 chars j depth current alternatives)
  show ?case
    using "1.prems" "1.IH"
    by (subst (asm) collect_alts.simps) (fastforce split: if_splits)
qed

function expand_braces :: "rstring \<Rightarrow> (hdfs_error + rstring list) option" where
  "expand_braces pattern =
     do {
       found \<leftarrow> find_open pattern 0;
       case found of
         None \<Rightarrow> Some (Inr [pattern])
       | Some start \<Rightarrow> do {
           group \<leftarrow> collect_alts pattern (start + 1) 1 [] [];
           case group of
             None \<Rightarrow> Some (Inl (InvalidPath
               (lit ''Unclosed brace group in glob pattern '' @ lit [CHR 0x27] @ pattern @ lit [CHR 0x27])))
           | Some (alternatives, close) \<Rightarrow>
               extend_all (map (\<lambda>alt. expand_braces
                 (take start pattern @ alt @ drop (close + 1) pattern)) alternatives)
         }
     }"
  by pat_completeness auto
termination
  by (relation "measure length") (auto dest!: collect_alts_shorter)

declare expand_braces.simps [simp del]

section \<open>The same on the remaining input\<close>

fun split_open :: "rstring \<Rightarrow> (rstring \<times> rstring) option" where
  "split_open [] = None"
| "split_open (c # s) =
     (if c = ch_bslash then
        (case s of [] \<Rightarrow> None | d # s' \<Rightarrow> map_option (apfst (\<lambda>u. c # d # u)) (split_open s'))
      else if c = ch_lbrace then Some ([], s)
      else map_option (apfst (Cons c)) (split_open s))"

fun split_alts :: "nat \<Rightarrow> rstring \<Rightarrow> rstring list \<Rightarrow> rstring \<Rightarrow> (rstring list \<times> rstring) option" where
  "split_alts depth current alts [] = None"
| "split_alts depth current alts (c # s) =
     (if c = ch_bslash then
        (case s of [] \<Rightarrow> None | d # s' \<Rightarrow> split_alts depth (current @ [c, d]) alts s')
      else if c = ch_lbrace then split_alts (Suc depth) (current @ [c]) alts s
      else if c = ch_rbrace then
        (if depth - 1 = 0 then Some (alts @ [current], s)
         else split_alts (depth - 1) (current @ [c]) alts s)
      else if c = ch_comma \<and> depth = 1 then split_alts depth [] (alts @ [current]) s
      else split_alts depth (current @ [c]) alts s)"

declare split_open.simps(2) [simp del] split_alts.simps(2) [simp del]

lemma case_drop:
  "(case drop i p of [] \<Rightarrow> a | d # s \<Rightarrow> f d s) = (if i < length p then f (p ! i) (drop (Suc i) p) else a)"
  by (cases "i < length p") (simp_all add: drop_step)

lemma split_open_drop:
  "i < length p \<Longrightarrow> split_open (drop i p) =
     (if p ! i = ch_bslash then
        (if Suc i < length p then map_option (apfst (\<lambda>u. p ! i # p ! Suc i # u)) (split_open (drop (i + 2) p)) else None)
      else if p ! i = ch_lbrace then Some ([], drop (i + 1) p)
      else map_option (apfst (Cons (p ! i))) (split_open (drop (i + 1) p)))"
  by (simp only: drop_step [of i] split_open.simps(2) case_drop) simp

lemma split_alts_drop:
  "j < length p \<Longrightarrow> split_alts depth current alts (drop j p) =
     (if p ! j = ch_bslash then
        (if Suc j < length p then split_alts depth (current @ [p ! j, p ! Suc j]) alts (drop (j + 2) p) else None)
      else if p ! j = ch_lbrace then split_alts (Suc depth) (current @ [p ! j]) alts (drop (j + 1) p)
      else if p ! j = ch_rbrace then
        (if depth - 1 = 0 then Some (alts @ [current], drop (j + 1) p)
         else split_alts (depth - 1) (current @ [p ! j]) alts (drop (j + 1) p))
      else if p ! j = ch_comma \<and> depth = 1 then split_alts depth [] (alts @ [current]) (drop (j + 1) p)
      else split_alts depth (current @ [p ! j]) alts (drop (j + 1) p))"
  by (simp only: drop_step [of j] split_alts.simps(2) case_drop) simp

lemma find_open_spec:
  "find_open p i = Some (map_option (\<lambda>(u, v). i + length u) (split_open (drop i p)))"
proof (induction p i rule: find_open.induct)
  case (1 p i)
  show ?case
  proof (cases "i < length p")
    case True
    with "1.IH" [OF True idx_in [OF True]] show ?thesis
      by (simp add: find_open.simps [of p i] split_open_drop [of i] option.map_comp comp_def split_beta')
  qed (simp add: find_open.simps [of p i])
qed

lemma collect_alts_spec:
  "collect_alts p j depth current alts =
     Some (map_option (\<lambda>(as, rest). (as, length p - Suc (length rest))) (split_alts depth current alts (drop j p)))"
proof (induction p j depth current alts rule: collect_alts.induct)
  case (1 p j depth current alts)
  show ?case
  proof (cases "j < length p")
    case True
    with "1.IH" [OF True idx_in [OF True]] show ?thesis
      by (simp add: collect_alts.simps [of p j] split_alts_drop [of j])
  qed (simp add: collect_alts.simps [of p j])
qed

lemma split_open_append: "split_open p = Some (u, v) \<Longrightarrow> p = u @ ch_lbrace # v"
proof (induction p arbitrary: u rule: split_open.induct)
  case (2 c s)
  then show ?case by (auto simp: split_open.simps(2) [of c s] split: if_splits list.splits)
qed simp

lemma split_alts_suffix: "split_alts depth current alts v = Some (as, rest) \<Longrightarrow> suffix (ch_rbrace # rest) v"
proof (induction depth current alts v rule: split_alts.induct)
  case (2 depth current alts c s)
  then show ?case
    by (auto simp: split_alts.simps(2) [of depth current alts c s] suffix_ConsI split: if_splits list.splits)
qed simp

text \<open>One unfolding of the expansion, without indices.\<close>

lemma expand_braces_unfold:
  "expand_braces p =
     (case split_open p of
        None \<Rightarrow> Some (Inr [p])
      | Some (u, v) \<Rightarrow>
          (case split_alts 1 [] [] v of
             None \<Rightarrow> Some (Inl (InvalidPath
               (lit ''Unclosed brace group in glob pattern '' @ lit [CHR 0x27] @ p @ lit [CHR 0x27])))
           | Some (as, rest) \<Rightarrow> extend_all (map (\<lambda>a. expand_braces (u @ a @ rest)) as)))"
proof (cases "split_open p")
  case None
  then show ?thesis by (simp add: expand_braces.simps [of p] find_open_spec)
next
  case (Some uv)
  obtain u v where uv: "uv = (u, v)" by force
  with Some have p: "p = u @ ch_lbrace # v" by (simp add: split_open_append)
  then have v: "drop (Suc (length u)) p = v" by simp
  show ?thesis
  proof (cases "split_alts 1 [] [] v")
    case None
    with Some uv v show ?thesis
      by (simp add: expand_braces.simps [of p] find_open_spec collect_alts_spec)
  next
    case (Some ar)
    then obtain as rest w where ar: "ar = (as, rest)" and w: "v = w @ ch_rbrace # rest"
      using split_alts_suffix by (cases ar) (fastforce simp: suffix_def)
    have rest: "drop (Suc (length p - Suc (length rest))) p = rest"
      by (simp add: p w Suc_diff_Suc)
    have "take (length u) p = u" by (simp add: p)
    with rest show ?thesis
      using \<open>split_open p = Some uv\<close> Some uv ar v
      by (simp add: expand_braces.simps [of p] find_open_spec collect_alts_spec)
  qed
qed

section \<open>When expansion fails\<close>

text \<open>
  The nesting depth after reading a pattern from depth \<open>d\<close>: escaped characters do not
  count and a closing brace at depth 0 is literal.
\<close>

fun brace_depth :: "nat \<Rightarrow> rstring \<Rightarrow> nat" where
  "brace_depth d [] = d"
| "brace_depth d (c # s) =
     (if c = ch_bslash then (case s of [] \<Rightarrow> d | _ # s' \<Rightarrow> brace_depth d s')
      else if c = ch_lbrace then brace_depth (Suc d) s
      else if c = ch_rbrace then brace_depth (d - 1) s
      else brace_depth d s)"

declare brace_depth.simps(2) [simp del]

text \<open>\<open>u\<close> is a whole number of tokens and raises the depth by \<open>k\<close>.\<close>

definition raises :: "nat \<Rightarrow> rstring \<Rightarrow> bool" where
  "raises k u \<longleftrightarrow> (\<forall>d w. brace_depth d (u @ w) = brace_depth (d + k) w)"

lemma raises_Nil: "raises 0 []"
  by (simp add: raises_def)

lemma raises_append: "raises k u \<Longrightarrow> raises l v \<Longrightarrow> raises (k + l) (u @ v)"
  by (simp add: raises_def add.assoc)

lemma raises_tokens:
  "raises 0 [ch_bslash, d]"
  "raises (Suc 0) [ch_lbrace]"
  "c \<notin> {ch_bslash, ch_lbrace, ch_rbrace} \<Longrightarrow> raises 0 [c]"
  by (auto simp: raises_def brace_depth.simps(2))

lemma raises_close: "raises (Suc k) u \<Longrightarrow> raises k (u @ [ch_rbrace])"
  by (simp add: raises_def brace_depth.simps(2))

lemma split_open_None: "split_open p = None \<Longrightarrow> brace_depth 0 p = 0"
proof (induction p rule: split_open.induct)
  case (2 c s)
  then show ?case
    by (auto simp: split_open.simps(2) [of c s] brace_depth.simps(2) [of _ c s] split: if_splits list.splits)
qed simp

lemma map_apfst_ident: "map_option (apfst (\<lambda>a. a)) x = x"
  by (cases x) auto

lemma split_open_prefix:
  "split_open p = Some (u, v) \<Longrightarrow>
   (\<forall>w. brace_depth 0 (u @ w) = brace_depth 0 w) \<and>
   (\<forall>w. split_open (u @ w) = map_option (apfst ((@) u)) (split_open w))"
proof (induction p arbitrary: u rule: split_open.induct)
  case (2 c s)
  show ?case
  proof (cases "c = ch_bslash")
    case True
    with "2.prems" obtain d s' u' where
      "s = d # s'" "split_open s' = Some (u', v)" "u = c # d # u'"
      by (auto simp: split_open.simps(2) [of _ s] split: list.splits)
    with "2.IH"(1) True show ?thesis
      by (simp add: split_open.simps(2) brace_depth.simps(2) option.map_comp comp_def prod.map_comp apfst_def id_def)
  next
    case False
    show ?thesis
    proof (cases "c = ch_lbrace")
      case True
      with "2.prems" show ?thesis
        by (simp add: split_open.simps(2) [of _ s] map_apfst_ident)
    next
      case not_open: False
      with False "2.prems" obtain u' where "split_open s = Some (u', v)" "u = c # u'"
        by (auto simp: split_open.simps(2) [of _ s])
      with "2.IH"(2) False not_open show ?thesis
        by (simp add: split_open.simps(2) brace_depth.simps(2) option.map_comp comp_def prod.map_comp apfst_def id_def)
    qed
  qed
qed simp

lemma split_open_depth:
  assumes "split_open p = Some (u, v)"
  shows "brace_depth 0 p = brace_depth 1 v"
  using split_open_append [OF assms] split_open_prefix [OF assms] by (simp add: brace_depth.simps(2))

lemma split_alts_None: "split_alts (Suc d) current alts v = None \<Longrightarrow> brace_depth (Suc d) v \<noteq> 0"
proof (induction "Suc d" current alts v arbitrary: d rule: split_alts.induct)
  case (2 current alts c s)
  then show ?case
    by (cases d) (auto simp: split_alts.simps(2) [of _ _ _ c s] brace_depth.simps(2) [of _ c s] split: if_splits list.splits)
qed simp

lemma split_alts_Some:
  "split_alts (Suc d) current alts v = Some (as, rest) \<Longrightarrow> raises d current \<Longrightarrow>
   (\<forall>a \<in> set alts. raises 0 a) \<Longrightarrow>
   brace_depth (Suc d) v = brace_depth 0 rest \<and> (\<forall>a \<in> set as. raises 0 a) \<and> as \<noteq> []"
proof (induction "Suc d" current alts v arbitrary: d rule: split_alts.induct)
  case (2 current alts c s)
  note eqs = split_alts.simps(2) [of _ current alts _ s] brace_depth.simps(2) [of _ _ s]
  have lit: "raises d (current @ u)" if "raises 0 u" for u
    using raises_append [OF "2.prems"(2) that] by simp
  consider (esc) "c = ch_bslash" | (lbrace) "c = ch_lbrace" | (rbrace) "c = ch_rbrace"
    | (comma) "c = ch_comma" "d = 0"
    | (char) "c \<notin> {ch_bslash, ch_lbrace, ch_rbrace}" "\<not> (c = ch_comma \<and> d = 0)" by auto
  then show ?case
  proof cases
    case esc
    then obtain e s' where s: "s = e # s'" using "2.prems"(1) by (cases s) (auto simp: split_alts.simps(2))
    with esc "2.hyps"(1) [OF _ s] "2.prems" lit [OF raises_tokens(1) [of e]] show ?thesis
      by (simp add: split_alts.simps(2) brace_depth.simps(2))
  next
    case lbrace
    then show ?thesis
      using "2.hyps"(2) "2.prems" raises_append [OF "2.prems"(2) raises_tokens(2)] by (simp add: eqs)
  next
    case rbrace
    show ?thesis
    proof (cases d)
      case 0
      with rbrace "2.prems" show ?thesis by (auto simp: eqs(1) brace_depth.simps(2))
    next
      case (Suc d')
      with rbrace show ?thesis
        using "2.hyps"(3) [of d'] "2.prems" raises_close [of d' current] by (simp add: eqs)
    qed
  next
    case comma
    with "2.hyps"(4) "2.prems" raises_Nil show ?thesis by (auto simp: eqs)
  next
    case char
    with "2.hyps"(5) "2.prems" lit [OF raises_tokens(3) [OF char(1)]] show ?thesis
      by (auto simp: eqs)
  qed
qed simp

text \<open>What one unfolding does to depth and length, for the induction over the expansion.\<close>

lemma expansion_step:
  assumes "split_open p = Some (u, v)" and "split_alts 1 [] [] v = Some (as, rest)"
  shows "as \<noteq> []" and "a \<in> set as \<Longrightarrow> brace_depth 0 (u @ a @ rest) = brace_depth 0 p"
    and "a \<in> set as \<Longrightarrow> length (u @ a @ rest) < length p"
proof -
  have p: "p = u @ ch_lbrace # v" using assms(1) by (rule split_open_append)
  have pre: "brace_depth 0 (u @ w) = brace_depth 0 w" for w
    using split_open_prefix [OF assms(1)] by blast
  have depth: "brace_depth 1 v = brace_depth 0 rest \<and> (\<forall>a \<in> set as. raises 0 a) \<and> as \<noteq> []"
    using split_alts_Some [of 0 "[]" "[]" v as rest] assms(2) raises_Nil by simp
  then show "as \<noteq> []" by simp
  have "brace_depth 0 p = brace_depth 1 v"
    by (rule split_open_depth [OF assms(1)])
  with depth show "brace_depth 0 (u @ a @ rest) = brace_depth 0 p" if "a \<in> set as"
    using that by (simp add: pre raises_def)
  have "find_open p 0 = Some (Some (length u))"
    using assms(1) by (simp add: find_open_spec)
  moreover have "collect_alts p (length u + 1) 1 [] [] = Some (Some (as, length p - Suc (length rest)))"
    using assms(2) by (simp add: collect_alts_spec p)
  moreover have "length rest < length v"
    using split_alts_suffix [OF assms(2)] suffix_length_le by fastforce
  ultimately show "length (u @ a @ rest) < length p" if "a \<in> set as"
    using collect_alts_shorter that by (fastforce simp: p)
qed

lemma expand_braces_cases:
  obtains (plain) "split_open p = None" "expand_braces p = Some (Inr [p])" "brace_depth 0 p = 0"
  | (unclosed) u v where "split_open p = Some (u, v)" "split_alts 1 [] [] v = None"
      "brace_depth 0 p \<noteq> 0"
      "expand_braces p = Some (Inl (InvalidPath
         (lit ''Unclosed brace group in glob pattern '' @ lit [CHR 0x27] @ p @ lit [CHR 0x27])))"
  | (group) u v as rest where "split_open p = Some (u, v)" "split_alts 1 [] [] v = Some (as, rest)"
      "expand_braces p = extend_all (map (\<lambda>a. expand_braces (u @ a @ rest)) as)"
proof (cases "split_open p")
  case None
  then show thesis
    using plain split_open_None by (simp add: expand_braces_unfold [of p])
next
  case (Some uv)
  obtain u v where uv: "uv = (u, v)" by force
  show thesis
  proof (cases "split_alts 1 [] [] v")
    case None
    have "brace_depth 0 p = brace_depth 1 v"
      using Some uv by (intro split_open_depth) simp
    with None split_alts_None [of 0] have "brace_depth 0 p \<noteq> 0" by simp
    with Some uv None show thesis
      by (intro unclosed) (simp_all add: expand_braces_unfold [of p])
  next
    case (Some ar)
    with \<open>split_open p = Some uv\<close> uv show thesis
      by (cases ar) (auto intro!: group simp: expand_braces_unfold [of p])
  qed
qed

lemma expand_braces_total: "expand_braces p \<noteq> None"
proof (induction "length p" arbitrary: p rule: less_induct)
  case less
  show ?case
  proof (cases p rule: expand_braces_cases)
    case (group u v as rest)
    have "\<forall>a \<in> set as. expand_braces (u @ a @ rest) \<noteq> None"
      using less expansion_step(3) [OF group(1,2)] by blast
    then have "None \<notin> set (map (\<lambda>a. expand_braces (u @ a @ rest)) as)"
      by (simp add: in_set_map del: set_map)
    then show ?thesis unfolding group(3) by (rule extend_all_total)
  qed simp_all
qed

lemma expand_braces_Err_iff: "(\<exists>e. expand_braces p = Some (Inl e)) \<longleftrightarrow> brace_depth 0 p \<noteq> 0"
proof (induction "length p" arbitrary: p rule: less_induct)
  case less
  show ?case
  proof (cases p rule: expand_braces_cases)
    case (group u v as rest)
    let ?rs = "map (\<lambda>a. expand_braces (u @ a @ rest)) as"
    have "None \<notin> set ?rs" using expand_braces_total by (simp add: in_set_map del: set_map)
    then have "(\<exists>e. expand_braces p = Some (Inl e)) \<longleftrightarrow> (\<exists>a \<in> set as. \<exists>e. expand_braces (u @ a @ rest) = Some (Inl e))"
      unfolding group(3) extend_all_Err_iff [OF \<open>None \<notin> set ?rs\<close>] by (auto simp: in_set_map simp del: set_map)
    also have "\<dots> \<longleftrightarrow> (\<exists>a \<in> set as. brace_depth 0 p \<noteq> 0)"
      using less expansion_step [OF group(1,2)] by (metis (no_types, lifting))
    also have "\<dots> \<longleftrightarrow> brace_depth 0 p \<noteq> 0"
      using expansion_step(1) [OF group(1,2)] by (cases as) auto
    finally show ?thesis .
  qed auto
qed

lemma expand_braces_Ok_props:
  "expand_braces p = Some (Inr es) \<Longrightarrow> es \<noteq> [] \<and> (\<forall>e \<in> set es. split_open e = None)"
proof (induction "length p" arbitrary: p es rule: less_induct)
  case less
  show ?case
  proof (cases p rule: expand_braces_cases)
    case (group u v as rest)
    with less.prems obtain ess where
      ess: "map (\<lambda>a. expand_braces (u @ a @ rest)) as = map (\<lambda>es. Some (Inr es)) ess" "es = concat ess"
      using extend_all_OkD by metis
    have "ys \<noteq> [] \<and> (\<forall>e \<in> set ys. split_open e = None)" if "ys \<in> set ess" for ys
    proof -
      from that have "Some (Inr ys) \<in> set (map (\<lambda>a. expand_braces (u @ a @ rest)) as)"
        unfolding ess(1) by simp
      then obtain a where "a \<in> set as" "expand_braces (u @ a @ rest) = Some (Inr ys)" by auto
      with less.hyps expansion_step(3) [OF group(1,2)] show ?thesis by blast
    qed
    moreover have "ess \<noteq> []"
      using ess(1) expansion_step(1) [OF group(1,2)] by (metis map_is_Nil_conv)
    ultimately show ?thesis
      unfolding ess(2) by (metis UN_E concat_eq_Nil_conv list.set_intros(1) neq_Nil_conv set_concat)
  qed (use less.prems in auto)
qed

lemma expand_braces_Inl: "expand_braces p = Some (Inl e) \<Longrightarrow> \<exists>msg. e = InvalidPath msg"
proof (induction "length p" arbitrary: p rule: less_induct)
  case less
  show ?case
  proof (cases p rule: expand_braces_cases)
    case (group u v as rest)
    let ?rs = "map (\<lambda>a. expand_braces (u @ a @ rest)) as"
    have "Some (Inl e) \<in> set ?rs"
      using less.prems unfolding group(3) by (rule extend_all_InlD)
    then obtain a where "a \<in> set as" "expand_braces (u @ a @ rest) = Some (Inl e)"
      unfolding in_set_map by blast
    with less.hyps expansion_step(3) [OF group(1,2)] show ?thesis by blast
  qed (use less.prems in auto)
qed

section \<open>What expansion computes\<close>

text \<open>
  A brace expression: literal tokens (a character, or an escaped one) and groups of
  alternatives, each alternative a sequence again. \<open>render\<close> is its text, \<open>alternatives\<close>
  the strings it stands for, leftmost choice first.
\<close>

datatype bexp = BTok rstring | BGroup "bexp list list"

fun join_commas :: "rstring list \<Rightarrow> rstring" where
  "join_commas [] = []"
| "join_commas [x] = x"
| "join_commas (x # y # ys) = x @ ch_comma # join_commas (y # ys)"

fun render :: "bexp \<Rightarrow> rstring" where
  "render (BTok t) = t"
| "render (BGroup alts) = ch_lbrace # join_commas (map (\<lambda>xs. concat (map render xs)) alts) @ [ch_rbrace]"

abbreviation "render_seq xs \<equiv> concat (map render xs)"

definition seq_product :: "rstring list list \<Rightarrow> rstring list" where
  "seq_product xss = foldr (\<lambda>us vs. concat (map (\<lambda>u. map ((@) u) vs) us)) xss [[]]"

fun alternatives :: "bexp \<Rightarrow> rstring list" where
  "alternatives (BTok t) = [t]"
| "alternatives (BGroup alts) = concat (map (\<lambda>xs. seq_product (map alternatives xs)) alts)"

abbreviation "alternatives_seq xs \<equiv> seq_product (map alternatives xs)"

text \<open>
  Well-formed expressions: a token is an escaped character or a character that is not a
  brace-syntax character where it stands (\<open>nested\<close> is whether it stands inside a group).
\<close>

definition wf_tok :: "bool \<Rightarrow> rstring \<Rightarrow> bool" where
  "wf_tok nested t \<longleftrightarrow>
     (\<exists>c. t = [ch_bslash, c]) \<or>
     (\<exists>c. t = [c] \<and> c \<notin> {ch_bslash, ch_lbrace} \<and> (nested \<longrightarrow> c \<notin> {ch_comma, ch_rbrace}))"

fun wf_bexp :: "bool \<Rightarrow> bexp \<Rightarrow> bool" where
  "wf_bexp nested (BTok t) = wf_tok nested t"
| "wf_bexp nested (BGroup alts) = (alts \<noteq> [] \<and> (\<forall>xs \<in> set alts. \<forall>x \<in> set xs. wf_bexp True x))"

lemma wf_bexp_outer: "wf_bexp True x \<Longrightarrow> wf_bexp nested x"
  by (cases x) (auto simp: wf_tok_def)

lemma seq_product_simps [simp]:
  "seq_product [] = [[]]"
  "seq_product (us # xss) = concat (map (\<lambda>u. map ((@) u) (seq_product xss)) us)"
  by (simp_all add: seq_product_def)

lemma concat_map_concat: "concat (map f (concat xss)) = concat (map (\<lambda>xs. concat (map f xs)) xss)"
  by (induction xss) simp_all

lemma concat_concat_map: "concat (concat (map f xs)) = concat (map (\<lambda>x. concat (f x)) xs)"
  by (induction xs) simp_all

lemma append_append_fun: "(@) (u @ v) = (\<lambda>w. u @ v @ w)"
  by auto

lemma map_append_Nil: "map ((@) []) xs = xs"
  by (induction xs) simp_all

lemma seq_product_append:
  "seq_product (xss @ yss) = concat (map (\<lambda>u. map ((@) u) (seq_product yss)) (seq_product xss))"
  by (induction xss) (simp_all add: map_append_Nil concat_map_concat concat_concat_map append_append_fun map_concat comp_def)

lemma alternatives_seq_split:
  "alternatives_seq (pre @ BGroup alts # suf) = concat (map (\<lambda>xs. alternatives_seq (pre @ xs @ suf)) alts)"
  if "\<forall>x \<in> set pre. \<exists>t. x = BTok t"
proof -
  have "\<exists>t. alternatives_seq pre = [t]" using that by (induction pre) auto
  then obtain t where "alternatives_seq pre = [t]" by blast
  then show ?thesis
    by (simp add: seq_product_append concat_map_concat concat_concat_map map_concat comp_def)
qed

text \<open>Reading a well-formed sequence inside a group at depth \<open>Suc d\<close> adds its text to the current alternative.\<close>

lemma split_alts_tok:
  "wf_tok True t \<Longrightarrow> split_alts (Suc d) current alts (t @ w) = split_alts (Suc d) (current @ t) alts w"
  by (auto simp: wf_tok_def split_alts.simps(2))

lemma split_alts_seq:
  assumes "\<And>x d current w. x \<in> set xs \<Longrightarrow>
      split_alts (Suc d) current alts (render x @ w) = split_alts (Suc d) (current @ render x) alts w"
  shows "split_alts (Suc d) current alts (render_seq xs @ w) = split_alts (Suc d) (current @ render_seq xs) alts w"
  using assms by (induction xs arbitrary: current) simp_all

lemma split_alts_commas:
  assumes "\<And>u d current w. u \<in> set us \<Longrightarrow>
      split_alts (Suc d) current alts (u @ w) = split_alts (Suc d) (current @ u) alts w"
  shows "split_alts (Suc (Suc d)) current alts (join_commas us @ w)
    = split_alts (Suc (Suc d)) (current @ join_commas us) alts w"
  using assms
  by (induction us arbitrary: current rule: join_commas.induct) (simp_all add: split_alts.simps(2))

lemma split_alts_render:
  "wf_bexp True x \<Longrightarrow>
   split_alts (Suc d) current alts (render x @ w) = split_alts (Suc d) (current @ render x) alts w"
proof (induction x arbitrary: d current w)
  case (BTok t)
  then show ?case by (simp add: split_alts_tok)
next
  case (BGroup bs)
  have "split_alts (Suc d') cur alts (u @ w') = split_alts (Suc d') (cur @ u) alts w'"
    if "u \<in> set (map (\<lambda>xs. render_seq xs) bs)" for u d' cur w'
    using that BGroup by (auto intro!: split_alts_seq)
  from split_alts_commas [of "map (\<lambda>xs. render_seq xs) bs", OF this] show ?case
    by (simp add: split_alts.simps(2))
qed

text \<open>At depth 1 the rendered alternatives come back.\<close>

lemma split_alts_group:
  assumes "bs \<noteq> []" and "\<forall>xs \<in> set bs. \<forall>x \<in> set xs. wf_bexp True x"
  shows "split_alts 1 current alts (join_commas (map (\<lambda>xs. render_seq xs) bs) @ ch_rbrace # w)
    = Some (alts @ (current @ render_seq (hd bs)) # map (\<lambda>xs. render_seq xs) (tl bs), w)"
  using assms
proof (induction bs arbitrary: current alts)
  case (Cons b bs)
  have *: "split_alts 1 current alts (render_seq b @ w') = split_alts 1 (current @ render_seq b) alts w'" for w'
    using split_alts_seq [of b alts 0] split_alts_render Cons.prems(2) by simp
  show ?case
  proof (cases bs)
    case Nil
    then show ?thesis using * by (simp add: split_alts.simps(2))
  next
    case (Cons b' bs')
    then have "join_commas (map (\<lambda>xs. render_seq xs) (b # bs)) =
        render_seq b @ ch_comma # join_commas (map (\<lambda>xs. render_seq xs) bs)" by simp
    then show ?thesis
      using * Cons.IH [of "[]" "alts @ [current @ render_seq b]"] Cons.prems(2) Cons
      by (simp add: split_alts.simps(2))
  qed
qed simp

lemma split_open_toks:
  assumes "\<forall>x \<in> set pre. \<exists>t. x = BTok t \<and> wf_tok False t"
  shows "split_open (render_seq pre @ w) = map_option (apfst ((@) (render_seq pre))) (split_open w)"
  using assms
proof (induction pre)
  case Nil
  then show ?case by (simp add: map_apfst_ident)
next
  case (Cons x pre)
  then show ?case
    by (auto simp: wf_tok_def split_open.simps(2) option.map_comp comp_def prod.map_comp apfst_def id_def)
qed

lemma alternatives_toks:
  "\<forall>x \<in> set pre. \<exists>t. x = BTok t \<and> wf_tok False t \<Longrightarrow> alternatives_seq pre = [render_seq pre]"
  by (induction pre) auto

lemma first_group:
  assumes "\<forall>x \<in> set xs. wf_bexp False x"
  obtains (toks) "\<forall>x \<in> set xs. \<exists>t. x = BTok t \<and> wf_tok False t"
  | (group) pre bs suf where "xs = pre @ BGroup bs # suf"
      "\<forall>x \<in> set pre. \<exists>t. x = BTok t \<and> wf_tok False t"
proof -
  have tok: "\<exists>t. x = BTok t \<and> wf_tok False t" if "wf_bexp False x" "\<nexists>bs. x = BGroup bs" for x
    using that by (cases x) auto
  show thesis
  proof (cases "\<exists>x \<in> set xs. \<exists>bs. x = BGroup bs")
    case True
    then obtain pre x suf where "xs = pre @ x # suf" "\<exists>bs. x = BGroup bs"
      "\<forall>y \<in> set pre. \<not> (\<exists>bs. y = BGroup bs)"
      using split_list_first_prop [of xs "\<lambda>x. \<exists>bs. x = BGroup bs"] by blast
    then show thesis using assms tok by (auto intro!: group)
  next
    case False
    with assms tok show thesis by (intro toks) blast
  qed
qed

lemma expand_braces_render:
  "\<forall>x \<in> set xs. wf_bexp False x \<Longrightarrow> expand_braces (render_seq xs) = Some (Inr (alternatives_seq xs))"
proof (induction "length (render_seq xs)" arbitrary: xs rule: less_induct)
  case less
  from less.prems show ?case
  proof (cases rule: first_group)
    case toks
    then have "split_open (render_seq xs) = None"
      using split_open_toks [of xs "[]"] by simp
    with toks show ?thesis by (simp add: expand_braces_unfold alternatives_toks)
  next
    case (group pre bs suf)
    then have bs: "bs \<noteq> []" "\<forall>b \<in> set bs. \<forall>x \<in> set b. wf_bexp True x"
      and wf: "\<forall>x \<in> set pre. wf_bexp False x" "\<forall>x \<in> set suf. wf_bexp False x"
      using less.prems by auto
    have 1: "split_open (render_seq xs) =
        Some (render_seq pre, join_commas (map (\<lambda>b. render_seq b) bs) @ ch_rbrace # render_seq suf)"
      using split_open_toks [OF group(2)] by (simp add: group(1) split_open.simps(2))
    have 2: "split_alts 1 [] [] (join_commas (map (\<lambda>b. render_seq b) bs) @ ch_rbrace # render_seq suf)
        = Some (map (\<lambda>b. render_seq b) bs, render_seq suf)"
      using split_alts_group [OF bs, of "[]" "[]"] bs(1) by (cases bs) auto
    have "expand_braces (render_seq (pre @ b @ suf)) = Some (Inr (alternatives_seq (pre @ b @ suf)))"
      if "b \<in> set bs" for b
      using that bs wf expansion_step(3) [OF 1 2, of "render_seq b"] wf_bexp_outer
      by (intro less.hyps) auto
    then have "expand_braces (render_seq pre @ render_seq b @ render_seq suf) =
        Some (Inr (alternatives_seq (pre @ b @ suf)))" if "b \<in> set bs" for b
      using that by simp
    then have "extend_all (map (\<lambda>b. expand_braces (render_seq pre @ render_seq b @ render_seq suf)) bs) =
        Some (Inr (concat (map (\<lambda>b. alternatives_seq (pre @ b @ suf)) bs)))"
      by (rule extend_all_Ok)
    also have "concat (map (\<lambda>b. alternatives_seq (pre @ b @ suf)) bs) = alternatives_seq xs"
      unfolding group(1) by (rule alternatives_seq_split [symmetric]) (use group(2) in auto)
    finally show ?thesis
      using 1 2 by (simp add: expand_braces_unfold [of "render_seq xs"] comp_def)
  qed
qed

section \<open>Properties\<close>

text \<open>
  C10. On the text of a brace expression, of any nesting and with escaped characters,
  expansion returns exactly the alternatives the expression stands for, leftmost choice
  first and with their multiplicities.
\<close>

theorem expand_braces_denotation:
  assumes "\<forall>x \<in> set xs. wf_bexp False x"
  shows "expand_braces (concat (map render xs)) = Some (Inr (seq_product (map alternatives xs)))"
  using assms by (rule expand_braces_render)

theorem expand_braces_denotation_witness:
  "expand_braces (lit ''a{b,{c,d}e}'') = Some (Inr [lit ''ab'', lit ''ace'', lit ''ade''])"
  using expand_braces_denotation
    [of "[BTok (lit ''a''), BGroup [[BTok (lit ''b'')],
          [BGroup [[BTok (lit ''c'')], [BTok (lit ''d'')]], BTok (lit ''e'')]]]"]
  by (simp add: wf_tok_def)

text \<open>
  Expansion never panics and always ends. It is an error, an invalid-path error, exactly when
  some group of the pattern is left open; otherwise there is at least one result and no result
  has a group left.
\<close>

theorem expand_braces_outcome:
  "if brace_depth 0 p = 0
   then \<exists>es. expand_braces p = Some (Inr es) \<and> es \<noteq> [] \<and> list_all (\<lambda>e. split_open e = None) es
   else \<exists>msg. expand_braces p = Some (Inl (InvalidPath msg))"
proof (cases "brace_depth 0 p = 0")
  case True
  then obtain es where "expand_braces p = Some (Inr es)"
    using expand_braces_total [of p] expand_braces_Err_iff [of p] by (metis not_None_eq old.sum.exhaust)
  with True expand_braces_Ok_props [OF this] show ?thesis by (simp add: list_all_iff)
next
  case False
  then show ?thesis using expand_braces_Err_iff [of p] expand_braces_Inl by auto
qed

end
