(* ===== verification/Glob_Match.thy ===== *)
theory Glob_Match
  imports Prelude
begin

text \<open>
  Matching one path component against a pattern (\<^verbatim>\<open>hdfs-bridge/src/glob.rs\<close>:
  \<^verbatim>\<open>match_class\<close>, \<^verbatim>\<open>match_chars\<close>, \<^verbatim>\<open>match_component\<close>, \<^verbatim>\<open>is_hidden\<close>,
  \<^verbatim>\<open>explicit_hidden_prefix\<close>). The model keeps the indices \<^verbatim>\<open>si\<close>, \<^verbatim>\<open>pi\<close> of the code
  and its index operations can panic. The specification is independent of the algorithm:
  a pattern is read as a list of tokens, and tokens have a language. The main result is
  that the matcher never panics, ends, and decides that language.
\<close>

section \<open>The code\<close>

text \<open>
  The loop of \<^verbatim>\<open>match_class\<close>: \<open>Some None\<close> for an unclosed class, otherwise whether the
  character was found and the index after the closing bracket.
\<close>

function class_loop ::
  "rchar \<Rightarrow> rstring \<Rightarrow> nat \<Rightarrow> nat \<Rightarrow> bool \<Rightarrow> (bool \<times> nat) option option" where
  "class_loop c p start pi found =
     (if length p \<le> pi then Some None
      else do {
        x \<leftarrow> idx p pi;
        if x = ch_rbrack \<and> start < pi then Some (Some (found, pi + 1))
        else if pi + 2 < length p then do {
          d \<leftarrow> idx p (pi + 1);
          e \<leftarrow> idx p (pi + 2);
          if d = ch_minus \<and> e \<noteq> ch_rbrack
          then class_loop c p start (pi + 3) (found \<or> x \<le> c \<and> c \<le> e)
          else class_loop c p start (pi + 1) (found \<or> x = c)
        }
        else class_loop c p start (pi + 1) (found \<or> x = c)
      })"
  by pat_completeness auto
termination
  by (relation "measure (\<lambda>(c, p, start, pi, found). length p - pi)") auto

declare class_loop.simps [simp del]

definition match_class :: "rchar \<Rightarrow> rstring \<Rightarrow> nat \<Rightarrow> nat option option" where
  "match_class c p pi =
     do {
       (invert, pi) \<leftarrow>
         (if pi < length p then do {
            x \<leftarrow> idx p pi;
            Some (if x = ch_bang then (True, pi + 1) else (False, pi))
          } else Some (False, pi));
       r \<leftarrow> class_loop c p pi pi False;
       Some (case r of
           None \<Rightarrow> None
         | Some (found, after) \<Rightarrow> if found \<noteq> invert then Some after else None)
     }"

text \<open>\<^verbatim>\<open>while pi < p.len() && p[pi] == '*' { pi += 1 }\<close>\<close>

function skip_stars :: "rstring \<Rightarrow> nat \<Rightarrow> nat option" where
  "skip_stars p pi =
     (if pi < length p then do {
        x \<leftarrow> idx p pi;
        if x = ch_star then skip_stars p (pi + 1) else Some pi
      } else Some pi)"
  by pat_completeness auto
termination
  by (relation "measure (\<lambda>(p, pi). length p - pi)") auto

declare skip_stars.simps [simp del]

lemma skip_stars_eq:
  "pi \<le> length p \<Longrightarrow> skip_stars p pi = Some (pi + length (takeWhile (\<lambda>x. x = ch_star) (drop pi p)))"
proof (induction p pi rule: skip_stars.induct)
  case (1 p pi)
  show ?case
    by (subst skip_stars.simps) (use 1 in \<open>auto simp: drop_step\<close>)
qed

lemma skip_stars_advances:
  assumes "pi < length p" and "p ! pi = ch_star" and "skip_stars p pi = Some pi'"
  shows "length p - pi' < length p"
  using assms by (auto simp: skip_stars_eq drop_step)

text \<open>
  The loop of \<^verbatim>\<open>match_chars\<close> at indices \<open>si\<close>, \<open>pi\<close>, and the search
  \<^verbatim>\<open>(si..s.len()).any(|start| match_chars(&s[start..], &p[pi..]))\<close> after a star. The
  lexicographic termination order is: the pattern slice gets shorter at every star, and
  between stars the name index advances.
\<close>

function match_loop :: "rstring \<Rightarrow> rstring \<Rightarrow> nat \<Rightarrow> nat \<Rightarrow> bool option"
  and any_suffix :: "rstring \<Rightarrow> rstring \<Rightarrow> nat \<Rightarrow> bool option" where
  "match_loop s p si pi =
     (if si < length s \<and> pi < length p then do {
        c \<leftarrow> idx p pi;
        if c = ch_star then do {
          pi' \<leftarrow> skip_stars p pi;
          if pi' = length p then Some True
          else any_suffix s (drop pi' p) si
        }
        else if c = ch_quest then match_loop s p (si + 1) (pi + 1)
        else if c = ch_lbrack then do {
          x \<leftarrow> idx s si;
          r \<leftarrow> match_class x p (pi + 1);
          case r of
            Some after \<Rightarrow> match_loop s p (si + 1) after
          | None \<Rightarrow> Some False
        }
        else if c = ch_bslash then
          (if pi + 1 = length p then Some False
           else do {
             x \<leftarrow> idx s si;
             y \<leftarrow> idx p (pi + 1);
             if x \<noteq> y then Some False else match_loop s p (si + 1) (pi + 2)
           })
        else do {
          x \<leftarrow> idx s si;
          if x \<noteq> c then Some False else match_loop s p (si + 1) (pi + 1)
        }
      }
      else do {
        pi' \<leftarrow> skip_stars p pi;
        Some (si = length s \<and> pi' = length p)
      })"
| "any_suffix s q start =
     (if start < length s then do {
        b \<leftarrow> match_loop (drop start s) q 0 0;
        if b then Some True else any_suffix s q (start + 1)
      } else Some False)"
  by pat_completeness auto
termination
  by (relation "measures
        [\<lambda>x. case x of Inl (s, p, si, pi) \<Rightarrow> length p | Inr (s, q, start) \<Rightarrow> length q,
         \<lambda>x. case x of Inl _ \<Rightarrow> 0 | Inr _ \<Rightarrow> 1,
         \<lambda>x. case x of Inl (s, p, si, pi) \<Rightarrow> length s - si | Inr (s, q, start) \<Rightarrow> length s - start]")
    (auto simp: idx_eq_Some intro: skip_stars_advances)

declare match_loop.simps [simp del] any_suffix.simps [simp del]

definition match_chars :: "rstring \<Rightarrow> rstring \<Rightarrow> bool option" where
  "match_chars s p = match_loop s p 0 0"

definition match_component :: "rstring \<Rightarrow> rstring \<Rightarrow> bool option" where
  "match_component name pattern = match_chars name pattern"

text \<open>Hidden names and patterns that name the hidden character.\<close>

definition is_hidden :: "rstring \<Rightarrow> bool" where
  "is_hidden name = (case name of [] \<Rightarrow> False | c # _ \<Rightarrow> c = ch_dot \<or> c = ch_under)"

definition explicit_hidden_prefix :: "rstring \<Rightarrow> bool" where
  "explicit_hidden_prefix pattern =
     (case pattern of
        [] \<Rightarrow> False
      | c # rest \<Rightarrow>
          if c = ch_bslash
          then (case rest of [] \<Rightarrow> False | d # _ \<Rightarrow> d = ch_dot \<or> d = ch_under)
          else c = ch_dot \<or> c = ch_under)"

section \<open>The specification: tokens and their language\<close>

text \<open>
  The contents of a character class: single characters and inclusive ranges, up to the
  closing bracket; a bracket in first position is a member. \<open>None\<close> when unclosed.
\<close>

fun class_items :: "bool \<Rightarrow> rstring \<Rightarrow> ((rchar \<times> rchar) list \<times> rstring) option" where
  "class_items first [] = None"
| "class_items first (a # rest) =
     (if a = ch_rbrack \<and> \<not> first then Some ([], rest)
      else case rest of
        d # e # rest' \<Rightarrow>
          if d = ch_minus \<and> e \<noteq> ch_rbrack
          then map_option (apfst (Cons (a, e))) (class_items False rest')
          else map_option (apfst (Cons (a, a))) (class_items False rest)
      | _ \<Rightarrow> map_option (apfst (Cons (a, a))) (class_items False rest))"

definition in_items :: "rchar \<Rightarrow> (rchar \<times> rchar) list \<Rightarrow> bool" where
  "in_items c items = list_ex (\<lambda>(lo, hi). lo \<le> c \<and> c \<le> hi) items"

datatype gtok = TStar | TAny | TClass bool "(rchar \<times> rchar) list" | TChar rchar

declare class_items.simps(2) [simp del]

text \<open>One item of a class and the input after it.\<close>

definition class_head :: "rchar \<Rightarrow> rstring \<Rightarrow> rchar \<times> rstring" where
  "class_head a q =
     (case q of d # e # q' \<Rightarrow> if d = ch_minus \<and> e \<noteq> ch_rbrack then (e, q') else (a, q) | _ \<Rightarrow> (a, q))"

lemma class_items_Cons:
  "class_items first (a # q) =
     (if a = ch_rbrack \<and> \<not> first then Some ([], q)
      else map_option (apfst (Cons (a, fst (class_head a q)))) (class_items False (snd (class_head a q))))"
  by (simp add: class_items.simps(2) class_head_def split: list.split)

lemma suffix_class_head: "suffix (snd (class_head a q)) q"
  by (auto simp: class_head_def suffix_ConsI split: list.split)

lemma class_items_suffix:
  "class_items first q = Some (items, rest) \<Longrightarrow> suffix rest q \<and> length rest < length q"
proof (induction "length q" arbitrary: first q items rule: less_induct)
  case less
  then obtain a q0 where q: "q = a # q0" by (cases q) auto
  show ?case
  proof (cases "a = ch_rbrack \<and> \<not> first")
    case True
    with less.prems q show ?thesis by (simp add: class_items_Cons suffix_ConsI)
  next
    case False
    let ?q = "snd (class_head a q0)"
    from False less.prems q obtain items' where "class_items False ?q = Some (items', rest)"
      by (auto simp: class_items_Cons)
    moreover have "length ?q < length q"
      using suffix_length_le [OF suffix_class_head, of a q0] q by simp
    ultimately have *: "suffix rest ?q" "length rest < length ?q"
      using less.hyps by blast+
    then have "suffix rest q0"
      using suffix_class_head suffix_order.trans by blast
    with * \<open>length ?q < length q\<close> q show ?thesis by (simp add: suffix_ConsI)
  qed
qed

function tokens :: "rstring \<Rightarrow> gtok list option" where
  "tokens [] = Some []"
| "tokens (c # p) =
     (if c = ch_star then map_option (Cons TStar) (tokens p)
      else if c = ch_quest then map_option (Cons TAny) (tokens p)
      else if c = ch_lbrack then
        (let neg = (p \<noteq> [] \<and> hd p = ch_bang)
         in case class_items True (if neg then tl p else p) of
              None \<Rightarrow> None
            | Some (items, rest) \<Rightarrow> map_option (Cons (TClass neg items)) (tokens rest))
      else if c = ch_bslash then
        (case p of [] \<Rightarrow> None | d # rest \<Rightarrow> map_option (Cons (TChar d)) (tokens rest))
      else map_option (Cons (TChar c)) (tokens p))"
  by pat_completeness auto
termination
  by (relation "measure length") (auto dest!: class_items_suffix split: if_splits)

text \<open>What a token list matches.\<close>

inductive glob_lang :: "gtok list \<Rightarrow> rstring \<Rightarrow> bool" where
  lang_Nil: "glob_lang [] []"
| lang_Star: "glob_lang ts v \<Longrightarrow> glob_lang (TStar # ts) (u @ v)"
| lang_Any: "glob_lang ts s \<Longrightarrow> glob_lang (TAny # ts) (c # s)"
| lang_Class: "in_items c items \<noteq> neg \<Longrightarrow> glob_lang ts s \<Longrightarrow> glob_lang (TClass neg items # ts) (c # s)"
| lang_Char: "glob_lang ts s \<Longrightarrow> glob_lang (TChar c # ts) (c # s)"

inductive_simps glob_lang_simps [simp]:
  "glob_lang [] s"
  "glob_lang (TAny # ts) s"
  "glob_lang (TClass neg items # ts) s"
  "glob_lang (TChar c # ts) s"

inductive_simps glob_lang_Star: "glob_lang (TStar # ts) s"

text \<open>A pattern matches a name: it is well-formed and the name is in its language.\<close>

definition pattern_matches :: "rstring \<Rightarrow> rstring \<Rightarrow> bool" where
  "pattern_matches p s = (case tokens p of None \<Rightarrow> False | Some ts \<Rightarrow> glob_lang ts s)"

section \<open>Unfolding the specification along the pattern\<close>

lemma pattern_matches_Nil: "pattern_matches [] s \<longleftrightarrow> s = []"
  by (simp add: pattern_matches_def)

lemma pattern_matches_star:
  "pattern_matches (ch_star # p) s \<longleftrightarrow> (\<exists>k \<le> length s. pattern_matches p (drop k s))"
proof -
  have "glob_lang (TStar # ts) s \<longleftrightarrow> (\<exists>k \<le> length s. glob_lang ts (drop k s))" for ts
    unfolding glob_lang_Star by (metis append_eq_conv_conj append_take_drop_id length_append le_add1)
  then show ?thesis
    by (auto simp: pattern_matches_def split: option.splits)
qed

lemma pattern_matches_quest:
  "pattern_matches (ch_quest # p) (x # s) \<longleftrightarrow> pattern_matches p s"
  by (auto simp: pattern_matches_def split: option.splits)

lemma pattern_matches_bslash:
  "pattern_matches (ch_bslash # p) (x # s) \<longleftrightarrow> p \<noteq> [] \<and> x = hd p \<and> pattern_matches (tl p) s"
  by (auto simp: pattern_matches_def split: option.splits list.splits)

lemma pattern_matches_class:
  "pattern_matches (ch_lbrack # p) (x # s) \<longleftrightarrow>
     (let neg = (p \<noteq> [] \<and> hd p = ch_bang)
      in case class_items True (if neg then tl p else p) of
           None \<Rightarrow> False
         | Some (items, rest) \<Rightarrow> in_items x items \<noteq> neg \<and> pattern_matches rest s)"
  by (auto simp: pattern_matches_def Let_def split: option.splits if_splits)

lemma pattern_matches_char:
  "c \<notin> {ch_star, ch_quest, ch_lbrack, ch_bslash} \<Longrightarrow>
   pattern_matches (c # p) (x # s) \<longleftrightarrow> x = c \<and> pattern_matches p s"
  by (auto simp: pattern_matches_def split: option.splits)

lemma glob_lang_empty: "glob_lang ts [] \<longleftrightarrow> set ts \<subseteq> {TStar}"
proof (induction ts)
  case (Cons t ts)
  then show ?case by (cases t) (auto simp: glob_lang_Star)
qed simp

lemma tokens_hd:
  "tokens (c # p) = Some ts \<Longrightarrow> c \<noteq> ch_star \<Longrightarrow> \<exists>t ts'. ts = t # ts' \<and> t \<noteq> TStar"
  by (auto simp: Let_def split: if_splits option.splits list.splits)

lemma tokens_all_star: "tokens p = Some ts \<Longrightarrow> set ts \<subseteq> {TStar} \<longleftrightarrow> set p \<subseteq> {ch_star}"
proof (induction p arbitrary: ts)
  case (Cons c p)
  show ?case
  proof (cases "c = ch_star")
    case True
    with Cons show ?thesis by auto
  next
    case False
    with tokens_hd [OF Cons.prems] show ?thesis by auto
  qed
qed simp

lemma tokens_stars: "set p \<subseteq> {ch_star} \<Longrightarrow> tokens p \<noteq> None"
  by (induction p) auto

lemma pattern_matches_empty_name: "pattern_matches p [] \<longleftrightarrow> set p \<subseteq> {ch_star}"
  using tokens_all_star [of p] tokens_stars [of p]
  by (cases "tokens p") (auto simp: pattern_matches_def glob_lang_empty)

lemma pattern_matches_stars:
  "set q \<subseteq> {ch_star} \<Longrightarrow> q \<noteq> [] \<Longrightarrow>
   pattern_matches (q @ p) s \<longleftrightarrow> (\<exists>k \<le> length s. pattern_matches p (drop k s))"
proof (induction q arbitrary: s)
  case (Cons a q)
  then have a: "a = ch_star" by simp
  show ?case
  proof (cases "q = []")
    case True
    with a show ?thesis by (simp add: pattern_matches_star)
  next
    case False
    with Cons have IH: "\<And>s. pattern_matches (q @ p) s \<longleftrightarrow> (\<exists>k \<le> length s. pattern_matches p (drop k s))"
      by simp
    have "(\<exists>k \<le> length s. \<exists>j \<le> length s - k. pattern_matches p (drop (j + k) s)) \<longleftrightarrow>
          (\<exists>k \<le> length s. pattern_matches p (drop k s))"
      (is "?L \<longleftrightarrow> ?R")
    proof
      assume ?L
      then show ?R by (metis add.commute le_add_diff_inverse nat_add_left_cancel_le)
    next
      assume ?R
      then show ?L by (metis add_0 zero_le)
    qed
    then show ?thesis by (simp add: a pattern_matches_star IH drop_drop)
  qed
qed simp

section \<open>The matcher decides the language\<close>

lemma class_head_short: "length q \<le> 1 \<Longrightarrow> class_head x q = (x, q)"
  by (cases q rule: remdups_adj.cases) (simp_all add: class_head_def)

lemma class_head_drop:
  "class_head x (drop (Suc pi) p) =
     (if pi + 2 < length p \<and> p ! (pi + 1) = ch_minus \<and> p ! (pi + 2) \<noteq> ch_rbrack
      then (p ! (pi + 2), drop (pi + 3) p) else (x, drop (Suc pi) p))"
proof (cases "pi + 2 < length p")
  case True
  then have "drop (Suc pi) p = p ! (pi + 1) # p ! (pi + 2) # drop (pi + 3) p"
    by (simp add: drop_step [of "Suc pi"] drop_step [of "Suc (Suc pi)"] numeral_3_eq_3)
  with True show ?thesis by (simp add: class_head_def)
next
  case False
  then have "class_head x (drop (Suc pi) p) = (x, drop (Suc pi) p)"
    by (intro class_head_short) simp
  with False show ?thesis by auto
qed

lemma in_items_simps [simp]:
  "in_items c [] = False"
  "in_items c ((lo, hi) # items) \<longleftrightarrow> lo \<le> c \<and> c \<le> hi \<or> in_items c items"
  by (simp_all add: in_items_def)

lemma class_loop_spec:
  "start \<le> pi \<Longrightarrow> pi \<le> length p \<Longrightarrow>
   class_loop c p start pi found =
     Some (map_option (\<lambda>(items, rest). (found \<or> in_items c items, length p - length rest))
            (class_items (pi = start) (drop pi p)))"
proof (induction c p start pi found rule: class_loop.induct)
  case (1 c p start pi found)
  show ?case
  proof (cases "length p \<le> pi")
    case True
    then show ?thesis by (simp add: class_loop.simps [of c p start pi])
  next
    case False
    then have pi: "pi < length p" and i: "idx p pi = Some (p ! pi)" by simp_all
    have items: "drop pi p = p ! pi # drop (Suc pi) p"
      using pi by (rule drop_step)
    note eqs = class_loop.simps [of c p start pi] items class_items_Cons class_head_drop option.map_comp comp_def
    show ?thesis
    proof (cases "p ! pi = ch_rbrack \<and> start < pi")
      case True
      with pi show ?thesis by (auto simp: eqs)
    next
      case not_end: False
      show ?thesis
      proof (cases "pi + 2 < length p \<and> p ! (pi + 1) = ch_minus \<and> p ! (pi + 2) \<noteq> ch_rbrack")
        case True
        then show ?thesis
          using "1.IH"(1) [OF False i not_end] "1.prems" not_end pi
          by (auto simp: eqs split_beta' disj_assoc numeral_3_eq_3)
      next
        case single: False
        let ?IH = "class_loop c p start (pi + 1) (found \<or> p ! pi = c) =
           Some (map_option (\<lambda>(items, rest). (found \<or> p ! pi = c \<or> in_items c items, length p - length rest))
             (class_items (pi + 1 = start) (drop (pi + 1) p)))"
        have ?IH
        proof (cases "pi + 2 < length p")
          case True
          with single show ?thesis
            using "1.IH"(2) [OF False i not_end True] "1.prems" pi by (simp add: disj_assoc)
        next
          case False': False
          then show ?thesis
            using "1.IH"(3) [OF False i not_end False'] "1.prems" pi by (simp add: disj_assoc)
        qed
        then show ?thesis
          using single not_end pi "1.prems"
          by (auto simp: eqs split_beta' eq_iff [of "p ! pi" c])
      qed
    qed
  qed
qed

lemma match_class_spec:
  assumes "pi \<le> length p"
  shows "match_class c p pi =
    (let q = drop pi p; neg = (q \<noteq> [] \<and> hd q = ch_bang)
     in Some (case class_items True (if neg then tl q else q) of
         None \<Rightarrow> None
       | Some (items, rest) \<Rightarrow> if in_items c items \<noteq> neg then Some (length p - length rest) else None))"
proof (cases "pi < length p")
  case True
  then show ?thesis
    by (auto simp: match_class_def class_loop_spec drop_step Let_def split: option.split)
next
  case False
  with assms show ?thesis by (simp add: match_class_def class_loop_spec Let_def)
qed

text \<open>After the run of stars, an empty rest of the name cannot match a non-empty pattern.\<close>

lemma match_after_stars:
  assumes "si \<le> length s" and "q \<noteq> []" and "hd q \<noteq> ch_star"
  shows "(\<exists>k. si \<le> k \<and> k < length s \<and> pattern_matches q (drop k s)) \<longleftrightarrow>
    (\<exists>k \<le> length (drop si s). pattern_matches q (drop k (drop si s)))"
    (is "?L \<longleftrightarrow> ?R")
proof
  assume ?L
  then obtain k where "si \<le> k" "k < length s" "pattern_matches q (drop k s)" by blast
  then show ?R by (intro exI [of _ "k - si"]) simp
next
  assume ?R
  then obtain k where k: "k \<le> length s - si" "pattern_matches q (drop (k + si) s)" by auto
  have "k + si < length s"
  proof (rule ccontr)
    assume "\<not> k + si < length s"
    with k(2) have "set q \<subseteq> {ch_star}" by (simp add: pattern_matches_empty_name)
    with assms(2,3) show False by (cases q) auto
  qed
  with k show ?L by (intro exI [of _ "k + si"]) simp
qed

lemma pattern_matches_star_run:
  assumes "pi < length p" and "p ! pi = ch_star"
    and "skip_stars p pi = Some pi'" and "si \<le> length s"
  shows "pattern_matches (drop pi p) (drop si s) \<longleftrightarrow>
    pi' = length p \<or> (\<exists>k. si \<le> k \<and> k < length s \<and> pattern_matches (drop pi' p) (drop k s))"
proof -
  let ?star = "\<lambda>x. x = ch_star"
  define q where "q = dropWhile ?star (drop pi p)"
  have pi': "pi' = pi + length (takeWhile ?star (drop pi p))"
    using assms(1,3) by (simp add: skip_stars_eq)
  then have drop': "drop pi' p = q"
    by (metis q_def dropWhile_eq_drop drop_drop add.commute)
  have stars: "set (takeWhile ?star (drop pi p)) \<subseteq> {ch_star}" "takeWhile ?star (drop pi p) \<noteq> []"
    using assms(1,2) by (auto simp: drop_step dest: set_takeWhileD)
  then have split: "pattern_matches (drop pi p) (drop si s) \<longleftrightarrow>
      (\<exists>k \<le> length (drop si s). pattern_matches q (drop k (drop si s)))"
    using pattern_matches_stars [OF stars, of q] by (simp add: q_def)
  show ?thesis
  proof (cases "q = []")
    case True
    then have "length p \<le> pi'" using drop' by simp
    moreover have "pi' \<le> length p"
      using pi' assms(1) length_takeWhile_le [of ?star "drop pi p"] by simp
    moreover have "pattern_matches (drop pi p) (drop si s)"
      unfolding split by (rule exI [of _ "length s - si"]) (simp add: True pattern_matches_Nil)
    ultimately show ?thesis by simp
  next
    case False
    moreover have "hd q \<noteq> ch_star" using False hd_dropWhile [of ?star "drop pi p"] by (simp add: q_def)
    moreover have "pi' \<noteq> length p" using drop' False by auto
    ultimately show ?thesis
      using split match_after_stars [OF assms(4), of q] drop' by simp
  qed
qed

lemma pattern_matches_class_at:
  assumes "pi < length p" and "p ! pi = ch_lbrack" and "si < length s"
  shows "pattern_matches (drop pi p) (drop si s) \<longleftrightarrow>
    (\<exists>after. match_class (s ! si) p (pi + 1) = Some (Some after) \<and> after \<le> length p \<and>
       pattern_matches (drop after p) (drop (si + 1) s))"
proof -
  let ?q = "drop (Suc pi) p"
  let ?neg = "?q \<noteq> [] \<and> hd ?q = ch_bang"
  have rest: "drop (length p - length rest) p = rest"
    if "class_items True (if ?neg then tl ?q else ?q) = Some (items, rest)" for items rest
  proof -
    have "suffix (if ?neg then tl ?q else ?q) p"
      using suffix_drop [of "Suc pi" p] suffix_order.trans [OF suffix_tl] by auto
    then have "suffix rest p"
      using class_items_suffix [OF that] suffix_order.trans by blast
    then show ?thesis by (auto simp: suffix_def)
  qed
  show ?thesis
    using assms
    by (auto simp: drop_step pattern_matches_class match_class_spec Let_def rest
          split: option.splits if_splits)
qed

theorem match_loop_spec:
  "si \<le> length s \<Longrightarrow> pi \<le> length p \<Longrightarrow>
     match_loop s p si pi = Some (pattern_matches (drop pi p) (drop si s))"
  "start \<le> length s \<Longrightarrow>
     any_suffix s q start = Some (\<exists>k. start \<le> k \<and> k < length s \<and> pattern_matches q (drop k s))"
proof (induction s p si pi and s q start rule: match_loop_any_suffix.induct)
  case (1 s p si pi)
  note eq = match_loop.simps [of s p si pi]
  show ?case
  proof (cases "si < length s \<and> pi < length p")
    case True
    then have ds: "drop si s = s ! si # drop (Suc si) s" and dp: "drop pi p = p ! pi # drop (Suc pi) p"
      by (simp_all add: drop_step)
    have i: "idx p pi = Some (p ! pi)" "idx s si = Some (s ! si)" using True by simp_all
    consider (star) "p ! pi = ch_star" | (quest) "p ! pi = ch_quest" | (cls) "p ! pi = ch_lbrack"
      | (esc) "p ! pi = ch_bslash" | (char) "p ! pi \<notin> {ch_star, ch_quest, ch_lbrack, ch_bslash}"
      by auto
    then show ?thesis
    proof cases
      case star
      obtain pi' where pi': "skip_stars p pi = Some pi'"
        using True by (simp add: skip_stars_eq)
      show ?thesis
        using "1.IH"(1) [OF True i(1) star pi'] star True i pi'
          pattern_matches_star_run [OF _ star pi', of si s]
        by (auto simp: eq)
    next
      case quest
      with True i "1.IH"(2) [OF True i(1)] show ?thesis
        by (simp add: eq ds dp pattern_matches_quest)
    next
      case cls
      obtain r where r: "match_class (s ! si) p (pi + 1) = Some r"
        using True by (simp add: match_class_spec Let_def)
      show ?thesis
      proof (cases r)
        case None
        with cls True i r pattern_matches_class_at [of pi p si s] show ?thesis by (simp add: eq)
      next
        case (Some after)
        with r have "after \<le> length p"
          using True by (auto simp: match_class_spec Let_def split: option.splits if_splits)
        with Some cls True i r pattern_matches_class_at [of pi p si s]
          "1.IH"(3) [OF True i(1) _ _ cls i(2) r Some]
        show ?thesis by (simp add: eq)
      qed
    next
      case esc
      with True i "1.IH"(4) [OF True i(1) _ _ _ esc] show ?thesis
        by (cases "pi + 1 = length p") (auto simp: eq ds dp pattern_matches_bslash drop_step [of "Suc pi"])
    next
      case char
      with True i "1.IH"(5) [OF True i(1)] show ?thesis
        by (auto simp: eq ds dp pattern_matches_char)
    qed
  next
    case False
    let ?star = "\<lambda>x. x = ch_star"
    have "pi + length (takeWhile ?star (drop pi p)) = length p \<longleftrightarrow> set (drop pi p) \<subseteq> {ch_star}"
      using "1.prems" length_takeWhile_all [of ?star "drop pi p"] by (auto simp: le_imp_diff_is_add)
    moreover have "pattern_matches (drop pi p) (drop si s) \<longleftrightarrow> si = length s \<and> set (drop pi p) \<subseteq> {ch_star}"
      using False "1.prems" by (auto simp: pattern_matches_empty_name pattern_matches_Nil)
    ultimately show ?thesis
      using "1.prems" unfolding eq if_not_P [OF False] by (simp add: skip_stars_eq)
  qed
next
  case (2 s q start)
  note eq = any_suffix.simps [of s q start]
  show ?case
  proof (cases "start < length s")
    case True
    with 2 have "match_loop (drop start s) q 0 0 = Some (pattern_matches q (drop start s))" by simp
    moreover have "any_suffix s q (start + 1) =
        Some (\<exists>k. start + 1 \<le> k \<and> k < length s \<and> pattern_matches q (drop k s))"
      if "\<not> pattern_matches q (drop start s)"
      using "2.IH"(2) True that calculation by simp
    ultimately show ?thesis
      unfolding eq if_P [OF True] by (simp add: ex_from_Suc [OF True])
  qed (simp add: eq)
qed

section \<open>Property\<close>

text \<open>
  C9. For every name and every pattern of one component, the matcher of the code (with its
  indices, its recursion at every star and its class parser) ends without a panic and answers
  whether the name is in the language of the pattern's tokens.
\<close>

theorem match_component_correct: "match_component name pattern = Some (pattern_matches pattern name)"
  by (simp add: match_component_def match_chars_def match_loop_spec)

end
