(* ===== verification/Matcher.thy ===== *)
theory Matcher
  imports Prelude
begin

text \<open>
  The interface between the pattern compiler (\<^verbatim>\<open>glob.rs\<close>) and the walk that uses it
  (\<^verbatim>\<open>glob_walk\<close> in \<^verbatim>\<open>client.rs\<close>): a walk carries a state per directory and asks, for
  every child, whether to emit it and with which state to go on below it. A matcher promises
  that its states are residuals of a language of paths (lists of names), so that a walk which
  follows it finds the paths of the language and nothing else.
\<close>

text \<open>The state after going down a path of directories.\<close>

fun descend :: "('s \<Rightarrow> rstring \<Rightarrow> bool \<Rightarrow> (bool \<times> 's) option) \<Rightarrow> 's \<Rightarrow> rstring list \<Rightarrow> 's option" where
  "descend delta s [] = Some s"
| "descend delta s (n # ns) =
     (case delta s n True of None \<Rightarrow> None | Some (e, s') \<Rightarrow> descend delta s' ns)"

locale matcher =
  fixes delta :: "'s \<Rightarrow> rstring \<Rightarrow> bool \<Rightarrow> (bool \<times> 's) option"
    and acc :: "'s \<Rightarrow> rstring list \<Rightarrow> bool"
    and valid :: "'s \<Rightarrow> bool"
  assumes delta_total: "valid s \<Longrightarrow> \<exists>e s'. delta s n d = Some (e, s')"
    and delta_valid: "valid s \<Longrightarrow> delta s n d = Some (e, s') \<Longrightarrow> valid s'"
    and delta_emit: "valid s \<Longrightarrow> delta s n d = Some (e, s') \<Longrightarrow> e \<longleftrightarrow> acc s [n]"
    and delta_rest: "valid s \<Longrightarrow> delta s n d = Some (e, s') \<Longrightarrow> ns \<noteq> [] \<Longrightarrow>
      acc s' ns \<longleftrightarrow> d \<and> acc s (n # ns)"
begin

lemma descend_residual:
  "valid s \<Longrightarrow> \<exists>s'. descend delta s ns = Some s' \<and> valid s' \<and>
    (\<forall>ms. ms \<noteq> [] \<longrightarrow> acc s' ms \<longleftrightarrow> acc s (ns @ ms))"
proof (induction ns arbitrary: s)
  case (Cons n ns)
  obtain e t where t: "delta s n True = Some (e, t)" using delta_total [OF Cons.prems] by blast
  from Cons.IH [OF delta_valid [OF Cons.prems t]] obtain s' where
    "descend delta t ns = Some s'" "valid s'" "\<forall>ms. ms \<noteq> [] \<longrightarrow> acc s' ms \<longleftrightarrow> acc t (ns @ ms)"
    by blast
  with t delta_rest [OF Cons.prems t] show ?case by simp
qed simp

text \<open>Going down a path and asking about one more name decides membership.\<close>

lemma descend_emit:
  assumes "valid s"
  shows "\<exists>s' e t. descend delta s ns = Some s' \<and> delta s' n d = Some (e, t) \<and> (e \<longleftrightarrow> acc s (ns @ [n]))"
proof -
  obtain s' where s': "descend delta s ns = Some s'" "valid s'"
      "\<forall>ms. ms \<noteq> [] \<longrightarrow> acc s' ms \<longleftrightarrow> acc s (ns @ ms)"
    using descend_residual [OF assms] by blast
  moreover obtain e t where "delta s' n d = Some (e, t)" using delta_total [OF s'(2)] by blast
  ultimately show ?thesis using delta_emit by blast
qed

end

end
