(* ===== verification/Glob_Plan.thy ===== *)
theory Glob_Plan
  imports Brace Glob_Match Matcher
begin

text \<open>
  Compiled patterns (\<^verbatim>\<open>hdfs-bridge/src/glob.rs\<close>: \<^verbatim>\<open>Component\<close>, \<^verbatim>\<open>Pos\<close>, \<^verbatim>\<open>Step\<close>,
  \<^verbatim>\<open>GlobPlan\<close> with \<^verbatim>\<open>parse\<close>, \<^verbatim>\<open>step\<close> and \<^verbatim>\<open>match_at\<close>, \<^verbatim>\<open>parse_component\<close>,
  \<^verbatim>\<open>push_state\<close>). The indexing of patterns and components and the
  \<^verbatim>\<open>unreachable!\<close> arm of \<^verbatim>\<open>match_at\<close> are panics of the model; the results are that
  no plan made by \<open>parse\<close> ever reaches one, and that stepping a plan along the names of a
  path decides whether the path matches the pattern.
\<close>

section \<open>Data\<close>

datatype component = Crawl | Literal rstring | Pattern rstring

record Pos =
  pos_pat :: nat
  pos_comp :: nat

record Step =
  emit :: bool
  next_states :: "Pos list"

record GlobPlan =
  plan_patterns :: "component list list"
  plan_root :: rstring
  plan_initial :: "Pos list"
  plan_emit_root :: bool
  plan_include_hidden :: bool

section \<open>Parsing\<close>

text \<open>The loop of \<^verbatim>\<open>parse_component\<close> over the remaining characters.\<close>

fun parse_component_loop :: "rstring \<Rightarrow> rstring \<Rightarrow> rstring \<Rightarrow> component" where
  "parse_component_loop raw literal [] = Literal literal"
| "parse_component_loop raw literal (c # chars) =
     (if c = ch_bslash then
        (case chars of
           n # chars' \<Rightarrow> parse_component_loop raw (literal @ [n]) chars'
         | [] \<Rightarrow> parse_component_loop raw (literal @ [ch_bslash]) [])
      else if c = ch_star \<or> c = ch_quest \<or> c = ch_lbrack then Pattern raw
      else parse_component_loop raw (literal @ [c]) chars)"

definition parse_component :: "rstring \<Rightarrow> component" where
  "parse_component raw =
     (if raw = lit ''**'' then Crawl else parse_component_loop raw [] raw)"

definition components_of :: "rstring \<Rightarrow> component list" where
  "components_of expanded = map parse_component (path_names expanded)"

definition crawl_count :: "component list \<Rightarrow> nat" where
  "crawl_count components = length (filter (\<lambda>c. c = Crawl) components)"

fun parse_patterns :: "rstring \<Rightarrow> rstring list \<Rightarrow> hdfs_error + component list list" where
  "parse_patterns pattern [] = Inr []"
| "parse_patterns pattern (expanded # rest) =
     (let components = components_of expanded
      in if crawl_count components > 1
         then Inl (InvalidPath (lit ''Cannot use multiple '' @ lit [CHR 0x27] @ lit ''**'' @ lit [CHR 0x27]
                @ lit '' in one path: '' @ lit [CHR 0x27] @ pattern @ lit [CHR 0x27]))
         else (case parse_patterns pattern rest of
                 Inl e \<Rightarrow> Inl e
               | Inr patterns \<Rightarrow> Inr (components # patterns)))"

text \<open>The longest literal prefix shared by all patterns: the loop labelled \<^verbatim>\<open>'grow\<close>.\<close>

function grow_prefix :: "component list list \<Rightarrow> rstring list \<Rightarrow> rstring list option" where
  "grow_prefix patterns pre =
     do {
       p0 \<leftarrow> idx patterns 0;
       (case idx p0 (length pre) of
          Some (Literal first) \<Rightarrow>
            if list_all (\<lambda>pattern. idx pattern (length pre) = Some (Literal first)) (drop 1 patterns)
            then grow_prefix patterns (pre @ [first])
            else Some pre
        | _ \<Rightarrow> Some pre)
     }"
  by pat_completeness auto
termination
  by (relation "measure (\<lambda>(patterns, pre). length (hd patterns) - length pre)")
    (auto simp: idx_eq_Some hd_conv_nth)

declare grow_prefix.simps [simp del]

fun plan_starts :: "nat \<Rightarrow> nat \<Rightarrow> component list list \<Rightarrow> Pos list" where
  "plan_starts consumed pat [] = []"
| "plan_starts consumed pat (components # rest) =
     (if length components = consumed then plan_starts consumed (pat + 1) rest
      else \<lparr>pos_pat = pat, pos_comp = consumed\<rparr> # plan_starts consumed (pat + 1) rest)"

definition parse :: "rstring \<Rightarrow> bool \<Rightarrow> (hdfs_error + GlobPlan) option" where
  "parse pattern include_hidden =
     do {
       r \<leftarrow> expand_braces pattern;
       case r of
         Inl e \<Rightarrow> Some (Inl e)
       | Inr expansions \<Rightarrow>
           (case parse_patterns pattern expansions of
              Inl e \<Rightarrow> Some (Inl e)
            | Inr patterns \<Rightarrow> do {
                pre \<leftarrow> grow_prefix patterns [];
                Some (Inr \<lparr>plan_patterns = patterns,
                  plan_root = ch_slash # join_with [ch_slash] pre,
                  plan_initial = plan_starts (length pre) 0 patterns,
                  plan_emit_root = list_ex (\<lambda>components. length components = length pre) patterns,
                  plan_include_hidden = include_hidden\<rparr>)
              })
     }"

section \<open>Stepping\<close>

definition push_state :: "Pos list \<Rightarrow> Pos \<Rightarrow> Pos list" where
  "push_state states pos = (if pos \<in> set states then states else states @ [pos])"

definition match_at :: "GlobPlan \<Rightarrow> Pos \<Rightarrow> rstring \<Rightarrow> bool \<Rightarrow> Step \<Rightarrow> Step option" where
  "match_at plan pos name is_dir st =
     do {
       components \<leftarrow> idx (plan_patterns plan) (pos_pat pos);
       c \<leftarrow> idx components (pos_comp pos);
       matched \<leftarrow> (case c of
           Literal s \<Rightarrow> Some (name = s)
         | Pattern p \<Rightarrow>
             if plan_include_hidden plan \<or> \<not> is_hidden name \<or> explicit_hidden_prefix p
             then match_component name p else Some False
         | Crawl \<Rightarrow> None);
       Some (if \<not> matched then st
         else if pos_comp pos + 1 = length components then st\<lparr>emit := True\<rparr>
         else if is_dir
         then st\<lparr>next_states := push_state (next_states st) (pos\<lparr>pos_comp := pos_comp pos + 1\<rparr>)\<rparr>
         else st)
     }"

definition step_pos :: "GlobPlan \<Rightarrow> rstring \<Rightarrow> bool \<Rightarrow> Pos \<Rightarrow> Step \<Rightarrow> Step option" where
  "step_pos plan name is_dir pos st =
     (let crawl_blocked = (\<not> plan_include_hidden plan \<and> is_hidden name)
      in do {
        components \<leftarrow> idx (plan_patterns plan) (pos_pat pos);
        c \<leftarrow> idx components (pos_comp pos);
        if c = Crawl then do {
          st \<leftarrow> (if pos_comp pos + 1 = length components
             then Some (if \<not> crawl_blocked then st\<lparr>emit := True\<rparr> else st)
             else match_at plan (pos\<lparr>pos_comp := pos_comp pos + 1\<rparr>) name is_dir st);
          Some (if is_dir \<and> \<not> crawl_blocked
             then st\<lparr>next_states := push_state (next_states st) pos\<rparr> else st)
        }
        else match_at plan pos name is_dir st
      })"

fun step_loop :: "GlobPlan \<Rightarrow> rstring \<Rightarrow> bool \<Rightarrow> Pos list \<Rightarrow> Step \<Rightarrow> Step option" where
  "step_loop plan name is_dir [] st = Some st"
| "step_loop plan name is_dir (pos # states) st =
     do {
       st \<leftarrow> step_pos plan name is_dir pos st;
       step_loop plan name is_dir states st
     }"

definition step :: "GlobPlan \<Rightarrow> Pos list \<Rightarrow> rstring \<Rightarrow> bool \<Rightarrow> Step option" where
  "step plan states name is_dir =
     step_loop plan name is_dir states \<lparr>emit = False, next_states = []\<rparr>"

section \<open>The specification: which paths a component list matches\<close>

text \<open>Whether a wildcard may consume a name.\<close>

definition visible :: "bool \<Rightarrow> rstring \<Rightarrow> bool" where
  "visible ih name \<longleftrightarrow> ih \<or> \<not> is_hidden name"

fun comp_matches :: "bool \<Rightarrow> component \<Rightarrow> rstring \<Rightarrow> bool" where
  "comp_matches ih Crawl name = visible ih name"
| "comp_matches ih (Literal s) name = (name = s)"
| "comp_matches ih (Pattern p) name =
     ((visible ih name \<or> explicit_hidden_prefix p) \<and> pattern_matches p name)"

text \<open>
  A path, as the list of its names, matches a list of components: other components match
  one name each; a crawl takes any number of visible names before the rest (at least one,
  and all of them, when it is last).
\<close>

fun path_matches :: "bool \<Rightarrow> component list \<Rightarrow> rstring list \<Rightarrow> bool" where
  "path_matches ih [] names \<longleftrightarrow> names = []"
| "path_matches ih (c # cs) names \<longleftrightarrow>
     (if c = Crawl
      then \<exists>k \<le> length names. list_all (visible ih) (take k names) \<and>
             (if cs = [] then names \<noteq> [] \<and> k = length names
              else path_matches ih cs (drop k names))
      else (case names of [] \<Rightarrow> False | n # ns \<Rightarrow> comp_matches ih c n \<and> path_matches ih cs ns))"

declare path_matches.simps(2) [simp del]

lemma path_matches_Nil [simp]: "path_matches ih cs [] \<longleftrightarrow> cs = []"
  by (induction cs) (simp_all add: path_matches.simps(2))

lemma path_matches_single:
  "c \<noteq> Crawl \<Longrightarrow> path_matches ih (c # cs) (n # ns) \<longleftrightarrow> comp_matches ih c n \<and> path_matches ih cs ns"
  by (simp add: path_matches.simps(2))

lemma path_matches_crawl_end:
  "path_matches ih [Crawl] names \<longleftrightarrow> names \<noteq> [] \<and> list_all (visible ih) names"
  by (auto simp: path_matches.simps(2))

lemma path_matches_crawl_Cons:
  assumes "cs \<noteq> []"
  shows "path_matches ih (Crawl # cs) (n # ns) \<longleftrightarrow>
    path_matches ih cs (n # ns) \<or> visible ih n \<and> path_matches ih (Crawl # cs) ns" (is "?L \<longleftrightarrow> ?R")
proof
  assume ?L
  then obtain k where k: "k \<le> length (n # ns)" "list_all (visible ih) (take k (n # ns))"
      "path_matches ih cs (drop k (n # ns))"
    using assms by (auto simp: path_matches.simps(2))
  then show ?R
    using assms by (cases k) (auto simp: path_matches.simps(2))
next
  assume ?R
  then show ?L
  proof
    assume "path_matches ih cs (n # ns)"
    then show ?L using assms by (auto simp: path_matches.simps(2) intro: exI [of _ 0])
  next
    assume R: "visible ih n \<and> path_matches ih (Crawl # cs) ns"
    then obtain k where "k \<le> length ns" "list_all (visible ih) (take k ns)" "path_matches ih cs (drop k ns)"
      using assms by (auto simp: path_matches.simps(2))
    with R assms show ?L by (auto simp: path_matches.simps(2) intro!: exI [of _ "Suc k"])
  qed
qed

section \<open>Plans that cannot panic\<close>

text \<open>No crawl follows a crawl; what \<open>parse\<close> guarantees by allowing one per pattern.\<close>

definition single_crawls :: "component list \<Rightarrow> bool" where
  "single_crawls cs \<longleftrightarrow> (\<forall>i. Suc i < length cs \<longrightarrow> \<not> (cs ! i = Crawl \<and> cs ! Suc i = Crawl))"

definition plan_wf :: "GlobPlan \<Rightarrow> bool" where
  "plan_wf plan \<longleftrightarrow> list_all single_crawls (plan_patterns plan)"

definition valid_pos :: "GlobPlan \<Rightarrow> Pos \<Rightarrow> bool" where
  "valid_pos plan pos \<longleftrightarrow>
     pos_pat pos < length (plan_patterns plan) \<and>
     pos_comp pos < length (plan_patterns plan ! pos_pat pos)"

definition rest_of :: "GlobPlan \<Rightarrow> Pos \<Rightarrow> component list" where
  "rest_of plan pos = drop (pos_comp pos) (plan_patterns plan ! pos_pat pos)"

definition accepts :: "GlobPlan \<Rightarrow> Pos list \<Rightarrow> rstring list \<Rightarrow> bool" where
  "accepts plan states names \<longleftrightarrow>
     list_ex (\<lambda>pos. path_matches (plan_include_hidden plan) (rest_of plan pos) names) states"

text \<open>What a step from \<open>st\<close> to \<open>st'\<close> over the states \<open>ps\<close> has to record.\<close>

definition step_records :: "GlobPlan \<Rightarrow> rstring \<Rightarrow> bool \<Rightarrow> Pos list \<Rightarrow> Step \<Rightarrow> Step \<Rightarrow> bool" where
  "step_records plan name is_dir ps st st' \<longleftrightarrow>
     (emit st' \<longleftrightarrow> emit st \<or> accepts plan ps [name]) \<and>
     (\<forall>ns. ns \<noteq> [] \<longrightarrow>
        (accepts plan (next_states st') ns \<longleftrightarrow>
         accepts plan (next_states st) ns \<or> is_dir \<and> accepts plan ps (name # ns))) \<and>
     (list_all (valid_pos plan) (next_states st) \<longrightarrow> list_all (valid_pos plan) (next_states st')) \<and>
     (distinct (next_states st) \<longrightarrow> distinct (next_states st')) \<and>
     (\<not> is_dir \<longrightarrow> next_states st' = next_states st)"

lemma push_state_simps [simp]:
  "set (push_state states pos) = insert pos (set states)"
  "distinct (push_state states pos) \<longleftrightarrow> distinct states"
  "list_all P (push_state states pos) \<longleftrightarrow> P pos \<and> list_all P states"
  by (auto simp: push_state_def list_all_iff)

lemma accepts_simps [simp]:
  "accepts plan [] ns = False"
  "accepts plan (pos # ps) ns \<longleftrightarrow>
     path_matches (plan_include_hidden plan) (rest_of plan pos) ns \<or> accepts plan ps ns"
  "accepts plan (push_state ps pos) ns \<longleftrightarrow>
     path_matches (plan_include_hidden plan) (rest_of plan pos) ns \<or> accepts plan ps ns"
  by (auto simp: accepts_def list_ex_iff)

lemma step_records_refl: "step_records plan name is_dir [] st st"
  by (simp add: step_records_def)

lemma step_records_trans:
  "step_records plan name is_dir ps st st' \<Longrightarrow> step_records plan name is_dir qs st' st'' \<Longrightarrow>
   step_records plan name is_dir (ps @ qs) st st''"
  by (auto simp: step_records_def accepts_def)

section \<open>A step is the derivative of the specification\<close>

abbreviation comp_at :: "GlobPlan \<Rightarrow> Pos \<Rightarrow> component" where
  "comp_at plan pos \<equiv> plan_patterns plan ! pos_pat pos ! pos_comp pos"

abbreviation advance :: "Pos \<Rightarrow> Pos" where
  "advance pos \<equiv> pos\<lparr>pos_comp := pos_comp pos + 1\<rparr>"

lemma rest_of_valid:
  "valid_pos plan pos \<Longrightarrow> rest_of plan pos = comp_at plan pos # rest_of plan (advance pos)"
  by (simp add: rest_of_def valid_pos_def drop_step)

lemma rest_of_advance_Nil:
  "valid_pos plan pos \<Longrightarrow>
   rest_of plan (advance pos) = [] \<longleftrightarrow> pos_comp pos + 1 = length (plan_patterns plan ! pos_pat pos)"
  by (auto simp: rest_of_def valid_pos_def)

lemma valid_advance:
  "valid_pos plan pos \<Longrightarrow> pos_comp pos + 1 \<noteq> length (plan_patterns plan ! pos_pat pos) \<Longrightarrow>
   valid_pos plan (advance pos)"
  by (simp add: valid_pos_def)

lemma match_at_records:
  assumes v: "valid_pos plan pos" and c: "comp_at plan pos \<noteq> Crawl"
  shows "\<exists>st'. match_at plan pos name is_dir st = Some st' \<and> step_records plan name is_dir [pos] st st'"
proof -
  let ?ih = "plan_include_hidden plan"
  let ?m = "comp_matches ?ih (comp_at plan pos) name"
  have idx: "idx (plan_patterns plan) (pos_pat pos) = Some (plan_patterns plan ! pos_pat pos)"
    "idx (plan_patterns plan ! pos_pat pos) (pos_comp pos) = Some (comp_at plan pos)"
    using v by (simp_all add: valid_pos_def)
  have matched: "(case comp_at plan pos of
           Literal s \<Rightarrow> Some (name = s)
         | Pattern p \<Rightarrow> if ?ih \<or> \<not> is_hidden name \<or> explicit_hidden_prefix p
             then match_component name p else Some False
         | Crawl \<Rightarrow> None) = Some ?m"
    using c by (cases "comp_at plan pos")
      (auto simp: visible_def match_component_def match_chars_def match_loop_spec)
  have "path_matches ?ih (rest_of plan pos) (name # ns) \<longleftrightarrow> ?m \<and> path_matches ?ih (rest_of plan (advance pos)) ns" for ns
    unfolding rest_of_valid [OF v] by (rule path_matches_single [OF c])
  with rest_of_advance_Nil [OF v] valid_advance [OF v] show ?thesis
    unfolding match_at_def idx matched bind.bind_lunit
    by (cases "rest_of plan (advance pos)") (auto simp: step_records_def)
qed

lemma step_pos_records:
  assumes wf: "plan_wf plan" and v: "valid_pos plan pos"
  shows "\<exists>st'. step_pos plan name is_dir pos st = Some st' \<and> step_records plan name is_dir [pos] st st'"
proof (cases "comp_at plan pos = Crawl")
  case False
  then have "step_pos plan name is_dir pos st = match_at plan pos name is_dir st"
    using v by (simp add: step_pos_def valid_pos_def Let_def)
  with match_at_records [OF v False] show ?thesis by simp
next
  case True
  let ?ih = "plan_include_hidden plan"
  let ?cs = "rest_of plan (advance pos)"
  have idx: "idx (plan_patterns plan) (pos_pat pos) = Some (plan_patterns plan ! pos_pat pos)"
    "idx (plan_patterns plan ! pos_pat pos) (pos_comp pos) = Some Crawl"
    using v True by (simp_all add: valid_pos_def)
  have rest: "rest_of plan pos = Crawl # ?cs" using rest_of_valid [OF v] True by simp
  show ?thesis
  proof (cases "?cs = []")
    case end': True
    with rest have "path_matches ?ih (rest_of plan pos) ns \<longleftrightarrow> ns \<noteq> [] \<and> list_all (visible ?ih) ns" for ns
      by (simp add: path_matches_crawl_end)
    with end' v rest_of_advance_Nil [OF v] show ?thesis
      unfolding step_pos_def idx bind.bind_lunit Let_def
      by (auto simp: step_records_def visible_def)
  next
    case False
    then have last: "pos_comp pos + 1 \<noteq> length (plan_patterns plan ! pos_pat pos)"
      using rest_of_advance_Nil [OF v] by simp
    have v': "valid_pos plan (advance pos)" using valid_advance [OF v last] .
    have "single_crawls (plan_patterns plan ! pos_pat pos)"
      using wf v by (simp add: plan_wf_def list_all_iff valid_pos_def)
    then have "comp_at plan (advance pos) \<noteq> Crawl"
      using True v' by (auto simp: single_crawls_def valid_pos_def)
    then obtain st1 where st1: "match_at plan (advance pos) name is_dir st = Some st1"
        "step_records plan name is_dir [advance pos] st st1"
      using match_at_records [OF v'] by blast
    have "path_matches ?ih (rest_of plan pos) (name # ns) \<longleftrightarrow>
        path_matches ?ih ?cs (name # ns) \<or> visible ?ih name \<and> path_matches ?ih (rest_of plan pos) ns" for ns
      unfolding rest by (rule path_matches_crawl_Cons [OF False])
    with st1 v last False rest show ?thesis
      unfolding step_pos_def idx bind.bind_lunit Let_def
      by (auto simp: step_records_def visible_def)
  qed
qed

lemma step_loop_records:
  assumes "plan_wf plan" and "list_all (valid_pos plan) states"
  shows "\<exists>st'. step_loop plan name is_dir states st = Some st' \<and> step_records plan name is_dir states st st'"
  using assms(2)
proof (induction states arbitrary: st)
  case Nil
  then show ?case by (simp add: step_records_refl)
next
  case (Cons pos states)
  from assms(1) Cons.prems obtain st1 where st1: "step_pos plan name is_dir pos st = Some st1"
      "step_records plan name is_dir [pos] st st1"
    using step_pos_records by fastforce
  from Cons obtain st2 where "step_loop plan name is_dir states st1 = Some st2"
      "step_records plan name is_dir states st1 st2" by fastforce
  with st1 show ?case using step_records_trans [OF st1(2)] by fastforce
qed

lemma step_spec:
  assumes "plan_wf plan" and "list_all (valid_pos plan) states"
  obtains st where "step plan states name is_dir = Some st"
    and "emit st \<longleftrightarrow> accepts plan states [name]"
    and "\<And>ns. ns \<noteq> [] \<Longrightarrow> accepts plan (next_states st) ns \<longleftrightarrow> is_dir \<and> accepts plan states (name # ns)"
    and "list_all (valid_pos plan) (next_states st)" and "distinct (next_states st)"
    and "\<not> is_dir \<Longrightarrow> next_states st = []"
  using step_loop_records [OF assms, of name is_dir "\<lparr>emit = False, next_states = []\<rparr>"]
  by (auto simp: step_def step_records_def)

text \<open>So a plan is a matcher, with the position sets as its states.\<close>

definition delta :: "GlobPlan \<Rightarrow> Pos list \<Rightarrow> rstring \<Rightarrow> bool \<Rightarrow> (bool \<times> Pos list) option" where
  "delta plan states name is_dir = map_option (\<lambda>st. (emit st, next_states st)) (step plan states name is_dir)"

definition states_ok :: "GlobPlan \<Rightarrow> Pos list \<Rightarrow> bool" where
  "states_ok plan states \<longleftrightarrow> plan_wf plan \<and> list_all (valid_pos plan) states"

interpretation nfa: matcher "delta plan" "accepts plan" "states_ok plan" for plan
proof
  fix s n d
  assume "states_ok plan s"
  then obtain st where st: "step plan s n d = Some st" "emit st \<longleftrightarrow> accepts plan s [n]"
    "\<And>ns. ns \<noteq> [] \<Longrightarrow> accepts plan (next_states st) ns \<longleftrightarrow> d \<and> accepts plan s (n # ns)"
    "list_all (valid_pos plan) (next_states st)"
    unfolding states_ok_def using step_spec by metis
  then show "\<exists>e s'. delta plan s n d = Some (e, s')" by (simp add: delta_def)
  fix e s'
  assume "delta plan s n d = Some (e, s')"
  with st show "states_ok plan s'" "e \<longleftrightarrow> accepts plan s [n]"
    "\<And>ns. ns \<noteq> [] \<Longrightarrow> accepts plan s' ns \<longleftrightarrow> d \<and> accepts plan s (n # ns)"
    using \<open>states_ok plan s\<close> by (auto simp: delta_def states_ok_def)
qed

section \<open>What parsing guarantees\<close>

lemma crawl_count_single: "crawl_count cs \<le> 1 \<Longrightarrow> single_crawls cs"
proof (rule ccontr)
  assume count: "crawl_count cs \<le> 1" and "\<not> single_crawls cs"
  then obtain i where i: "Suc i < length cs" "cs ! i = Crawl" "cs ! Suc i = Crawl"
    by (auto simp: single_crawls_def)
  then obtain u v where "cs = u @ Crawl # Crawl # v"
    by (metis Cons_nth_drop_Suc Suc_lessD append_take_drop_id)
  with count show False by (simp add: crawl_count_def)
qed

lemma parse_patterns_Inr:
  "parse_patterns pattern es = Inr pats \<longleftrightarrow>
     pats = map components_of es \<and> (\<forall>e \<in> set es. crawl_count (components_of e) \<le> 1)"
  by (induction es arbitrary: pats) (auto simp: Let_def split: sum.splits)

lemma parse_patterns_Inl:
  "parse_patterns pattern es = Inl err \<Longrightarrow>
     (\<exists>msg. err = InvalidPath msg) \<and> (\<exists>e \<in> set es. crawl_count (components_of e) > 1)"
  by (induction es) (auto simp: Let_def split: sum.splits if_splits)

lemma grow_prefix_spec:
  assumes "patterns \<noteq> []" and "\<forall>pt \<in> set patterns. take (length pre) pt = map Literal pre"
  shows "\<exists>pre'. grow_prefix patterns pre = Some pre' \<and>
    (\<forall>pt \<in> set patterns. take (length pre') pt = map Literal pre')"
  using assms
proof (induction patterns pre rule: grow_prefix.induct)
  case (1 patterns pre)
  let ?k = "length pre"
  obtain p0 ps where pats: "patterns = p0 # ps" using "1.prems"(1) by (cases patterns) auto
  show ?case
  proof (cases "\<exists>first. \<forall>pt \<in> set patterns. idx pt ?k = Some (Literal first)")
    case True
    then obtain first where first: "\<forall>pt \<in> set patterns. idx pt ?k = Some (Literal first)" by blast
    then have grow: "grow_prefix patterns pre = grow_prefix patterns (pre @ [first])"
      using pats by (subst grow_prefix.simps) (simp add: list_all_iff)
    have "\<forall>pt \<in> set patterns. take (length (pre @ [first])) pt = map Literal (pre @ [first])"
      using first "1.prems"(2) by (auto simp: idx_eq_Some take_Suc_conv_app_nth)
    then show ?thesis
      unfolding grow using "1.IH" [of p0 "Literal first" first] first "1.prems"(1) pats
      by (simp add: list_all_iff)
  next
    case False
    then have "grow_prefix patterns pre = Some pre"
      using pats by (subst grow_prefix.simps) (auto simp: list_all_iff split: option.splits component.splits)
    with "1.prems" show ?thesis by blast
  qed
qed

lemma plan_starts_set:
  "set (plan_starts n k pats) =
     {\<lparr>pos_pat = k + i, pos_comp = n\<rparr> | i. i < length pats \<and> length (pats ! i) \<noteq> n}"
proof (induction pats arbitrary: k)
  case (Cons pt pats)
  have "{\<lparr>pos_pat = k + i, pos_comp = n\<rparr> | i. i < length (pt # pats) \<and> length ((pt # pats) ! i) \<noteq> n} =
    (if length pt = n then {} else {\<lparr>pos_pat = k, pos_comp = n\<rparr>}) \<union>
    {\<lparr>pos_pat = Suc k + i, pos_comp = n\<rparr> | i. i < length pats \<and> length (pats ! i) \<noteq> n}"
    by (auto simp: less_Suc_eq_0_disj nth_Cons' gr0_conv_Suc split: if_splits)
  then show ?case using Cons by simp
qed simp

lemma parse_component_loop_Literal:
  "parse_component_loop raw acc chars = Literal l \<Longrightarrow>
   \<exists>l'. l = acc @ l' \<and> set l' \<subseteq> set chars \<and> (chars \<noteq> [] \<longrightarrow> l' \<noteq> [])"
proof (induction raw acc chars rule: parse_component_loop.induct)
  case (2 raw acc c chars)
  then show ?case by (fastforce split: if_splits list.splits)
qed simp

lemma parse_component_Literal_name:
  assumes "parse_component raw = Literal l" and "raw \<noteq> []" and "ch_slash \<notin> set raw"
  shows "l \<noteq> [] \<and> ch_slash \<notin> set l"
  using assms parse_component_loop_Literal [of raw "[]" raw l]
  by (auto simp: parse_component_def split: if_splits)

text \<open>A path matches a pattern string: one of its brace expansions matches.\<close>

definition glob_matches :: "rstring \<Rightarrow> bool \<Rightarrow> rstring list \<Rightarrow> bool" where
  "glob_matches pattern ih names =
     (case expand_braces pattern of
        Some (Inr expansions) \<Rightarrow> list_ex (\<lambda>e. path_matches ih (components_of e) names) expansions
      | _ \<Rightarrow> False)"

lemma path_matches_literals:
  "path_matches ih (map Literal pre @ cs) names \<longleftrightarrow> (\<exists>ns. names = pre @ ns \<and> path_matches ih cs ns)"
proof (induction pre arbitrary: names)
  case (Cons l pre)
  then show ?case by (cases names) (auto simp: path_matches_single)
qed simp

text \<open>Everything a successful \<open>parse\<close> establishes about its plan.\<close>

lemma parse_Ok:
  assumes "parse pattern ih = Some (Inr plan)"
  obtains es pre where "expand_braces pattern = Some (Inr es)" and "es \<noteq> []"
    and "plan_patterns plan = map components_of es"
    and "\<forall>pt \<in> set (plan_patterns plan). take (length pre) pt = map Literal pre"
    and "path_names (plan_root plan) = pre"
    and "plan_initial plan = plan_starts (length pre) 0 (plan_patterns plan)"
    and "plan_emit_root plan \<longleftrightarrow> (\<exists>pt \<in> set (plan_patterns plan). length pt = length pre)"
    and "plan_include_hidden plan = ih" and "plan_wf plan"
proof -
  from assms obtain es pats where es: "expand_braces pattern = Some (Inr es)"
      and pats: "parse_patterns pattern es = Inr pats"
    by (auto simp: parse_def split: sum.splits bind_splits)
  have ne: "es \<noteq> []" using expand_braces_Ok_props [OF es] by simp
  have pats': "pats = map components_of es" "\<forall>e \<in> set es. crawl_count (components_of e) \<le> 1"
    using pats by (simp_all add: parse_patterns_Inr)
  obtain pre where pre: "grow_prefix pats [] = Some pre" "\<forall>pt \<in> set pats. take (length pre) pt = map Literal pre"
    using grow_prefix_spec [of pats "[]"] ne pats' by auto
  have plan: "plan = \<lparr>plan_patterns = pats, plan_root = ch_slash # join_with [ch_slash] pre,
      plan_initial = plan_starts (length pre) 0 pats,
      plan_emit_root = list_ex (\<lambda>components. length components = length pre) pats,
      plan_include_hidden = ih\<rparr>"
    using assms es pats pre(1) by (simp add: parse_def)
  have "l \<noteq> [] \<and> ch_slash \<notin> set l" if "l \<in> set pre" for l
  proof -
    have "hd pats = components_of (hd es)" "hd pats \<in> set pats"
      using ne pats' by (cases es; simp)+
    with pre(2) that have "Literal l \<in> set (components_of (hd es))"
      by (metis (no_types, lifting) image_eqI in_set_takeD list.set_map)
    then obtain raw where "raw \<in> set (path_names (hd es))" "parse_component raw = Literal l"
      by (auto simp: components_of_def)
    with parse_component_Literal_name path_names_wf show ?thesis by blast
  qed
  then have root: "path_names (plan_root plan) = pre"
    by (simp add: plan path_names_simps path_names_join)
  have "plan_wf plan"
    using pats' crawl_count_single by (auto simp: plan plan_wf_def list_all_iff)
  with that [OF es ne _ _ root] plan pats' pre(2) show thesis
    by (simp add: list_ex_iff)
qed

lemma parse_initial_valid:
  assumes "parse pattern ih = Some (Inr plan)"
  shows "list_all (valid_pos plan) (plan_initial plan)"
proof -
  from assms obtain es pre where
    pats: "\<forall>pt \<in> set (plan_patterns plan). take (length pre) pt = map Literal pre"
    and init: "plan_initial plan = plan_starts (length pre) 0 (plan_patterns plan)"
    by (rule parse_Ok)
  have "length pre \<le> length pt" if "pt \<in> set (plan_patterns plan)" for pt
    using pats that by (metis length_map length_take min.cobounded1 min.absorb_iff2)
  then have "length pre \<le> length (plan_patterns plan ! i)" if "i < length (plan_patterns plan)" for i
    using that by simp
  then show ?thesis
    by (auto simp: list_all_iff init plan_starts_set valid_pos_def le_neq_implies_less)
qed

text \<open>The three outcomes of \<open>parse\<close>.\<close>

lemma parse_cases:
  obtains (braces) e where "expand_braces pattern = Some (Inl e)" "parse pattern ih = Some (Inl e)"
  | (crawls) es e where "expand_braces pattern = Some (Inr es)" "parse_patterns pattern es = Inl e"
      "parse pattern ih = Some (Inl e)"
  | (plan) es pats plan where "expand_braces pattern = Some (Inr es)" "parse_patterns pattern es = Inr pats"
      "parse pattern ih = Some (Inr plan)"
proof -
  obtain r where r: "expand_braces pattern = Some r"
    using expand_braces_total [of pattern] by auto
  show thesis
  proof (cases r)
    case (Inl e)
    with r show thesis by (intro braces) (simp_all add: parse_def)
  next
    case (Inr es)
    show thesis
    proof (cases "parse_patterns pattern es")
      case (Inl e)
      with r Inr show thesis by (intro crawls) (simp_all add: parse_def)
    next
      case pats: (Inr pats)
      then have "pats \<noteq> []"
        using expand_braces_Ok_props r Inr by (auto simp: parse_patterns_Inr)
      then obtain pre where "grow_prefix pats [] = Some pre"
        using grow_prefix_spec [of pats "[]"] by auto
      with r Inr pats show thesis by (intro plan) (simp_all add: parse_def)
    qed
  qed
qed

lemma parse_total: "parse pattern ih \<noteq> None"
  by (cases pattern ih rule: parse_cases) simp_all

lemma parse_Err_iff:
  "(\<exists>e. parse pattern ih = Some (Inl e)) \<longleftrightarrow>
     brace_depth 0 pattern \<noteq> 0 \<or>
     (\<exists>es. expand_braces pattern = Some (Inr es) \<and> (\<exists>e \<in> set es. crawl_count (components_of e) > 1))"
  using expand_braces_Err_iff [of pattern]
proof (cases pattern ih rule: parse_cases)
  case (crawls es e)
  with parse_patterns_Inl [OF crawls(2)] show ?thesis by auto
next
  case (plan es pats plan)
  with expand_braces_Err_iff [of pattern] show ?thesis by (auto simp: parse_patterns_Inr)
qed auto

lemma parse_Inl: "parse pattern ih = Some (Inl e) \<Longrightarrow> \<exists>msg. e = InvalidPath msg"
  by (cases pattern ih rule: parse_cases) (auto dest: expand_braces_Inl parse_patterns_Inl)

lemma accepts_initial:
  assumes "parse pattern ih = Some (Inr plan)"
  shows "accepts plan (plan_initial plan) ns \<longleftrightarrow>
    (\<exists>pt \<in> set (plan_patterns plan). length pt \<noteq> length (path_names (plan_root plan)) \<and>
       path_matches ih (drop (length (path_names (plan_root plan))) pt) ns)"
proof -
  from assms obtain es pre where root: "path_names (plan_root plan) = pre"
    and init: "plan_initial plan = plan_starts (length pre) 0 (plan_patterns plan)"
    and ih: "plan_include_hidden plan = ih"
    by (rule parse_Ok)
  have "accepts plan (plan_initial plan) ns \<longleftrightarrow>
      (\<exists>i < length (plan_patterns plan). length (plan_patterns plan ! i) \<noteq> length pre \<and>
         path_matches ih (drop (length pre) (plan_patterns plan ! i)) ns)"
    by (auto simp: accepts_def list_ex_iff init plan_starts_set ih rest_of_def)
  also have "\<dots> \<longleftrightarrow> (\<exists>pt \<in> set (plan_patterns plan). length pt \<noteq> length pre \<and>
       path_matches ih (drop (length pre) pt) ns)"
    by (metis in_set_conv_nth)
  finally show ?thesis unfolding root .
qed

lemma parse_correct:
  assumes "parse pattern ih = Some (Inr plan)"
  shows "glob_matches pattern ih names \<longleftrightarrow>
    (\<exists>ns. names = path_names (plan_root plan) @ ns \<and>
       (if ns = [] then plan_emit_root plan else accepts plan (plan_initial plan) ns))"
proof -
  from assms obtain es pre where
    es: "expand_braces pattern = Some (Inr es)" and pats: "plan_patterns plan = map components_of es"
    and lits: "\<forall>pt \<in> set (plan_patterns plan). take (length pre) pt = map Literal pre"
    and root: "path_names (plan_root plan) = pre"
    and emit: "plan_emit_root plan \<longleftrightarrow> (\<exists>pt \<in> set (plan_patterns plan). length pt = length pre)"
    by (rule parse_Ok)
  have split: "pt = map Literal pre @ drop (length pre) pt" if "pt \<in> set (plan_patterns plan)" for pt
    using lits that by (metis append_take_drop_id)
  have "glob_matches pattern ih names \<longleftrightarrow> (\<exists>pt \<in> set (plan_patterns plan). path_matches ih pt names)"
    by (simp add: glob_matches_def es pats list_ex_iff)
  also have "\<dots> \<longleftrightarrow> (\<exists>pt \<in> set (plan_patterns plan). \<exists>ns. names = pre @ ns \<and> path_matches ih (drop (length pre) pt) ns)"
    using split path_matches_literals [of ih pre] by (metis (no_types, lifting))
  also have "\<dots> \<longleftrightarrow> (\<exists>ns. names = pre @ ns \<and>
      (if ns = [] then plan_emit_root plan else accepts plan (plan_initial plan) ns))"
  proof -
    have "(\<exists>pt \<in> set (plan_patterns plan). path_matches ih (drop (length pre) pt) ns) \<longleftrightarrow>
        (if ns = [] then plan_emit_root plan else accepts plan (plan_initial plan) ns)" for ns
    proof (cases "ns = []")
      case True
      have "drop (length pre) pt = [] \<longleftrightarrow> length pt = length pre" if "pt \<in> set (plan_patterns plan)" for pt
        using split [OF that] by (metis append_Nil2 drop_all length_map order_refl)
      with True show ?thesis by (auto simp: emit)
    next
      case False
      then have "length pt \<noteq> length pre" if "path_matches ih (drop (length pre) pt) ns" for pt
        using that by auto
      with False show ?thesis by (auto simp: accepts_initial [OF assms] root)
    qed
    then show ?thesis by blast
  qed
  finally show ?thesis unfolding root .
qed

section \<open>Literal components are an optimisation\<close>

lemma parse_component_loop_tokens:
  "parse_component_loop raw acc chars = Literal l \<Longrightarrow> tokens chars = Some ts \<Longrightarrow>
   \<exists>l'. l = acc @ l' \<and> ts = map TChar l'"
proof (induction raw acc chars arbitrary: ts rule: parse_component_loop.induct)
  case (2 raw acc c chars)
  then show ?case by (fastforce split: if_splits list.splits)
qed simp

lemma glob_lang_chars: "glob_lang (map TChar l) n \<longleftrightarrow> n = l"
  by (induction l arbitrary: n) auto

lemma parse_component_loop_hidden:
  "parse_component_loop raw [] chars = Literal l \<Longrightarrow> tokens chars \<noteq> None \<Longrightarrow> is_hidden l \<Longrightarrow>
   explicit_hidden_prefix chars"
proof (cases chars)
  case (Cons c cs)
  assume "parse_component_loop raw [] chars = Literal l" "tokens chars \<noteq> None" "is_hidden l"
  with Cons show ?thesis
    by (auto simp: explicit_hidden_prefix_def is_hidden_def split: if_splits list.splits
        dest!: parse_component_loop_Literal)
qed (simp add: is_hidden_def)

lemma literal_component_is_pattern:
  assumes "parse_component raw = Literal l" and "tokens raw \<noteq> None"
  shows "name = l \<longleftrightarrow> (visible ih name \<or> explicit_hidden_prefix raw) \<and> pattern_matches raw name"
proof -
  have loop: "parse_component_loop raw [] raw = Literal l"
    using assms(1) by (auto simp: parse_component_def split: if_splits)
  obtain ts where ts: "tokens raw = Some ts" using assms(2) by blast
  have "pattern_matches raw name \<longleftrightarrow> name = l"
    using parse_component_loop_tokens [OF loop ts] ts by (auto simp: pattern_matches_def glob_lang_chars)
  moreover have "visible ih l \<or> explicit_hidden_prefix raw"
    using parse_component_loop_hidden [OF loop assms(2)] by (auto simp: visible_def)
  ultimately show ?thesis by auto
qed

section \<open>Hidden names\<close>

text \<open>A component that spells a name out: literally, or by a pattern that begins with its dot or underscore.\<close>

definition spells :: "component \<Rightarrow> rstring \<Rightarrow> bool" where
  "spells c n \<longleftrightarrow> c = Literal n \<or> (\<exists>p. c = Pattern p \<and> explicit_hidden_prefix p \<and> pattern_matches p n)"

lemma match_at_hidden:
  assumes "match_at plan pos name is_dir st = Some st'" and "st' \<noteq> st" and "\<not> plan_include_hidden plan" and "is_hidden name"
  shows "\<exists>pt \<in> set (plan_patterns plan). \<exists>c \<in> set pt. spells c name"
proof -
  from assms(1,2) obtain pt c where pt: "idx (plan_patterns plan) (pos_pat pos) = Some pt" "idx pt (pos_comp pos) = Some c"
    and m: "(case c of Literal s \<Rightarrow> Some (name = s)
      | Pattern p \<Rightarrow> if plan_include_hidden plan \<or> \<not> is_hidden name \<or> explicit_hidden_prefix p then match_component name p else Some False
      | Crawl \<Rightarrow> None) = Some True"
    by (auto simp: match_at_def split: bind_splits if_splits)
  have "spells c name"
    using m assms(3,4)
    by (cases c) (auto simp: spells_def match_component_def match_chars_def match_loop_spec split: if_splits)
  moreover have "pt \<in> set (plan_patterns plan)" "c \<in> set pt" using pt by (auto simp: idx_eq_Some)
  ultimately show ?thesis by blast
qed

lemma step_pos_hidden:
  assumes "step_pos plan name is_dir pos st = Some st'" and "st' \<noteq> st" and "\<not> plan_include_hidden plan" and "is_hidden name"
  shows "\<exists>pt \<in> set (plan_patterns plan). \<exists>c \<in> set pt. spells c name"
proof -
  from assms obtain pos' where "match_at plan pos' name is_dir st = Some st'"
    by (auto simp: step_pos_def Let_def split: bind_splits if_splits)
  from match_at_hidden [OF this assms(2-4)] show ?thesis .
qed

lemma step_loop_hidden:
  assumes "step_loop plan name is_dir states st = Some st'" and "st' \<noteq> st" and "\<not> plan_include_hidden plan" and "is_hidden name"
  shows "\<exists>pt \<in> set (plan_patterns plan). \<exists>c \<in> set pt. spells c name"
  using assms(1,2)
proof (induction states arbitrary: st)
  case (Cons pos states)
  then obtain st1 where st1: "step_pos plan name is_dir pos st = Some st1" "step_loop plan name is_dir states st1 = Some st'"
    by (auto split: bind_splits)
  show ?case
  proof (cases "st1 = st")
    case True
    with Cons st1 show ?thesis by blast
  next
    case False
    from step_pos_hidden [OF st1(1) False assms(3,4)] show ?thesis .
  qed
qed simp

lemma parse_component_Pattern: "parse_component raw = Pattern p \<Longrightarrow> p = raw"
proof -
  have "parse_component_loop raw acc chars = Pattern p \<Longrightarrow> p = raw" for acc chars
    by (induction raw acc chars rule: parse_component_loop.induct) (auto split: if_splits list.splits)
  then show "parse_component raw = Pattern p \<Longrightarrow> p = raw"
    by (auto simp: parse_component_def split: if_splits)
qed

section \<open>Properties\<close>

text \<open>
  C8. A compiled pattern decides the glob: from the initial states, going down any path of
  directories and asking about one more name emits it exactly when the whole path (the literal
  root, the directories, the name) matches the pattern; the root itself is emitted exactly when it
  matches; and nothing matches that does not lie at or below the root. No step panics.
\<close>

theorem plan_decides_glob:
  assumes "parse pattern ih = Some (Inr plan)"
  shows "(\<exists>states e t. descend (delta plan) (plan_initial plan) ns = Some states \<and>
      delta plan states n d = Some (e, t) \<and>
      e = glob_matches pattern ih (path_names (plan_root plan) @ ns @ [n])) \<and>
    plan_emit_root plan = glob_matches pattern ih (path_names (plan_root plan)) \<and>
    (\<forall>names. glob_matches pattern ih names \<longrightarrow> prefix (path_names (plan_root plan)) names)"
proof (intro conjI allI impI)
  have ok: "states_ok plan (plan_initial plan)"
    using parse_initial_valid [OF assms] parse_Ok [OF assms] by (metis states_ok_def)
  show "\<exists>states e t. descend (delta plan) (plan_initial plan) ns = Some states \<and>
      delta plan states n d = Some (e, t) \<and>
      e = glob_matches pattern ih (path_names (plan_root plan) @ ns @ [n])"
    using nfa.descend_emit [OF ok, of ns n d]
      parse_correct [OF assms, of "path_names (plan_root plan) @ ns @ [n]"] by auto
  show "plan_emit_root plan = glob_matches pattern ih (path_names (plan_root plan))"
    using parse_correct [OF assms, of "path_names (plan_root plan)"] by simp
  show "prefix (path_names (plan_root plan)) names" if "glob_matches pattern ih names" for names
    using parse_correct [OF assms, of names] that by auto
qed

definition demo_plan :: GlobPlan where
  "demo_plan = \<lparr>plan_patterns = [[Literal (lit ''d''), Pattern (lit ''*'')]],
     plan_root = lit ''/d'', plan_initial = [\<lparr>pos_pat = 0, pos_comp = 1\<rparr>],
     plan_emit_root = False, plan_include_hidden = False\<rparr>"

lemma parse_example: "parse (lit ''/d/*'') False = Some (Inr demo_plan)"
  by code_simp

theorem plan_decides_glob_witness:
  "\<exists>plan states e t. parse (lit ''/d/*'') False = Some (Inr plan) \<and>
     descend (delta plan) (plan_initial plan) [] = Some states \<and>
     delta plan states (lit ''x'') False = Some (e, t) \<and>
     e = glob_matches (lit ''/d/*'') False (path_names (plan_root plan) @ [] @ [lit ''x''])"
  using plan_decides_glob [OF parse_example, of "[]" "lit ''x''" False] parse_example by blast

text \<open>What cannot be parsed: a group that is not closed, or an expansion in which \<^verbatim>\<open>**\<close> is more than one component.\<close>

definition unparseable :: "rstring \<Rightarrow> bool" where
  "unparseable pattern \<longleftrightarrow> brace_depth 0 pattern \<noteq> 0 \<or>
     (case expand_braces pattern of
        Some (Inr es) \<Rightarrow> list_ex (\<lambda>e. 1 < count_list (path_names e) (lit ''**'')) es
      | _ \<Rightarrow> False)"

lemma crawl_count_names: "crawl_count (components_of e) = count_list (path_names e) (lit ''**'')"
proof -
  have "parse_component_loop raw acc chars \<noteq> Crawl" for raw acc chars
    by (induction raw acc chars rule: parse_component_loop.induct) (auto split: list.splits)
  then have "parse_component raw = Crawl \<longleftrightarrow> raw = lit ''**''" for raw by (simp add: parse_component_def del: lit_Cons)
  then have "length (filter (\<lambda>c. c = Crawl) (map parse_component names)) = count_list names (lit ''**'')" for names
    by (induction names) (simp_all del: lit_Cons)
  then show ?thesis by (simp add: crawl_count_def components_of_def del: lit_Cons)
qed

text \<open>
  C34. Parsing never panics and always ends. It fails exactly when the pattern is unparseable: a brace
  group is left open, or some expansion has more than one component \<^verbatim>\<open>**\<close>, next to each other or not;
  and then with an invalid-path error. Otherwise the plan has the components of every expansion, in
  order, and can be stepped from its initial states without a panic.
\<close>

theorem parse_outcome:
  "case parse pattern ih of
     None \<Rightarrow> False
   | Some (Inl err) \<Rightarrow> unparseable pattern \<and> (\<exists>msg. err = InvalidPath msg)
   | Some (Inr plan) \<Rightarrow> \<not> unparseable pattern \<and>
       (\<exists>es. expand_braces pattern = Some (Inr es) \<and> plan_patterns plan = map components_of es) \<and>
       plan_include_hidden plan = ih \<and> states_ok plan (plan_initial plan)"
proof (cases pattern ih rule: parse_cases)
  case (braces e)
  then show ?thesis using expand_braces_Err_iff [of pattern] expand_braces_Inl by (auto simp: unparseable_def)
next
  case (crawls es e)
  then show ?thesis using parse_patterns_Inl [OF crawls(2)]
    by (auto simp: unparseable_def list_ex_iff crawl_count_names simp del: lit_Cons)
next
  case (plan es pats plan)
  have "states_ok plan (plan_initial plan)" "plan_include_hidden plan = ih" "plan_patterns plan = map components_of es"
    using parse_initial_valid [OF plan(3)] parse_Ok [OF plan(3)] plan(1) by (metis states_ok_def option.inject sum.inject(2))+
  moreover have "brace_depth 0 pattern = 0"
    using expand_braces_Err_iff [of pattern] plan(1) by simp
  moreover have "\<forall>e \<in> set es. \<not> 1 < count_list (path_names e) (lit ''**'')"
    using plan(2) by (auto simp: parse_patterns_Inr crawl_count_names simp del: lit_Cons)
  ultimately show ?thesis using plan(1,3) by (auto simp: unparseable_def list_ex_iff simp del: lit_Cons)
qed

text \<open>
  One step is a derivative: on valid states it does not panic, emits a name exactly when the
  states accept it alone, and goes on with duplicate-free valid states that accept what the old
  ones accept below that name; below a file there is nothing to accept.
\<close>

theorem step_derivative:
  assumes "plan_wf plan" and "list_all (valid_pos plan) states"
  shows "\<exists>st. step plan states name is_dir = Some st \<and>
    emit st = accepts plan states [name] \<and>
    distinct (next_states st) \<and> list_all (valid_pos plan) (next_states st) \<and>
    (\<forall>n ns. accepts plan (next_states st) (n # ns) = (is_dir \<and> accepts plan states (name # n # ns)))"
  using step_spec [OF assms, of name is_dir] by (metis list.distinct(1))

theorem step_derivative_witness:
  "\<exists>plan st. plan_patterns plan = [[Crawl, Pattern (lit ''?'')]] \<and>
    step plan [\<lparr>pos_pat = 0, pos_comp = 0\<rparr>] (lit ''x'') True = Some st \<and>
    emit st = accepts plan [\<lparr>pos_pat = 0, pos_comp = 0\<rparr>] [lit ''x'']"
  using step_derivative [of "\<lparr>plan_patterns = [[Crawl, Pattern (lit ''?'')]], plan_root = lit ''/'',
     plan_initial = [\<lparr>pos_pat = 0, pos_comp = 0\<rparr>], plan_emit_root = False, plan_include_hidden = False\<rparr>"
     "[\<lparr>pos_pat = 0, pos_comp = 0\<rparr>]" "lit ''x''" True]
  by (auto simp: plan_wf_def single_crawls_def valid_pos_def less_Suc_eq intro!: exI)

text \<open>
  C33. Hidden names are never matched by accident. When hidden entries are not included, going down any
  path with the plan and asking about a hidden name, the plan neither emits it nor has a state to go
  on with below it, unless some component of the pattern spells the name out: as a literal, or as a
  pattern that matches it and begins with a dot or an underscore, escaped or not. Wildcards and \<^verbatim>\<open>**\<close> do not.
\<close>

theorem hidden_names_are_explicit:
  assumes "parse pattern False = Some (Inr plan)" and "descend (delta plan) (plan_initial plan) ns = Some states"
    and "delta plan states n is_dir = Some (e, states')" and "e \<or> states' \<noteq> []" and "is_hidden n"
  shows "\<exists>es x raw. expand_braces pattern = Some (Inr es) \<and> x \<in> set es \<and> raw \<in> set (path_names x) \<and>
    (parse_component raw = Literal n \<or> explicit_hidden_prefix raw \<and> pattern_matches raw n)"
proof -
  from assms(1) obtain es where es: "expand_braces pattern = Some (Inr es)" "plan_patterns plan = map components_of es"
    and shown: "\<not> plan_include_hidden plan" by (rule parse_Ok) simp
  from assms(3,4) obtain st where st: "step_loop plan n is_dir states \<lparr>emit = False, next_states = []\<rparr> = Some st"
    and "emit st \<or> next_states st \<noteq> []" by (auto simp: delta_def step_def)
  from this(2) have "st \<noteq> \<lparr>emit = False, next_states = []\<rparr>" by auto
  from step_loop_hidden [OF st this shown assms(5)] obtain x raw where "x \<in> set es" "raw \<in> set (path_names x)"
    "spells (parse_component raw) n" by (auto simp: es(2) components_of_def)
  with es(1) parse_component_Pattern show ?thesis unfolding spells_def by blast
qed

theorem hidden_names_are_explicit_witness:
  "\<exists>es x raw. expand_braces (lit ''/_*'') = Some (Inr es) \<and> x \<in> set es \<and> raw \<in> set (path_names x) \<and>
    (parse_component raw = Literal (lit ''_x'') \<or> explicit_hidden_prefix raw \<and> pattern_matches raw (lit ''_x''))"
proof -
  let ?plan = "\<lparr>plan_patterns = [[Pattern (lit ''_*'')]], plan_root = lit ''/'', plan_initial = [\<lparr>pos_pat = 0, pos_comp = 0\<rparr>],
     plan_emit_root = False, plan_include_hidden = False\<rparr>"
  have "parse (lit ''/_*'') False = Some (Inr ?plan)" "delta ?plan [\<lparr>pos_pat = 0, pos_comp = 0\<rparr>] (lit ''_x'') False = Some (True, [])"
    by code_simp+
  from hidden_names_are_explicit [OF this(1) _ this(2), of "[]"] show ?thesis by (simp add: is_hidden_def)
qed

text \<open>
  Compiling a component without wildcards to a literal comparison is sound: it accepts the
  name the pattern matcher would accept, hidden-name rule included.
\<close>

theorem literal_components_are_sound:
  assumes "parse_component raw = Literal l" and "tokens raw \<noteq> None"
  shows "comp_matches ih (Literal l) name = comp_matches ih (Pattern raw) name"
  using literal_component_is_pattern [OF assms] by simp

theorem literal_components_are_sound_witness:
  "comp_matches False (Literal (lit ''_*'')) (lit ''_*'') = comp_matches False (Pattern (lit (''_'' @ [CHR 0x5C] @ ''*''))) (lit ''_*'')"
  by (rule literal_components_are_sound; code_simp)

end
