(* ===== verification/Walk.thy ===== *)
theory Walk
  imports Worklist Glob_Plan
begin

text \<open>
  The two walks of \<^verbatim>\<open>hdfs-bridge/src/client.rs\<close>: \<^verbatim>\<open>stream_walk\<close>, a listing that may be
  recursive, and \<^verbatim>\<open>glob_walk\<close>, guided by a compiled pattern. Both hand the scheduler of
  \<open>Worklist\<close> what they do with one completed listing.

  The RPCs \<^verbatim>\<open>client.list_status\<close> and \<^verbatim>\<open>client.get_file_info\<close> are those of
  \<^verbatim>\<open>hdfs-native\<close>: parameters \<open>ls\<close> and \<open>info\<close> of the walks. What the theorems need of them is
  stated by \<open>finite_tree\<close> (no infinite descent) and \<open>tree_paths\<close> (a listed child is one name
  below the directory).
\<close>

section \<open>Data\<close>

record FileStatus =
  fs_path :: rstring
  fs_length :: usize
  fs_isdir :: bool
  fs_permission :: u16
  fs_owner :: rstring
  fs_group :: rstring
  fs_modification_time :: u64
  fs_access_time :: u64
  fs_replication :: "u32 option"
  fs_blocksize :: "u64 option"

record WalkOptions =
  skip_permission_errors :: bool
  include_hidden :: bool

type_synonym list_rpc = "rstring \<Rightarrow> hdfs_error + FileStatus list"
type_synonym info_rpc = "rstring \<Rightarrow> hdfs_error + FileStatus"
type_synonym stream_job = "rstring \<times> bool"
type_synonym glob_job = "rstring \<times> Pos list \<times> bool"

text \<open>\<^verbatim>\<open>child.path.rsplit_once('/').map(|(_, n)| n).unwrap_or(child.path.as_str())\<close>\<close>

definition child_name :: "FileStatus \<Rightarrow> rstring" where
  "child_name child = after_last ch_slash (fs_path child)"

definition is_not_found :: "hdfs_error \<Rightarrow> bool" where
  "is_not_found e = (case e of FileNotFound _ \<Rightarrow> True | _ \<Rightarrow> False)"

section \<open>Listing\<close>

text \<open>The loop of \<^verbatim>\<open>stream_walk\<close> over the children of one listing.\<close>

fun stream_children ::
  "WalkOptions \<Rightarrow> bool \<Rightarrow> rstring \<Rightarrow> FileStatus list \<Rightarrow> (stream_job, FileStatus, hdfs_error) visit_result" where
  "stream_children options recursive path [] = \<lparr>outs = [], jobs = [], ending = Go\<rparr>"
| "stream_children options recursive path (child # children) =
     (let r = stream_children options recursive path children
      in if \<not> include_hidden options \<and> fs_path child \<noteq> path \<and> is_hidden (child_name child) then r
         else r\<lparr>outs := child # outs r,
                jobs := (if recursive \<and> fs_isdir child then (fs_path child, False) # jobs r else jobs r)\<rparr>)"

definition stream_prune :: "WalkOptions \<Rightarrow> bool \<Rightarrow> hdfs_error \<Rightarrow> bool" where
  "stream_prune options is_root e =
     (\<not> is_root \<and> (is_not_found e \<or> skip_permission_errors options \<and> is_permission e))"

text \<open>One completed listing of \<^verbatim>\<open>stream_walk\<close>.\<close>

definition stream_visit ::
  "list_rpc \<Rightarrow> WalkOptions \<Rightarrow> bool \<Rightarrow> stream_job \<Rightarrow> (stream_job, FileStatus, hdfs_error) visit_result" where
  "stream_visit ls options recursive job =
     (case job of (path, is_root) \<Rightarrow>
        (case ls path of
           Inr children \<Rightarrow> stream_children options recursive path children
         | Inl e \<Rightarrow> \<lparr>outs = [], jobs = [],
                    ending = (if stream_prune options is_root e then Go else Fail e)\<rparr>))"

definition stream_start :: "rstring \<Rightarrow> (stream_job, FileStatus, hdfs_error) walk_state" where
  "stream_start root = \<lparr>pending = [(root, True)], in_flight = [], sent = [], status = Running\<rparr>"

definition stream_walk ::
  "list_rpc \<Rightarrow> rstring \<Rightarrow> bool \<Rightarrow> nat \<Rightarrow> WalkOptions \<Rightarrow> nat list \<Rightarrow> (stream_job, FileStatus, hdfs_error) walk_state" where
  "stream_walk ls root recursive max_parallelism options ks =
     run_schedule (stream_visit ls options recursive) max_parallelism ks (stream_start root)"

section \<open>Globbing\<close>

text \<open>The loop of \<^verbatim>\<open>glob_walk\<close> over the children of one listing; a panic of \<open>step\<close> ends the task.\<close>

fun glob_children ::
  "GlobPlan \<Rightarrow> rstring \<Rightarrow> Pos list \<Rightarrow> FileStatus list \<Rightarrow> (glob_job, FileStatus, hdfs_error) visit_result" where
  "glob_children plan path states [] = \<lparr>outs = [], jobs = [], ending = Go\<rparr>"
| "glob_children plan path states (child # children) =
     (if fs_path child = path then glob_children plan path states children
      else case step plan states (child_name child) (fs_isdir child) of
          None \<Rightarrow> \<lparr>outs = [], jobs = [], ending = Panic\<rparr>
        | Some st \<Rightarrow>
            (let r = glob_children plan path states children
             in r\<lparr>outs := (if emit st then child # outs r else outs r),
                  jobs := (if fs_isdir child \<and> next_states st \<noteq> []
                           then (fs_path child, next_states st, False) # jobs r else jobs r)\<rparr>))"

definition glob_prune :: "WalkOptions \<Rightarrow> bool \<Rightarrow> hdfs_error \<Rightarrow> bool" where
  "glob_prune options is_root e =
     (is_not_found e \<or> \<not> is_root \<and> skip_permission_errors options \<and> is_permission e)"

definition glob_visit ::
  "list_rpc \<Rightarrow> GlobPlan \<Rightarrow> WalkOptions \<Rightarrow> glob_job \<Rightarrow> (glob_job, FileStatus, hdfs_error) visit_result" where
  "glob_visit ls plan options job =
     (case job of (path, states, is_root) \<Rightarrow>
        (case ls path of
           Inr children \<Rightarrow> glob_children plan path states children
         | Inl e \<Rightarrow> \<lparr>outs = [], jobs = [],
                    ending = (if glob_prune options is_root e then Go else Fail e)\<rparr>))"

text \<open>What \<^verbatim>\<open>glob_walk\<close> does before its loop: the root itself, then the first directory.\<close>

definition glob_start :: "info_rpc \<Rightarrow> GlobPlan \<Rightarrow> (glob_job, FileStatus, hdfs_error) walk_state" where
  "glob_start info plan =
     (let pend = (if plan_initial plan = [] then [] else [(plan_root plan, plan_initial plan, True)])
      in if plan_emit_root plan
         then (case info (plan_root plan) of
                 Inr st \<Rightarrow> \<lparr>pending = pend, in_flight = [], sent = [Inr st], status = Running\<rparr>
               | Inl e \<Rightarrow> if is_not_found e
                   then \<lparr>pending = pend, in_flight = [], sent = [], status = Running\<rparr>
                   else \<lparr>pending = [], in_flight = [], sent = [Inl e], status = Failed\<rparr>)
         else \<lparr>pending = pend, in_flight = [], sent = [], status = Running\<rparr>)"

definition glob_walk ::
  "list_rpc \<Rightarrow> info_rpc \<Rightarrow> GlobPlan \<Rightarrow> nat \<Rightarrow> WalkOptions \<Rightarrow> nat list \<Rightarrow> (glob_job, FileStatus, hdfs_error) walk_state" where
  "glob_walk ls info plan max_parallelism options ks =
     run_schedule (glob_visit ls plan options) max_parallelism ks (glob_start info plan)"

section \<open>The namespace below a directory\<close>

definition dir_child :: "list_rpc \<Rightarrow> rstring \<Rightarrow> rstring \<Rightarrow> bool" where
  "dir_child ls p' p \<longleftrightarrow> (\<exists>cs. ls p = Inr cs \<and> (\<exists>c \<in> set cs. fs_isdir c \<and> fs_path c = p'))"

abbreviation dirs_below :: "list_rpc \<Rightarrow> rstring \<Rightarrow> rstring \<Rightarrow> bool" where
  "dirs_below ls \<equiv> (\<lambda>p p'. dir_child ls p' p)\<^sup>*\<^sup>*"

text \<open>There is no infinite descent below \<open>root\<close>.\<close>

definition finite_tree :: "list_rpc \<Rightarrow> rstring \<Rightarrow> bool" where
  "finite_tree ls root \<longleftrightarrow> Wellfounded.accp (dir_child ls) root"

text \<open>A listed entry is the listed path itself (a file) or one name below it.\<close>

definition one_below :: "rstring \<Rightarrow> FileStatus \<Rightarrow> bool" where
  "one_below p c \<longleftrightarrow> (\<exists>q n. fs_path c = q @ ch_slash # n \<and> path_names q = path_names p \<and>
     n \<noteq> [] \<and> ch_slash \<notin> set n)"

definition tree_paths :: "list_rpc \<Rightarrow> bool" where
  "tree_paths ls \<longleftrightarrow> (\<forall>p cs. ls p = Inr cs \<longrightarrow> (\<forall>c \<in> set cs. fs_path c = p \<or> one_below p c))"

text \<open>The entries that successful listings below \<open>root\<close> show.\<close>

definition tree_entry :: "list_rpc \<Rightarrow> rstring \<Rightarrow> FileStatus \<Rightarrow> bool" where
  "tree_entry ls root c \<longleftrightarrow>
     (\<exists>p cs. dirs_below ls root p \<and> ls p = Inr cs \<and> c \<in> set cs \<and> fs_path c \<noteq> p)"

lemma one_below_names:
  "one_below p c \<Longrightarrow> path_names (fs_path c) = path_names p @ [child_name c]"
  by (auto simp: one_below_def child_name_def after_last_append path_names_simps path_names_single)

lemma tree_paths_names:
  "tree_paths ls \<Longrightarrow> ls p = Inr cs \<Longrightarrow> c \<in> set cs \<Longrightarrow> fs_path c \<noteq> p \<Longrightarrow>
   path_names (fs_path c) = path_names p @ [child_name c]"
  unfolding tree_paths_def by (blast intro: one_below_names)

lemma finite_tree_child: "finite_tree ls p \<Longrightarrow> dir_child ls p' p \<Longrightarrow> finite_tree ls p'"
  unfolding finite_tree_def by (rule accp_downward)

lemma finite_tree_induct [consumes 1, case_names dir]:
  assumes "finite_tree ls p"
    and "\<And>p. finite_tree ls p \<Longrightarrow> (\<And>p'. dir_child ls p' p \<Longrightarrow> P p') \<Longrightarrow> P p"
  shows "P p"
  using assms(1) unfolding finite_tree_def
  by (rule accp_induct) (auto intro: assms(2) simp: finite_tree_def)

lemma finite_tree_not_self: "finite_tree ls p \<Longrightarrow> \<not> dir_child ls p p"
  by (induction rule: finite_tree_induct) blast

lemma finite_tree_wf: "wf {(j', j). finite_tree ls (f j) \<and> dir_child ls (f j') (f j)}" (is "wf ?R")
proof (rule wfUNIVI)
  fix P x
  assume step: "\<forall>x. (\<forall>y. (y, x) \<in> ?R \<longrightarrow> P y) \<longrightarrow> P x"
  have "\<forall>j. f j = p \<longrightarrow> P j" if "finite_tree ls p" for p
    using that
  proof (induction rule: finite_tree_induct)
    case (dir p)
    show ?case
    proof (intro allI impI)
      fix j
      assume "f j = p"
      with dir have "\<forall>y. (y, j) \<in> ?R \<longrightarrow> P y" by auto
      with step show "P j" by blast
    qed
  qed
  then have "\<forall>y. (y, x) \<in> ?R \<longrightarrow> P y" using finite_tree_child by blast
  with step show "P x" by blast
qed

lemma finite_tree_below: "dirs_below ls root p \<Longrightarrow> finite_tree ls root \<Longrightarrow> finite_tree ls p"
  by (induction rule: rtranclp_induct) (auto intro: finite_tree_child)

section \<open>The scheduler's contract: listing\<close>

lemma stream_children_simps:
  "outs (stream_children options recursive path cs) =
     filter (\<lambda>c. include_hidden options \<or> fs_path c = path \<or> \<not> is_hidden (child_name c)) cs"
  "jobs (stream_children options recursive path cs) =
     map (\<lambda>c. (fs_path c, False)) (filter (\<lambda>c. recursive \<and> fs_isdir c) (outs (stream_children options recursive path cs)))"
  "ending (stream_children options recursive path cs) = Go"
  by (induction cs) (auto simp: Let_def)

lemma stream_visit_child:
  assumes "child_job (stream_visit ls options recursive) j j'"
  shows "dir_child ls (fst j') (fst j) \<and> snd j' = False"
  using assms by (cases j)
    (auto simp: stream_visit_def dir_child_def stream_children_simps split: sum.splits)

interpretation listing: scheduled "stream_visit ls options recursive" "\<lambda>j. finite_tree ls (fst j)"
  for ls options recursive
proof
  fix j j' :: stream_job
  assume "finite_tree ls (fst j)" "child_job (stream_visit ls options recursive) j j'"
  then show "finite_tree ls (fst j')"
    using stream_visit_child finite_tree_child by blast
next
  fix j :: stream_job
  show "ending (stream_visit ls options recursive j) \<noteq> Panic"
    by (auto simp: stream_visit_def stream_children_simps split: sum.splits prod.splits)
next
  show "wf {(j', j). finite_tree ls (fst j) \<and> child_job (stream_visit ls options recursive) j j'}"
    by (rule wf_subset [OF finite_tree_wf [of ls fst]]) (use stream_visit_child in blast)
qed

section \<open>The scheduler's contract: globbing\<close>

text \<open>The children of a listing, filtered by a matcher that does not panic.\<close>

definition stepped :: "GlobPlan \<Rightarrow> Pos list \<Rightarrow> FileStatus \<Rightarrow> Step" where
  "stepped plan states c = the (step plan states (child_name c) (fs_isdir c))"

lemma stepped_delta:
  assumes "states_ok plan states"
  shows "step plan states (child_name c) (fs_isdir c) = Some (stepped plan states c)"
    and "delta plan states (child_name c) (fs_isdir c) =
      Some (emit (stepped plan states c), next_states (stepped plan states c))"
  using nfa.delta_total [OF assms, of "child_name c" "fs_isdir c"]
  by (auto simp: delta_def stepped_def)

lemma glob_children_Cons:
  assumes "states_ok plan states"
  shows "glob_children plan path states (c # cs) =
    (if fs_path c = path then glob_children plan path states cs
     else let r = glob_children plan path states cs; st = stepped plan states c
       in r\<lparr>outs := (if emit st then c # outs r else outs r),
            jobs := (if fs_isdir c \<and> next_states st \<noteq> []
                     then (fs_path c, next_states st, False) # jobs r else jobs r)\<rparr>)"
  by (simp add: stepped_delta(1) [OF assms] Let_def)

lemma glob_children_simps:
  assumes "states_ok plan states"
  shows "outs (glob_children plan path states cs) =
     filter (\<lambda>c. fs_path c \<noteq> path \<and> emit (stepped plan states c)) cs"
    and "jobs (glob_children plan path states cs) =
     map (\<lambda>c. (fs_path c, next_states (stepped plan states c), False))
       (filter (\<lambda>c. fs_path c \<noteq> path \<and> fs_isdir c \<and> next_states (stepped plan states c) \<noteq> []) cs)"
    and "ending (glob_children plan path states cs) = Go"
  by (induction cs) (simp_all add: glob_children_Cons [OF assms] Let_def del: glob_children.simps(2))

definition glob_job_ok :: "list_rpc \<Rightarrow> GlobPlan \<Rightarrow> glob_job \<Rightarrow> bool" where
  "glob_job_ok ls plan job = (case job of (path, states, _) \<Rightarrow> finite_tree ls path \<and> states_ok plan states)"

lemma glob_job_ok_finite: "glob_job_ok ls plan j \<Longrightarrow> finite_tree ls (fst j)"
  by (simp add: glob_job_ok_def split: prod.splits)

lemma glob_visit_child:
  assumes "glob_job_ok ls plan j" and "child_job (glob_visit ls plan options) j j'"
  obtains cs c where "ls (fst j) = Inr cs" "c \<in> set cs" "fs_path c \<noteq> fst j" "fs_isdir c"
    "j' = (fs_path c, next_states (stepped plan (fst (snd j)) c), False)"
    "next_states (stepped plan (fst (snd j)) c) \<noteq> []"
  using assms by (cases j)
    (auto simp: glob_visit_def glob_job_ok_def glob_children_simps split: sum.splits)

lemma glob_visit_child_ok:
  assumes "glob_job_ok ls plan j" and "child_job (glob_visit ls plan options) j j'"
  shows "dir_child ls (fst j') (fst j) \<and> glob_job_ok ls plan j'"
proof -
  obtain cs c where c: "ls (fst j) = Inr cs" "c \<in> set cs" "fs_isdir c"
    "j' = (fs_path c, next_states (stepped plan (fst (snd j)) c), False)"
    using glob_visit_child [OF assms] by metis
  have j: "finite_tree ls (fst j)" "states_ok plan (fst (snd j))"
    using assms(1) by (auto simp: glob_job_ok_def split: prod.splits)
  have "dir_child ls (fst j') (fst j)" using c by (auto simp: dir_child_def)
  moreover have "states_ok plan (next_states (stepped plan (fst (snd j)) c))"
    by (rule nfa.delta_valid [OF j(2) stepped_delta(2) [OF j(2)]])
  ultimately show ?thesis
    using finite_tree_child [OF j(1)] c(4) by (simp add: glob_job_ok_def)
qed

interpretation globbing: scheduled "glob_visit ls plan options" "glob_job_ok ls plan"
  for ls plan options
proof
  fix j j' :: glob_job
  assume "glob_job_ok ls plan j" "child_job (glob_visit ls plan options) j j'"
  then show "glob_job_ok ls plan j'" using glob_visit_child_ok by blast
next
  fix j :: glob_job
  assume "glob_job_ok ls plan j"
  then show "ending (glob_visit ls plan options j) \<noteq> Panic"
    by (auto simp: glob_visit_def glob_job_ok_def glob_children_simps split: sum.splits prod.splits)
next
  have "{(j', j). glob_job_ok ls plan j \<and> child_job (glob_visit ls plan options) j j'} \<subseteq>
      {(j', j). finite_tree ls (fst j) \<and> dir_child ls (fst j') (fst j)}"
    using glob_visit_child_ok glob_job_ok_finite by blast
  then show "wf {(j', j). glob_job_ok ls plan j \<and> child_job (glob_visit ls plan options) j j'}"
    by (rule wf_subset [OF finite_tree_wf [of ls fst]])
qed

section \<open>What a glob finds\<close>

lemma stepped_spec:
  assumes "states_ok plan states"
  shows "emit (stepped plan states c) \<longleftrightarrow> accepts plan states [child_name c]"
    and "ms \<noteq> [] \<Longrightarrow> accepts plan (next_states (stepped plan states c)) ms \<longleftrightarrow>
      fs_isdir c \<and> accepts plan states (child_name c # ms)"
    and "states_ok plan (next_states (stepped plan states c))"
  using nfa.delta_emit [OF assms stepped_delta(2) [OF assms]]
    nfa.delta_rest [OF assms stepped_delta(2) [OF assms]]
    nfa.delta_valid [OF assms stepped_delta(2) [OF assms]] by blast+

lemma dir_entry:
  assumes "finite_tree ls p" "tree_paths ls" "ls p = Inr cs" "c \<in> set cs" "fs_isdir c"
  shows "dir_child ls (fs_path c) p" "fs_path c \<noteq> p"
    "path_names (fs_path c) = path_names p @ [child_name c]"
proof -
  show "dir_child ls (fs_path c) p" using assms by (auto simp: dir_child_def)
  then show "fs_path c \<noteq> p" using finite_tree_not_self [OF assms(1)] by auto
  with assms show "path_names (fs_path c) = path_names p @ [child_name c]"
    by (intro tree_paths_names)
qed

text \<open>A queued directory lies below the root and its states are the residual of the path to it.\<close>

definition residual_job :: "list_rpc \<Rightarrow> GlobPlan \<Rightarrow> glob_job \<Rightarrow> glob_job \<Rightarrow> bool" where
  "residual_job ls plan j0 j \<longleftrightarrow>
     dirs_below ls (fst j0) (fst j) \<and> glob_job_ok ls plan j \<and>
     (\<exists>ns. path_names (fst j) = path_names (fst j0) @ ns \<and>
        (\<forall>ms. ms \<noteq> [] \<longrightarrow> accepts plan (fst (snd j)) ms \<longleftrightarrow> accepts plan (fst (snd j0)) (ns @ ms)))"

lemma glob_reach_residual:
  assumes "tree_paths ls" "glob_job_ok ls plan j0"
    and "(child_job (glob_visit ls plan options))\<^sup>*\<^sup>* j0 j"
  shows "residual_job ls plan j0 j"
  using assms(3)
proof (induction rule: rtranclp_induct)
  case base
  then show ?case using assms(2) by (simp add: residual_job_def)
next
  case (step j j')
  then have ok: "glob_job_ok ls plan j" and below: "dirs_below ls (fst j0) (fst j)"
    by (simp_all add: residual_job_def)
  have states: "states_ok plan (fst (snd j))" using ok by (auto simp: glob_job_ok_def split: prod.splits)
  from step.IH obtain ns where ns: "path_names (fst j) = path_names (fst j0) @ ns"
      "\<And>ms. ms \<noteq> [] \<Longrightarrow> accepts plan (fst (snd j)) ms \<longleftrightarrow> accepts plan (fst (snd j0)) (ns @ ms)"
    by (auto simp: residual_job_def)
  obtain cs c where c: "ls (fst j) = Inr cs" "c \<in> set cs" "fs_isdir c"
      "j' = (fs_path c, next_states (stepped plan (fst (snd j)) c), False)"
    using glob_visit_child [OF ok step.hyps(2)] by metis
  note entry = dir_entry [OF glob_job_ok_finite [OF ok] assms(1) c(1-3)]
  have "dirs_below ls (fst j0) (fst j')"
    using below entry(1) c(4) by (auto intro: rtranclp.rtrancl_into_rtrancl)
  moreover have "accepts plan (fst (snd j')) ms \<longleftrightarrow> accepts plan (fst (snd j0)) ((ns @ [child_name c]) @ ms)"
    if "ms \<noteq> []" for ms
    using stepped_spec(2) [OF states that, of c] ns(2) [of "child_name c # ms"] c(3,4) by simp
  moreover have "path_names (fst j') = path_names (fst j0) @ ns @ [child_name c]"
    using entry(3) ns(1) c(4) by simp
  ultimately show ?case
    using glob_visit_child_ok [OF ok step.hyps(2)] unfolding residual_job_def by blast
qed

text \<open>Conversely, every directory under which something can match is queued.\<close>

lemma glob_reach_complete:
  assumes tp: "tree_paths ls" and ok0: "glob_job_ok ls plan j0"
    and "dirs_below ls (fst j0) p"
  shows "\<exists>ns. path_names p = path_names (fst j0) @ ns \<and>
    (\<forall>ms. ms \<noteq> [] \<longrightarrow> accepts plan (fst (snd j0)) (ns @ ms) \<longrightarrow>
      (\<exists>j. fst j = p \<and> (child_job (glob_visit ls plan options))\<^sup>*\<^sup>* j0 j \<and> accepts plan (fst (snd j)) ms))"
  using assms(3)
proof (induction rule: rtranclp_induct)
  case base
  show ?case by (intro exI [of _ "[]"] conjI allI impI exI [of _ j0]) simp_all
next
  case (step p p')
  then obtain ns where ns: "path_names p = path_names (fst j0) @ ns"
      "\<And>ms. ms \<noteq> [] \<Longrightarrow> accepts plan (fst (snd j0)) (ns @ ms) \<Longrightarrow>
        \<exists>j. fst j = p \<and> (child_job (glob_visit ls plan options))\<^sup>*\<^sup>* j0 j \<and> accepts plan (fst (snd j)) ms"
    by blast
  from step.hyps(2) obtain cs c where c: "ls p = Inr cs" "c \<in> set cs" "fs_isdir c" "fs_path c = p'"
    by (auto simp: dir_child_def)
  have fin: "finite_tree ls p"
    using finite_tree_below [OF step.hyps(1)] ok0 glob_job_ok_finite by blast
  note entry = dir_entry [OF fin tp c(1-3)]
  have "\<exists>j. fst j = p' \<and> (child_job (glob_visit ls plan options))\<^sup>*\<^sup>* j0 j \<and> accepts plan (fst (snd j)) ms"
    if ms: "ms \<noteq> []" "accepts plan (fst (snd j0)) ((ns @ [child_name c]) @ ms)" for ms
  proof -
    obtain sts r where j: "(child_job (glob_visit ls plan options))\<^sup>*\<^sup>* j0 (p, sts, r)"
        "accepts plan sts (child_name c # ms)"
      using ns(2) [of "child_name c # ms"] ms by auto
    have "glob_job_ok ls plan (p, sts, r)"
      using glob_reach_residual [OF tp ok0 j(1)] by (simp add: residual_job_def)
    then have states: "states_ok plan sts" by (simp add: glob_job_ok_def)
    have acc: "accepts plan (next_states (stepped plan sts c)) ms"
      using stepped_spec(2) [OF states ms(1)] c(3) j(2) by simp
    then have "child_job (glob_visit ls plan options) (p, sts, r) (p', next_states (stepped plan sts c), False)"
      using c entry(2) by (auto simp: glob_visit_def glob_children_simps [OF states])
    with j(1) acc show ?thesis
      by (intro exI [of _ "(p', next_states (stepped plan sts c), False)"] conjI)
        (simp_all add: rtranclp.rtrancl_into_rtrancl)
  qed
  with ns(1) entry(3) c(4) show ?case by auto
qed

text \<open>The entries that the jobs below the root emit are the matching ones.\<close>

lemma glob_outs_iff:
  assumes tp: "tree_paths ls" and ok0: "glob_job_ok ls plan j0"
  shows "(\<exists>j \<in> job_reach (glob_visit ls plan options) {j0}. c \<in> set (outs (glob_visit ls plan options j))) \<longleftrightarrow>
    (\<exists>ns. tree_entry ls (fst j0) c \<and> path_names (fs_path c) = path_names (fst j0) @ ns \<and> ns \<noteq> [] \<and>
      accepts plan (fst (snd j0)) ns)" (is "?L \<longleftrightarrow> ?R")
proof
  assume ?L
  then obtain p sts r where j: "(child_job (glob_visit ls plan options))\<^sup>*\<^sup>* j0 (p, sts, r)"
      "c \<in> set (outs (glob_visit ls plan options (p, sts, r)))"
    by (auto simp: job_reach_def)
  from glob_reach_residual [OF tp ok0 j(1)] obtain ns where ns: "dirs_below ls (fst j0) p"
      "states_ok plan sts" "path_names p = path_names (fst j0) @ ns"
      "\<And>ms. ms \<noteq> [] \<Longrightarrow> accepts plan sts ms \<longleftrightarrow> accepts plan (fst (snd j0)) (ns @ ms)"
    by (auto simp: residual_job_def glob_job_ok_def)
  from j(2) obtain cs where cs: "ls p = Inr cs" "c \<in> set cs" "fs_path c \<noteq> p" "emit (stepped plan sts c)"
    by (auto simp: glob_visit_def glob_children_simps [OF ns(2)] split: sum.splits)
  then have "accepts plan (fst (snd j0)) (ns @ [child_name c])"
    using stepped_spec(1) [OF ns(2)] ns(4) by blast
  moreover have "path_names (fs_path c) = path_names (fst j0) @ ns @ [child_name c]"
    using tree_paths_names [OF tp cs(1-3)] ns(3) by simp
  moreover have "tree_entry ls (fst j0) c" using cs ns(1) by (auto simp: tree_entry_def)
  ultimately show ?R by blast
next
  assume ?R
  then obtain ns p cs where R: "path_names (fs_path c) = path_names (fst j0) @ ns"
      "accepts plan (fst (snd j0)) ns" "dirs_below ls (fst j0) p" "ls p = Inr cs" "c \<in> set cs" "fs_path c \<noteq> p"
    by (auto simp: tree_entry_def)
  from glob_reach_complete [OF tp ok0 R(3)] obtain ns' where ns': "path_names p = path_names (fst j0) @ ns'"
      "\<And>ms. ms \<noteq> [] \<Longrightarrow> accepts plan (fst (snd j0)) (ns' @ ms) \<Longrightarrow>
        \<exists>j. fst j = p \<and> (child_job (glob_visit ls plan options))\<^sup>*\<^sup>* j0 j \<and> accepts plan (fst (snd j)) ms"
    by blast
  have "path_names (fs_path c) = path_names p @ [child_name c]"
    using tree_paths_names [OF tp R(4-6)] .
  with R(1) ns'(1) have "ns = ns' @ [child_name c]" by simp
  then obtain sts r where j: "(child_job (glob_visit ls plan options))\<^sup>*\<^sup>* j0 (p, sts, r)"
      "accepts plan sts [child_name c]"
    using ns'(2) [of "[child_name c]"] R(2) by auto
  have states: "states_ok plan sts"
    using glob_reach_residual [OF tp ok0 j(1)] by (simp add: residual_job_def glob_job_ok_def)
  have "c \<in> set (outs (glob_visit ls plan options (p, sts, r)))"
    using R j(2) stepped_spec(1) [OF states]
    by (simp add: glob_visit_def glob_children_simps [OF states])
  with j(1) show ?L by (auto simp: job_reach_def)
qed

lemma dirs_below_names:
  assumes "tree_paths ls" "finite_tree ls root" "dirs_below ls root p"
  shows "\<exists>ns. path_names p = path_names root @ ns"
  using assms(3)
proof (induction rule: rtranclp_induct)
  case (step p p')
  then obtain cs c where "ls p = Inr cs" "c \<in> set cs" "fs_isdir c" "fs_path c = p'"
    by (auto simp: dir_child_def)
  with dir_entry(3) [OF finite_tree_below [OF step.hyps(1) assms(2)] assms(1)] step.IH show ?case
    by fastforce
qed simp

lemma tree_entry_names:
  assumes "tree_paths ls" "finite_tree ls root" "tree_entry ls root c"
  shows "\<exists>ns. ns \<noteq> [] \<and> path_names (fs_path c) = path_names root @ ns"
proof -
  from assms(3) obtain p cs where p: "dirs_below ls root p" "ls p = Inr cs" "c \<in> set cs" "fs_path c \<noteq> p"
    by (auto simp: tree_entry_def)
  with dirs_below_names [OF assms(1,2) p(1)] tree_paths_names [OF assms(1) p(2-4)] show ?thesis
    by fastforce
qed

text \<open>The states a glob walk starts from.\<close>

lemma glob_start_ok:
  assumes "parse pattern ih = Some (Inr plan)" "finite_tree ls (plan_root plan)"
  shows "\<forall>j \<in># todo (glob_start info plan). j = (plan_root plan, plan_initial plan, True)"
    and "glob_job_ok ls plan (plan_root plan, plan_initial plan, True)"
    and "globbing.ok_state ls plan (glob_start info plan)"
    and "well_sent (glob_start info plan)"
proof -
  have "plan_wf plan" using assms(1) by (rule parse_Ok)
  then show ok: "glob_job_ok ls plan (plan_root plan, plan_initial plan, True)"
    using assms parse_initial_valid by (simp add: glob_job_ok_def states_ok_def)
  show todo: "\<forall>j \<in># todo (glob_start info plan). j = (plan_root plan, plan_initial plan, True)"
    by (auto simp: glob_start_def todo_def Let_def split: sum.splits if_splits)
  have "status (glob_start info plan) \<noteq> Panicked"
    by (auto simp: glob_start_def Let_def split: sum.splits)
  with todo ok show "globbing.ok_state ls plan (glob_start info plan)"
    by (auto simp: globbing.ok_state_def)
  show "well_sent (glob_start info plan)"
    by (auto simp: well_sent_def glob_start_def Let_def split: sum.splits intro: exI [of _ "[x]" for x])
qed

lemma glob_start_sent:
  assumes "parse pattern ih = Some (Inr plan)" "status (glob_start info plan) = Running"
  shows "Inr c \<in> set (sent (glob_start info plan)) \<longleftrightarrow>
    glob_matches pattern ih (path_names (plan_root plan)) \<and> info (plan_root plan) = Inr c"
  using assms(2) parse_correct [OF assms(1), of "path_names (plan_root plan)"]
  by (auto simp: glob_start_def Let_def split: sum.splits if_splits)

lemma glob_walk_set:
  assumes parsed: "parse pattern ih = Some (Inr plan)"
    and ls: "tree_paths ls" "finite_tree ls (plan_root plan)" and n: "0 < n"
    and compl: "status (glob_walk ls info plan n options ks) = Completed"
  shows "Inr c \<in> set (sent (glob_walk ls info plan n options ks)) \<longleftrightarrow>
    tree_entry ls (plan_root plan) c \<and> glob_matches pattern ih (path_names (fs_path c)) \<or>
    glob_matches pattern ih (path_names (plan_root plan)) \<and> info (plan_root plan) = Inr c"
proof -
  let ?s = "glob_start info plan" and ?j0 = "(plan_root plan, plan_initial plan, True)"
  let ?visit = "glob_visit ls plan options"
  have run: "status ?s = Running"
    using compl by (auto simp: glob_walk_def run_schedule_stopped glob_start_def Let_def split: sum.splits if_splits)
  then obtain M where M: "yields_all ?visit (todo ?s) M"
    using completed_yields [OF n _ compl [unfolded glob_walk_def]] by blast
  have "mset (oks (sent (glob_walk ls info plan n options ks))) = mset (oks (sent ?s)) + M"
    using run_yields(2) [OF n run M] compl by (simp add: glob_walk_def)
  then have "Inr c \<in> set (sent (glob_walk ls info plan n options ks)) \<longleftrightarrow>
      Inr c \<in> set (sent ?s) \<or> c \<in># M"
    by (metis in_set_oks set_mset_mset set_mset_union Un_iff)
  also have "c \<in># M \<longleftrightarrow> tree_entry ls (plan_root plan) c \<and> glob_matches pattern ih (path_names (fs_path c))"
  proof -
    have "c \<in># M \<longleftrightarrow> plan_initial plan \<noteq> [] \<and>
        (\<exists>j \<in> job_reach ?visit {?j0}. c \<in> set (outs (?visit j)))"
      using run unfolding yields_all_reach(1) [OF M]
      by (auto simp: glob_start_def todo_def job_reach_insert(2) Let_def split: sum.splits if_splits)
    also have "\<dots> \<longleftrightarrow> plan_initial plan \<noteq> [] \<and> (\<exists>ns. tree_entry ls (plan_root plan) c \<and>
        path_names (fs_path c) = path_names (plan_root plan) @ ns \<and> ns \<noteq> [] \<and> accepts plan (plan_initial plan) ns)"
      using glob_outs_iff [OF ls(1) glob_start_ok(2) [OF parsed ls(2)]] by simp
    also have "\<dots> \<longleftrightarrow> tree_entry ls (plan_root plan) c \<and> glob_matches pattern ih (path_names (fs_path c))"
      using parse_correct [OF parsed, of "path_names (fs_path c)"] tree_entry_names [OF ls, of c]
      by (cases "plan_initial plan = []") (auto split: if_splits)
    finally show ?thesis .
  qed
  finally show ?thesis using glob_start_sent [OF parsed run] by blast
qed

section \<open>How walks end\<close>

text \<open>No listing at or below \<open>root\<close> fails with an error that is not pruned.\<close>

definition clear_below :: "(bool \<Rightarrow> hdfs_error \<Rightarrow> bool) \<Rightarrow> list_rpc \<Rightarrow> rstring \<Rightarrow> bool" where
  "clear_below prune ls root \<longleftrightarrow>
     (\<forall>e. ls root = Inl e \<longrightarrow> prune True e) \<and>
     (\<forall>p p' e. dirs_below ls root p \<longrightarrow> dir_child ls p' p \<longrightarrow> ls p' = Inl e \<longrightarrow> prune False e)"

lemma glob_visit_go:
  assumes "glob_job_ok ls plan j"
  shows "ending (glob_visit ls plan options j) =
    (case ls (fst j) of Inr _ \<Rightarrow> Go | Inl e \<Rightarrow> if glob_prune options (snd (snd j)) e then Go else Fail e)"
  using assms by (cases j) (auto simp: glob_visit_def glob_job_ok_def glob_children_simps split: sum.splits)

text \<open>Only the first job carries the root flag.\<close>

lemma glob_reach_flag:
  assumes "glob_job_ok ls plan j0" "(child_job (glob_visit ls plan options))\<^sup>*\<^sup>* j0 j"
  shows "glob_job_ok ls plan j \<and>
    (j = j0 \<or> \<not> snd (snd j) \<and> (\<exists>p. dirs_below ls (fst j0) p \<and> dir_child ls (fst j) p))"
  using assms(2)
proof (induction rule: rtranclp_induct)
  case (step j j')
  then have ok: "glob_job_ok ls plan j" by simp
  have "dirs_below ls (fst j0) (fst j)"
    using step.IH by (auto intro: rtranclp.rtrancl_into_rtrancl)
  moreover have "\<not> snd (snd j')" using glob_visit_child [OF ok step.hyps(2)] by (metis snd_conv)
  ultimately show ?case using glob_visit_child_ok [OF ok step.hyps(2)] by blast
qed (simp add: assms(1))

lemma glob_walk_ends:
  assumes "parse pattern ih = Some (Inr plan)" "finite_tree ls (plan_root plan)" "0 < n"
  shows "\<exists>m. \<forall>ks. m \<le> length ks \<longrightarrow> status (glob_walk ls info plan n options ks) \<in> {Completed, Failed}"
proof -
  note ok = glob_start_ok(3) [OF assms(1,2), of info]
  obtain m where m: "\<And>ks. m \<le> length ks \<Longrightarrow>
      status (run_schedule (glob_visit ls plan options) n ks (glob_start info plan)) \<noteq> Running"
    using globbing.always_ends [OF assms(3) ok] by blast
  have "status (glob_walk ls info plan n options ks) \<in> {Completed, Failed}" if "m \<le> length ks" for ks
  proof (rule walk_status_ended)
    show "status (glob_walk ls info plan n options ks) \<noteq> Running"
      using m [OF that] by (simp add: glob_walk_def)
    show "status (glob_walk ls info plan n options ks) \<noteq> Panicked"
      using globbing.run_ok [OF assms(3) ok] by (simp add: glob_walk_def globbing.ok_state_def)
    show "status (glob_walk ls info plan n options ks) \<noteq> Dropped"
      unfolding glob_walk_def
      by (rule run_schedule_not_dropped) (simp add: glob_start_def Let_def split: sum.splits)
  qed
  then show ?thesis by blast
qed

lemma glob_walk_clear:
  assumes parsed: "parse pattern ih = Some (Inr plan)" and fin: "finite_tree ls (plan_root plan)" and n: "0 < n"
    and clear: "clear_below (glob_prune options) ls (plan_root plan)"
    and root: "\<And>e. plan_emit_root plan \<Longrightarrow> info (plan_root plan) = Inl e \<Longrightarrow> is_not_found e"
  shows "status (glob_walk ls info plan n options ks) \<in> {Running, Completed}"
proof -
  let ?visit = "glob_visit ls plan options" and ?j0 = "(plan_root plan, plan_initial plan, True)"
  have run: "status (glob_start info plan) = Running"
    using root by (auto simp: glob_start_def Let_def split: sum.splits)
  have go: "ending (?visit j) = Go" if "(child_job ?visit)\<^sup>*\<^sup>* ?j0 j" for j
  proof -
    note flag = glob_reach_flag [OF glob_start_ok(2) [OF parsed fin] that]
    have "glob_prune options (snd (snd j)) e" if e: "ls (fst j) = Inl e" for e
    proof (cases "j = ?j0")
      case True
      then show ?thesis using clear e by (simp add: clear_below_def)
    next
      case False
      with flag obtain p where "dirs_below ls (plan_root plan) p" "dir_child ls (fst j) p" "\<not> snd (snd j)" by auto
      with clear e show ?thesis unfolding clear_below_def by simp
    qed
    with glob_visit_go [of ls plan j options] flag show ?thesis by (cases "ls (fst j)") simp_all
  qed
  have start: "\<And>j. j \<in># todo (glob_start info plan) \<Longrightarrow> j = ?j0"
    using glob_start_ok(1) [OF parsed fin, of info] by (rule bspec)
  have "\<exists>M. yields_all ?visit (todo (glob_start info plan)) M"
  proof (rule globbing.yields_all_exists)
    show "\<forall>j \<in># todo (glob_start info plan). glob_job_ok ls plan j"
      using start glob_start_ok(2) [OF parsed fin] by metis
    show "\<forall>i \<in> job_reach ?visit (set_mset (todo (glob_start info plan))). ending (?visit i) = Go"
    proof
      fix i
      assume "i \<in> job_reach ?visit (set_mset (todo (glob_start info plan)))"
      then obtain j where "j \<in># todo (glob_start info plan)" "(child_job ?visit)\<^sup>*\<^sup>* j i"
        unfolding job_reach_def by blast
      with start show "ending (?visit i) = Go" using go by metis
    qed
  qed
  then show ?thesis unfolding glob_walk_def using run_yields(1) [OF n run] by blast
qed

text \<open>An error on the literal root of the pattern that is not about a missing path ends the walk.\<close>

lemma glob_walk_root_error:
  assumes "plan_initial plan \<noteq> []" and "\<not> plan_emit_root plan"
    and "ls (plan_root plan) = Inl e" and "\<not> is_not_found e" and "0 < n"
  shows "status (glob_walk ls info plan n options (k # ks)) = Failed"
    and "sent (glob_walk ls info plan n options (k # ks)) = [Inl e]"
  using assms by (simp_all add: glob_walk_def glob_start_def poll_def glob_visit_def glob_prune_def
      messages_def end_status_def fill.simps run_schedule_stopped)

section \<open>No entry twice\<close>

text \<open>The entries of a listing have different names.\<close>

definition distinct_listings :: "list_rpc \<Rightarrow> bool" where
  "distinct_listings ls \<longleftrightarrow> (\<forall>p cs. ls p = Inr cs \<longrightarrow> distinct (map (\<lambda>c. path_names (fs_path c)) cs))"

abbreviation entry_names :: "FileStatus \<Rightarrow> rstring list" where
  "entry_names c \<equiv> path_names (fs_path c)"

definition glob_tree_ok :: "list_rpc \<Rightarrow> GlobPlan \<Rightarrow> glob_job \<Rightarrow> bool" where
  "glob_tree_ok ls plan j \<longleftrightarrow> glob_job_ok ls plan j \<and> tree_paths ls \<and> distinct_listings ls"

lemma distinct_map_filter: "distinct (map f xs) \<Longrightarrow> distinct (map f (filter P xs))"
  by (induction xs) auto

lemma glob_visit_cases:
  assumes "glob_tree_ok ls plan j"
  obtains (err) "outs (glob_visit ls plan options j) = []" "jobs (glob_visit ls plan options j) = []"
  | (listed) cs P Q where "ls (fst j) = Inr cs" "outs (glob_visit ls plan options j) = filter P cs"
      "map fst (jobs (glob_visit ls plan options j)) = map fs_path (filter Q cs)"
      "\<And>c. P c \<or> Q c \<Longrightarrow> fs_path c \<noteq> fst j"
proof (cases "ls (fst j)")
  case (Inl e)
  then show ?thesis by (cases j, intro err) (simp_all add: glob_visit_def)
next
  case (Inr cs)
  obtain p sts r where j: "j = (p, sts, r)" by (cases j)
  then have "states_ok plan sts" using assms by (simp add: glob_tree_ok_def glob_job_ok_def)
  then have "outs (glob_visit ls plan options j) = filter (\<lambda>c. fs_path c \<noteq> p \<and> emit (stepped plan sts c)) cs"
    "map fst (jobs (glob_visit ls plan options j)) = map fs_path
       (filter (\<lambda>c. fs_path c \<noteq> p \<and> fs_isdir c \<and> next_states (stepped plan sts c) \<noteq> []) cs)"
    using j Inr by (simp_all add: glob_visit_def glob_children_simps comp_def)
  with Inr j show ?thesis by (intro listed) auto
qed

interpretation glob_tree: tree_scheduled "glob_visit ls plan options" "glob_tree_ok ls plan"
  "\<lambda>j. path_names (fst j)" entry_names
  for ls plan options
proof
  fix j j' :: glob_job
  assume "glob_tree_ok ls plan j" "child_job (glob_visit ls plan options) j j'"
  then show "glob_tree_ok ls plan j'" unfolding glob_tree_ok_def using globbing.ok_jobs by blast
next
  fix j :: glob_job
  assume "glob_tree_ok ls plan j"
  then show "ending (glob_visit ls plan options j) \<noteq> Panic"
    using globbing.ok_ending by (simp add: glob_tree_ok_def)
next
  show "wf {(j', j). glob_tree_ok ls plan j \<and> child_job (glob_visit ls plan options) j j'}"
    by (rule wf_subset [OF globbing.ok_wf [of ls plan options]]) (auto simp: glob_tree_ok_def)
next
  fix j j' :: glob_job
  assume ok: "glob_tree_ok ls plan j" and child: "child_job (glob_visit ls plan options) j j'"
  show "\<exists>k. path_names (fst j') = path_names (fst j) @ [k]"
  proof (cases rule: glob_visit_cases [OF ok, of options, case_names err listed])
    case (listed cs P Q)
    have "fst j' \<in> set (map fst (jobs (glob_visit ls plan options j)))" using child by simp
    then obtain c where "c \<in> set cs" "Q c" "fst j' = fs_path c" unfolding listed(3) by auto
    with tree_paths_names [of ls "fst j" cs c] listed(1,4) ok show ?thesis by (simp add: glob_tree_ok_def)
  qed (use child in simp)
next
  fix j :: glob_job
  assume ok: "glob_tree_ok ls plan j"
  show "distinct (map (\<lambda>j. path_names (fst j)) (jobs (glob_visit ls plan options j)))"
  proof (cases rule: glob_visit_cases [OF ok, of options, case_names err listed])
    case (listed cs P Q)
    have "map (\<lambda>j. path_names (fst j)) (jobs (glob_visit ls plan options j)) =
        map path_names (map fst (jobs (glob_visit ls plan options j)))" by simp
    also have "\<dots> = map entry_names (filter Q cs)" unfolding listed(3) by simp
    finally show ?thesis using ok listed(1)
      by (simp add: glob_tree_ok_def distinct_listings_def distinct_map_filter)
  qed simp
next
  fix j :: glob_job and c
  assume ok: "glob_tree_ok ls plan j" and c: "c \<in> set (outs (glob_visit ls plan options j))"
  show "\<exists>k. entry_names c = path_names (fst j) @ [k]"
  proof (cases rule: glob_visit_cases [OF ok, of options, case_names err listed])
    case (listed cs P Q)
    with tree_paths_names [of ls "fst j" cs c] ok c show ?thesis by (simp add: glob_tree_ok_def)
  qed (use c in simp)
next
  fix j :: glob_job
  assume ok: "glob_tree_ok ls plan j"
  show "distinct (map entry_names (outs (glob_visit ls plan options j)))"
  proof (cases rule: glob_visit_cases [OF ok, of options, case_names err listed])
    case (listed cs P Q)
    with ok show ?thesis by (simp add: glob_tree_ok_def distinct_listings_def distinct_map_filter)
  qed simp
qed

lemma glob_walk_distinct:
  assumes parsed: "parse pattern ih = Some (Inr plan)"
    and ls: "tree_paths ls" "finite_tree ls (plan_root plan)" "distinct_listings ls" and n: "0 < n"
    and info: "\<And>c. info (plan_root plan) = Inr c \<Longrightarrow> entry_names c = path_names (plan_root plan)"
    and compl: "status (glob_walk ls info plan n options ks) = Completed"
  shows "distinct (map entry_names (oks (sent (glob_walk ls info plan n options ks))))"
proof -
  let ?s = "glob_start info plan" and ?j0 = "(plan_root plan, plan_initial plan, True)"
  let ?visit = "glob_visit ls plan options"
  have run: "status ?s = Running"
    using compl by (auto simp: glob_walk_def run_schedule_stopped glob_start_def Let_def split: sum.splits if_splits)
  then obtain M where M: "yields_all ?visit (todo ?s) M"
    using completed_yields [OF n _ compl [unfolded glob_walk_def]] by blast
  have ok: "glob_tree_ok ls plan ?j0"
    using glob_start_ok(2) [OF parsed ls(2)] ls by (simp add: glob_tree_ok_def)
  have "once entry_names M \<and> (\<forall>c \<in># M. entry_names c \<noteq> path_names (plan_root plan))"
  proof (cases "plan_initial plan = []")
    case True
    then have "todo ?s = {#}" by (simp add: todo_def glob_start_def Let_def split: sum.splits)
    with M show ?thesis by (simp add: once_def)
  next
    case False
    then have "todo ?s = {#?j0#}"
      using run by (auto simp: todo_def glob_start_def Let_def split: sum.splits if_splits)
    with M have "yields ?visit ?j0 M" by (simp add: yields_all_add_mset)
    with glob_tree.yields_once [OF this ok] show ?thesis by (auto simp: glob_tree.inside_def)
  qed
  moreover have total: "mset (oks (sent (glob_walk ls info plan n options ks))) = mset (oks (sent ?s)) + M"
    using run_yields(2) [OF n run M] compl by (simp add: glob_walk_def)
  moreover have "once entry_names (mset (oks (sent ?s)))"
    and "\<forall>c \<in> set (oks (sent ?s)). entry_names c = path_names (plan_root plan)"
    using run info unfolding once_mset
    by (simp_all add: glob_start_def Let_def split: sum.splits if_splits)
  ultimately have "once entry_names (mset (oks (sent (glob_walk ls info plan n options ks))))"
    unfolding total once_union set_mset_mset by metis
  then show ?thesis by (simp only: once_mset)
qed

section \<open>A small namespace\<close>

text \<open>A directory \<open>/d\<close> with a file, a hidden file and a subdirectory holding one file.\<close>

definition demo_entry :: "string \<Rightarrow> bool \<Rightarrow> FileStatus" where
  "demo_entry path isdir = \<lparr>fs_path = lit path, fs_length = 1, fs_isdir = isdir, fs_permission = 420,
     fs_owner = lit ''o'', fs_group = lit ''g'', fs_modification_time = 0, fs_access_time = 0,
     fs_replication = None, fs_blocksize = None\<rparr>"

definition demo_ls :: list_rpc where
  "demo_ls p =
     (if p = lit ''/d'' then
        Inr [demo_entry ''/d/x'' False, demo_entry ''/d/_h'' False, demo_entry ''/d/s'' True]
      else if p = lit ''/d/s'' then Inr [demo_entry ''/d/s/y'' False]
      else Inl (FileNotFound p))"

definition demo_info :: info_rpc where
  "demo_info p = (if p = lit ''/d'' then Inr (demo_entry ''/d'' True) else Inl (FileNotFound p))"

definition demo_options :: WalkOptions where
  "demo_options = \<lparr>skip_permission_errors = False, include_hidden = False\<rparr>"

lemma demo_one_below:
  "one_below (lit ''/d'') (demo_entry ''/d/x'' False)"
  "one_below (lit ''/d'') (demo_entry ''/d/_h'' False)"
  "one_below (lit ''/d'') (demo_entry ''/d/s'' True)"
  "one_below (lit ''/d/s'') (demo_entry ''/d/s/y'' False)"
  unfolding one_below_def demo_entry_def
  by (rule exI [of _ "lit ''/d''"], rule exI [of _ "lit ''x''"], simp)
    (rule exI [of _ "lit ''/d''"], rule exI [of _ "lit ''_h''"], simp,
     rule exI [of _ "lit ''/d''"], rule exI [of _ "lit ''s''"], simp,
     rule exI [of _ "lit ''/d/s''"], rule exI [of _ "lit ''y''"], simp)

lemma demo_listing:
  "demo_ls p = Inr cs \<longleftrightarrow>
     p = lit ''/d'' \<and> cs = [demo_entry ''/d/x'' False, demo_entry ''/d/_h'' False, demo_entry ''/d/s'' True] \<or>
     p = lit ''/d/s'' \<and> cs = [demo_entry ''/d/s/y'' False]"
  by (auto simp: demo_ls_def)

lemma demo_tree_paths: "tree_paths demo_ls"
  unfolding tree_paths_def demo_listing using demo_one_below by auto

lemma demo_dir_child: "dir_child demo_ls p' p \<longleftrightarrow> p = lit ''/d'' \<and> p' = lit ''/d/s''"
  unfolding dir_child_def demo_listing by (auto simp: demo_entry_def)

lemma demo_finite_tree: "finite_tree demo_ls p"
  unfolding finite_tree_def
  by (rule accpI, rule accpI) (auto simp: demo_dir_child)

lemma demo_distinct: "distinct_listings demo_ls"
  unfolding distinct_listings_def demo_listing
  by (auto simp: demo_entry_def path_names_def)

lemma demo_options_simps [simp]:
  "include_hidden demo_options = False" "skip_permission_errors demo_options = False"
  by (simp_all add: demo_options_def)

lemma demo_plan_simps [simp]:
  "plan_root demo_plan = lit ''/d''" "plan_initial demo_plan \<noteq> []" "\<not> plan_emit_root demo_plan"
  by (simp_all add: demo_plan_def)

lemma demo_glob_walk:
  "glob_walk demo_ls demo_info demo_plan 2 demo_options [0, 0] =
   \<lparr>pending = [], in_flight = [], sent = [Inr (demo_entry ''/d/x'' False), Inr (demo_entry ''/d/s'' True)],
    status = Completed\<rparr>"
  by code_simp

section \<open>Properties\<close>

text \<open>
  C7. A glob walk that completes has sent exactly the entries of the namespace whose path matches
  the pattern, each once: whatever the order in which the listings came back and however many ran
  in parallel. (The root is looked up by itself when the pattern can match it.)
\<close>

theorem glob_walk_delivers:
  assumes "parse pattern ih = Some (Inr plan)"
    and "tree_paths ls" and "finite_tree ls (plan_root plan)" and "distinct_listings ls"
    and "\<And>c. info (plan_root plan) = Inr c \<Longrightarrow> path_names (fs_path c) = path_names (plan_root plan)"
    and "0 < n" and "status (glob_walk ls info plan n options ks) = Completed"
  shows "distinct (map entry_names (oks (sent (glob_walk ls info plan n options ks)))) \<and>
    set (oks (sent (glob_walk ls info plan n options ks))) =
      {c. (tree_entry ls (plan_root plan) c \<or> info (plan_root plan) = Inr c) \<and>
          glob_matches pattern ih (path_names (fs_path c))}"
proof
  show "distinct (map entry_names (oks (sent (glob_walk ls info plan n options ks))))"
    by (rule glob_walk_distinct [OF assms(1-4) assms(6,5,7)])
  show "set (oks (sent (glob_walk ls info plan n options ks))) =
      {c. (tree_entry ls (plan_root plan) c \<or> info (plan_root plan) = Inr c) \<and>
          glob_matches pattern ih (path_names (fs_path c))}"
    using glob_walk_set [OF assms(1-3,6,7)] assms(5) by auto
qed

theorem glob_walk_delivers_witness:
  "set (oks (sent (glob_walk demo_ls demo_info demo_plan 2 demo_options [0, 0]))) =
     {demo_entry ''/d/x'' False, demo_entry ''/d/s'' True} \<and>
   {demo_entry ''/d/x'' False, demo_entry ''/d/s'' True} =
     {c. (tree_entry demo_ls (lit ''/d'') c \<or> demo_info (lit ''/d'') = Inr c) \<and>
         glob_matches (lit ''/d/*'') False (path_names (fs_path c))}"
proof -
  have "set (oks (sent (glob_walk demo_ls demo_info demo_plan 2 demo_options [0, 0]))) =
     {c. (tree_entry demo_ls (plan_root demo_plan) c \<or> demo_info (plan_root demo_plan) = Inr c) \<and>
         glob_matches (lit ''/d/*'') False (path_names (fs_path c))}"
    by (rule conjunct2 [OF glob_walk_delivers [OF parse_example demo_tree_paths demo_finite_tree demo_distinct]])
      (auto simp: demo_glob_walk demo_info_def demo_entry_def)
  then show ?thesis by (simp add: demo_glob_walk)
qed

text \<open>
  Every glob walk ends, and never by a panic: there is a number of completions after which, in
  whatever order they come, the walk has completed or forwarded an error.
\<close>

theorem glob_walk_terminates:
  assumes "parse pattern ih = Some (Inr plan)" and "finite_tree ls (plan_root plan)" and "0 < n"
  shows "\<exists>m. \<forall>ks. m \<le> length ks \<longrightarrow> status (glob_walk ls info plan n options ks) \<in> {Completed, Failed}"
  using assms by (rule glob_walk_ends)

theorem glob_walk_terminates_witness:
  "\<exists>m. \<forall>ks. m \<le> length ks \<longrightarrow>
     status (glob_walk demo_ls demo_info demo_plan 2 demo_options ks) \<in> {Completed, Failed}"
  by (rule glob_walk_terminates [OF parse_example demo_finite_tree]) simp

text \<open>
  A glob walk fails only for a reason: if every listing below the pattern's root succeeds, is
  about a path that vanished, or (below the root, when the caller opted in) is forbidden, then the
  walk completes after enough completions in any order.
\<close>

theorem glob_walk_completes:
  assumes "parse pattern ih = Some (Inr plan)" and "finite_tree ls (plan_root plan)" and "0 < n"
    and "clear_below (glob_prune options) ls (plan_root plan)"
    and "\<And>e. info (plan_root plan) = Inl e \<Longrightarrow> is_not_found e"
  shows "\<exists>m. \<forall>ks. m \<le> length ks \<longrightarrow> status (glob_walk ls info plan n options ks) = Completed"
proof -
  obtain m where m: "\<And>ks. m \<le> length ks \<Longrightarrow> status (glob_walk ls info plan n options ks) \<in> {Completed, Failed}"
    using glob_walk_ends [OF assms(1-3)] by blast
  have "status (glob_walk ls info plan n options ks) = Completed" if "m \<le> length ks" for ks
    using m [OF that] glob_walk_clear [OF assms(1-4), of info ks] assms(5) by auto
  then show ?thesis by blast
qed

theorem glob_walk_completes_witness:
  "\<exists>m. \<forall>ks. m \<le> length ks \<longrightarrow> status (glob_walk demo_ls demo_info demo_plan 2 demo_options ks) = Completed"
  by (rule glob_walk_completes [OF parse_example demo_finite_tree])
    (auto simp: clear_below_def demo_ls_def demo_info_def demo_dir_child)

text \<open>
  C15. Errors on the literal root of the pattern. The root is looked up when some alternative of the
  pattern is all literal, and listed when some is not. If either fails for another reason than that the
  root does not exist, the walk fails and an error of the root is the last message, permission errors
  and the option to skip them included; it is the only message if the look-up failed. A root that does
  not exist, for the look-up and for the listing as far as they are made, is no error: the walk
  completes with nothing.
\<close>

theorem glob_root_error_surfaces:
  assumes "0 < n"
  shows "(\<forall>e. plan_emit_root plan \<and> info (plan_root plan) = Inl e \<and> \<not> is_not_found e \<longrightarrow>
      status (glob_walk ls info plan n options ks) = Failed \<and> sent (glob_walk ls info plan n options ks) = [Inl e]) \<and>
    (\<forall>e. plan_initial plan \<noteq> [] \<and> ls (plan_root plan) = Inl e \<and> \<not> is_not_found e \<longrightarrow>
      status (glob_walk ls info plan n options (k # ks)) = Failed \<and>
      (\<exists>e'. last (sent (glob_walk ls info plan n options (k # ks))) = Inl e' \<and>
         (e' = e \<or> plan_emit_root plan \<and> info (plan_root plan) = Inl e'))) \<and>
    ((plan_emit_root plan \<longrightarrow> (\<exists>e. info (plan_root plan) = Inl e \<and> is_not_found e)) \<and>
     (plan_initial plan \<noteq> [] \<longrightarrow> (\<exists>e. ls (plan_root plan) = Inl e \<and> is_not_found e)) \<longrightarrow>
      status (glob_walk ls info plan n options (k # k' # ks)) = Completed \<and>
      sent (glob_walk ls info plan n options (k # k' # ks)) = [])"
proof (intro conjI allI impI; elim conjE)
  fix e
  assume "plan_emit_root plan" "info (plan_root plan) = Inl e" "\<not> is_not_found e"
  then have "glob_start info plan = \<lparr>pending = [], in_flight = [], sent = [Inl e], status = Failed\<rparr>"
    by (simp add: glob_start_def)
  then show "status (glob_walk ls info plan n options ks) = Failed" "sent (glob_walk ls info plan n options ks) = [Inl e]"
    by (simp_all add: glob_walk_def run_schedule_stopped)
next
  fix e
  assume init: "plan_initial plan \<noteq> []" and e: "ls (plan_root plan) = Inl e" "\<not> is_not_found e"
  let ?w = "glob_walk ls info plan n options (k # ks)"
  have "status ?w = Failed \<and> (\<exists>e'. last (sent ?w) = Inl e' \<and> (e' = e \<or> plan_emit_root plan \<and> info (plan_root plan) = Inl e'))"
  proof (cases "status (glob_start info plan) = Running")
    case True
    then obtain ms where "glob_start info plan = \<lparr>pending = [(plan_root plan, plan_initial plan, True)],
        in_flight = [], sent = ms, status = Running\<rparr>"
      using init by (auto simp: glob_start_def Let_def split: sum.splits if_splits)
    with assms e show ?thesis
      by (simp add: glob_walk_def poll_def glob_visit_def glob_prune_def messages_def end_status_def
          fill.simps run_schedule_stopped)
  next
    case False
    then obtain e' where "glob_start info plan = \<lparr>pending = [], in_flight = [], sent = [Inl e'], status = Failed\<rparr>"
      "plan_emit_root plan" "info (plan_root plan) = Inl e'"
      by (auto simp: glob_start_def Let_def split: sum.splits if_splits)
    then show ?thesis by (simp add: glob_walk_def run_schedule_stopped)
  qed
  then show "status ?w = Failed" "\<exists>e'. last (sent ?w) = Inl e' \<and> (e' = e \<or> plan_emit_root plan \<and> info (plan_root plan) = Inl e')"
    by blast+
next
  assume root: "plan_emit_root plan \<longrightarrow> (\<exists>e. info (plan_root plan) = Inl e \<and> is_not_found e)"
    "plan_initial plan \<noteq> [] \<longrightarrow> (\<exists>e. ls (plan_root plan) = Inl e \<and> is_not_found e)"
  let ?pend = "if plan_initial plan = [] then [] else [(plan_root plan, plan_initial plan, True)]"
  let ?w = "glob_walk ls info plan n options (k # k' # ks)"
  have start: "glob_start info plan = \<lparr>pending = ?pend, in_flight = [], sent = [], status = Running\<rparr>"
    using root(1) by (auto simp: glob_start_def)
  have "status ?w = Completed \<and> sent ?w = []"
  proof (cases "plan_initial plan = []")
    case True
    with assms start show ?thesis by (simp add: glob_walk_def poll_def fill.simps run_schedule_stopped)
  next
    case False
    with root(2) obtain e where "ls (plan_root plan) = Inl e" "is_not_found e" by blast
    with assms start False show ?thesis
      by (simp add: glob_walk_def poll_def glob_visit_def glob_prune_def messages_def end_status_def fill.simps run_schedule_stopped)
  qed
  then show "status ?w = Completed" "sent ?w = []" by blast+
qed

theorem glob_root_error_surfaces_witness:
  "status (glob_walk (\<lambda>_. Inl (RPCError (lit ''AccessControlException'') [])) demo_info demo_plan 1
     \<lparr>skip_permission_errors = True, include_hidden = False\<rparr> [0]) = Failed \<and>
   status (glob_walk (\<lambda>_. Inl (FileNotFound [])) demo_info demo_plan 1 demo_options [0, 0]) = Completed \<and>
   sent (glob_walk demo_ls (\<lambda>_. Inl (RPCError (lit ''AccessControlException'') [])) (demo_plan\<lparr>plan_initial := [], plan_emit_root := True\<rparr>) 1
     demo_options []) = [Inl (RPCError (lit ''AccessControlException'') [])]"
proof (intro conjI)
  let ?denied = "RPCError (lit ''AccessControlException'') []" and ?skip = "\<lparr>skip_permission_errors = True, include_hidden = False\<rparr>"
  have one: "0 < (1 :: nat)" by simp
  note root = glob_root_error_surfaces [OF one]
  have "plan_initial demo_plan \<noteq> []" "\<not> plan_emit_root demo_plan" by (simp_all add: demo_plan_def)
  with root [THEN conjunct2, THEN conjunct1, of demo_plan "\<lambda>_. Inl ?denied"]
  show "status (glob_walk (\<lambda>_. Inl ?denied) demo_info demo_plan 1 ?skip [0]) = Failed" by (simp add: is_not_found_def)
  from \<open>\<not> plan_emit_root demo_plan\<close> root [THEN conjunct2, THEN conjunct2, of demo_plan demo_info "\<lambda>_. Inl (FileNotFound [])"]
  show "status (glob_walk (\<lambda>_. Inl (FileNotFound [])) demo_info demo_plan 1 demo_options [0, 0]) = Completed"
    by (simp add: is_not_found_def)
  from root [THEN conjunct1, of "demo_plan\<lparr>plan_initial := [], plan_emit_root := True\<rparr>" "\<lambda>_. Inl ?denied"]
  show "sent (glob_walk demo_ls (\<lambda>_. Inl ?denied) (demo_plan\<lparr>plan_initial := [], plan_emit_root := True\<rparr>) 1 demo_options []) = [Inl ?denied]"
    by (simp add: is_not_found_def)
qed

text \<open>
  C32. Nothing but matches is ever sent: at every moment of every interleaving, also when the
  consumer drops the stream half way, each entry sent so far is one of the namespace that matches
  the pattern.
\<close>

theorem glob_walk_sound:
  assumes "parse pattern ih = Some (Inr plan)" and "tree_paths ls" and "finite_tree ls (plan_root plan)"
    and "\<And>c. info (plan_root plan) = Inr c \<Longrightarrow> path_names (fs_path c) = path_names (plan_root plan)"
    and "0 < n" and "walk_steps (glob_visit ls plan options) n (glob_start info plan) t"
    and "Inr c \<in> set (sent t)"
  shows "(tree_entry ls (plan_root plan) c \<or> info (plan_root plan) = Inr c) \<and>
    glob_matches pattern ih (path_names (fs_path c))"
proof -
  let ?visit = "glob_visit ls plan options" and ?j0 = "(plan_root plan, plan_initial plan, True)"
  consider "Inr c \<in> set (sent (glob_start info plan))"
    | j where "j \<in> job_reach ?visit (set_mset (todo (glob_start info plan)))" "c \<in> set (outs (?visit j))"
    using walk_reach [OF assms(5,6)] assms(7) by blast
  then show ?thesis
  proof cases
    case 1
    then have "plan_emit_root plan \<and> info (plan_root plan) = Inr c"
      by (auto simp: glob_start_def Let_def split: sum.splits if_splits)
    with parse_correct [OF assms(1), of "path_names (plan_root plan)"] assms(4) show ?thesis by auto
  next
    case (2 j)
    then have "j \<in> job_reach ?visit {?j0}"
      using glob_start_ok(1) [OF assms(1,3), of info] by (auto simp: job_reach_def)
    with 2(2) glob_outs_iff [OF assms(2) glob_start_ok(2) [OF assms(1,3)], of options c] obtain ns where
      "tree_entry ls (plan_root plan) c" "path_names (fs_path c) = path_names (plan_root plan) @ ns"
      "ns \<noteq> []" "accepts plan (plan_initial plan) ns" by auto
    with parse_correct [OF assms(1), of "path_names (fs_path c)"] show ?thesis by auto
  qed
qed

theorem glob_walk_sound_witness:
  "glob_matches (lit ''/d/*'') False (path_names (fs_path (demo_entry ''/d/x'' False)))"
proof -
  have steps: "walk_steps (glob_visit demo_ls demo_plan demo_options) 2 (glob_start demo_info demo_plan)
      (glob_walk demo_ls demo_info demo_plan 2 demo_options [0, 0])"
    unfolding glob_walk_def by (rule run_schedule_steps)
  show ?thesis
    by (rule conjunct2 [OF glob_walk_sound [OF parse_example demo_tree_paths demo_finite_tree _ _ steps]])
      (simp_all add: demo_glob_walk demo_info_def demo_entry_def)
qed

section \<open>Whole globs\<close>

lemma glob_walk_all:
  assumes "parse pattern (include_hidden options) = Some (Inr plan)"
    and "tree_paths ls" and "finite_tree ls (plan_root plan)" and "distinct_listings ls"
    and "clear_below (glob_prune options) ls (plan_root plan)"
    and "\<And>c. info (plan_root plan) = Inr c \<Longrightarrow> path_names (fs_path c) = path_names (plan_root plan)"
    and "\<And>e. info (plan_root plan) = Inl e \<Longrightarrow> is_not_found e" and n: "0 < n"
  shows "\<exists>m. \<forall>ks. m \<le> length ks \<longrightarrow>
    (let t = glob_walk ls info plan n options ks
     in status t = Completed \<and> well_sent t \<and> distinct (map entry_names (oks (sent t))) \<and>
        set (oks (sent t)) = {c. (tree_entry ls (plan_root plan) c \<or> info (plan_root plan) = Inr c) \<and>
          glob_matches pattern (include_hidden options) (path_names (fs_path c))})"
proof -
  let ?t = "glob_walk ls info plan n options"
  have clear: "status (?t ks) \<in> {Running, Completed}" for ks
    using glob_walk_clear [OF assms(1,3) n assms(5)] assms(7) by blast
  obtain m where m: "\<And>ks. m \<le> length ks \<Longrightarrow> status (?t ks) \<in> {Completed, Failed}"
    using glob_walk_ends [OF assms(1,3) n] by blast
  show ?thesis
  proof (intro exI [of _ m] allI impI)
    fix ks :: "nat list"
    assume "m \<le> length ks"
    then have compl: "status (?t ks) = Completed" using m [of ks] clear [of ks] by auto
    moreover have "well_sent (?t ks)"
      unfolding glob_walk_def by (rule run_schedule_well_sent [OF n glob_start_ok(4) [OF assms(1,3)]])
    moreover note glob_walk_distinct [OF assms(1-4) n assms(6) compl]
    moreover have "set (oks (sent (?t ks))) = {c. (tree_entry ls (plan_root plan) c \<or> info (plan_root plan) = Inr c) \<and>
        glob_matches pattern (include_hidden options) (path_names (fs_path c))}"
      using glob_walk_set [OF assms(1-3) n compl] assms(6) by auto
    ultimately show "let t = ?t ks in status t = Completed \<and> well_sent t \<and> distinct (map entry_names (oks (sent t))) \<and>
        set (oks (sent t)) = {c. (tree_entry ls (plan_root plan) c \<or> info (plan_root plan) = Inr c) \<and>
          glob_matches pattern (include_hidden options) (path_names (fs_path c))}"
      unfolding Let_def by blast
  qed
qed

end
