(* ===== verification/Listing.thy ===== *)
theory Listing
  imports Walk
begin

text \<open>
  What \<^verbatim>\<open>stream_walk\<close> of \<^verbatim>\<open>hdfs-bridge/src/client.rs\<close> lists: recursively, the entries below
  the root none of whose names is hidden (all of them with \<^verbatim>\<open>include_hidden\<close>), each once,
  whatever the order of the completions; otherwise the children of the root in the order of the
  listing. The named path itself is exempt from the filter.
\<close>

text \<open>A directory shown by a listing is not listed as its own child.\<close>

definition dirs_list_children :: "list_rpc \<Rightarrow> bool" where
  "dirs_list_children ls \<longleftrightarrow>
     (\<forall>p p' cs. dir_child ls p' p \<longrightarrow> ls p' = Inr cs \<longrightarrow> (\<forall>c \<in> set cs. fs_path c \<noteq> p'))"

text \<open>No name of \<open>path\<close> below \<open>root\<close> is filtered.\<close>

definition shown :: "bool \<Rightarrow> rstring \<Rightarrow> rstring \<Rightarrow> bool" where
  "shown ih root path \<longleftrightarrow> (\<exists>ns. path_names path = path_names root @ ns \<and> list_all (visible ih) ns)"

abbreviation stream_reach where
  "stream_reach ls options root \<equiv> (child_job (stream_visit ls options True))\<^sup>*\<^sup>* (root, True)"

lemma stream_visit_outs:
  "c \<in> set (outs (stream_visit ls options recursive (p, r))) \<longleftrightarrow>
     (\<exists>cs. ls p = Inr cs \<and> c \<in> set cs \<and> (fs_path c = p \<or> visible (include_hidden options) (child_name c)))"
  by (auto simp: stream_visit_def stream_children_simps visible_def split: sum.splits)

lemma stream_visit_jobs:
  "child_job (stream_visit ls options True) (p, r) (p', r') \<longleftrightarrow> \<not> r' \<and>
     (\<exists>c \<in> set (outs (stream_visit ls options True (p, r))). fs_isdir c \<and> fs_path c = p')"
  by (auto simp: stream_visit_def stream_children_simps split: sum.splits)

text \<open>The directories that get listed are those whose names below the root are shown.\<close>

lemma stream_reach_sound:
  assumes "tree_paths ls" "finite_tree ls root" "stream_reach ls options root j"
  shows "dirs_below ls root (fst j) \<and> shown (include_hidden options) root (fst j) \<and>
    (j = (root, True) \<or> \<not> snd j \<and> (\<exists>p. dirs_below ls root p \<and> dir_child ls (fst j) p))"
  using assms(3)
proof (induction rule: rtranclp_induct)
  case base
  show ?case by (simp add: shown_def)
next
  case (step j j')
  obtain p r p' r' where j: "j = (p, r)" "j' = (p', r')" by (cases j, cases j')
  have below: "dirs_below ls root p" using step.IH j by simp
  from step.hyps(2) j obtain cs c where c: "ls p = Inr cs" "c \<in> set cs" "fs_isdir c" "fs_path c = p'"
      "fs_path c = p \<or> visible (include_hidden options) (child_name c)" and r': "\<not> r'"
    unfolding j stream_visit_jobs by (auto simp: stream_visit_outs)
  note entry = dir_entry [OF finite_tree_below [OF below assms(2)] assms(1) c(1-3)]
  have "shown (include_hidden options) root p'"
    using step.IH entry c j by (auto simp: shown_def)
  moreover have "dirs_below ls root p'"
    using below entry(1) c(4) by (auto intro: rtranclp.rtrancl_into_rtrancl)
  ultimately show ?case using below entry(1) c(4) r' j by auto
qed

lemma stream_reach_complete:
  assumes "tree_paths ls" "finite_tree ls root" "dirs_below ls root p"
    and "shown (include_hidden options) root p"
  shows "\<exists>r. stream_reach ls options root (p, r)"
  using assms(3,4)
proof (induction rule: rtranclp_induct)
  case base
  show ?case by blast
next
  case (step p p')
  from step.hyps(2) obtain cs c where c: "ls p = Inr cs" "c \<in> set cs" "fs_isdir c" "fs_path c = p'"
    by (auto simp: dir_child_def)
  note entry = dir_entry [OF finite_tree_below [OF step.hyps(1) assms(2)] assms(1) c(1-3)]
  obtain ns where ns: "path_names p = path_names root @ ns"
    using dirs_below_names [OF assms(1,2) step.hyps(1)] by blast
  with step.prems entry(3) c(4) have vis: "list_all (visible (include_hidden options)) ns"
      "visible (include_hidden options) (child_name c)"
    by (auto simp: shown_def)
  with ns step.IH obtain r where "stream_reach ls options root (p, r)" by (auto simp: shown_def)
  moreover have "c \<in> set (outs (stream_visit ls options True (p, r)))"
    using c vis(2) by (auto simp: stream_visit_outs)
  then have "child_job (stream_visit ls options True) (p, r) (p', False)"
    using c unfolding stream_visit_jobs by blast
  ultimately show ?case by (meson rtranclp.rtrancl_into_rtrancl)
qed

lemma stream_outs_iff:
  assumes ls: "tree_paths ls" "finite_tree ls root" "dirs_list_children ls"
  shows "(\<exists>j \<in> job_reach (stream_visit ls options True) {(root, True)}.
      c \<in> set (outs (stream_visit ls options True j))) \<longleftrightarrow>
    tree_entry ls root c \<and> shown (include_hidden options) root (fs_path c) \<or>
    (\<exists>cs. ls root = Inr cs \<and> c \<in> set cs \<and> fs_path c = root)" (is "?L \<longleftrightarrow> ?R")
proof
  assume ?L
  then obtain p r where j: "stream_reach ls options root (p, r)"
      "c \<in> set (outs (stream_visit ls options True (p, r)))"
    by (auto simp: job_reach_def)
  then obtain cs where c: "ls p = Inr cs" "c \<in> set cs"
      "fs_path c = p \<or> visible (include_hidden options) (child_name c)"
    by (auto simp: stream_visit_outs)
  note p = stream_reach_sound [OF ls(1,2) j(1)]
  show ?R
  proof (cases "fs_path c = p")
    case True
    then have "p = root" using p c ls(3) by (auto simp: dirs_list_children_def)
    with c True show ?thesis by blast
  next
    case False
    with p c tree_paths_names [OF ls(1) c(1,2) False] have "shown (include_hidden options) root (fs_path c)"
      by (auto simp: shown_def)
    with p c False show ?thesis by (auto simp: tree_entry_def)
  qed
next
  assume ?R
  then show ?L
  proof
    assume R: "tree_entry ls root c \<and> shown (include_hidden options) root (fs_path c)"
    then obtain p cs where p: "dirs_below ls root p" "ls p = Inr cs" "c \<in> set cs" "fs_path c \<noteq> p"
      by (auto simp: tree_entry_def)
    note names = tree_paths_names [OF ls(1) p(2-4)]
    obtain ns where ns: "path_names p = path_names root @ ns"
      using dirs_below_names [OF ls(1,2) p(1)] by blast
    with R names have "shown (include_hidden options) root p" "visible (include_hidden options) (child_name c)"
      by (auto simp: shown_def)
    with stream_reach_complete [OF ls(1,2) p(1)] p show ?L
      by (fastforce simp: job_reach_def stream_visit_outs)
  next
    assume "\<exists>cs. ls root = Inr cs \<and> c \<in> set cs \<and> fs_path c = root"
    then show ?L by (force simp: job_reach_def stream_visit_outs)
  qed
qed

section \<open>Results\<close>

lemma stream_start_simps [simp]:
  "status (stream_start root) = Running" "sent (stream_start root) = []"
  "todo (stream_start root) = {#(root, True)#}"
  by (simp_all add: stream_start_def todo_def)

lemma stream_walk_yields:
  assumes "0 < n" "status (stream_walk ls root recursive n options ks) = Completed"
  obtains M where "yields (stream_visit ls options recursive) (root, True) M"
    "mset (oks (sent (stream_walk ls root recursive n options ks))) = M"
proof -
  obtain M where M: "yields_all (stream_visit ls options recursive) (todo (stream_start root)) M"
    using completed_yields [OF assms(1) _ assms(2) [unfolded stream_walk_def]] by auto
  have "mset (oks (sent (stream_walk ls root recursive n options ks))) = M"
    using run_yields(2) [OF assms(1) _ M] assms(2) by (simp add: stream_walk_def)
  with M that show thesis by (simp add: yields_all_add_mset)
qed

lemma stream_walk_set:
  assumes "tree_paths ls" "finite_tree ls root" "dirs_list_children ls" "0 < n"
    and "status (stream_walk ls root True n options ks) = Completed"
  shows "Inr c \<in> set (sent (stream_walk ls root True n options ks)) \<longleftrightarrow>
    tree_entry ls root c \<and> shown (include_hidden options) root (fs_path c) \<or>
    (\<exists>cs. ls root = Inr cs \<and> c \<in> set cs \<and> fs_path c = root)"
proof -
  obtain M where M: "yields (stream_visit ls options True) (root, True) M"
      "mset (oks (sent (stream_walk ls root True n options ks))) = M"
    using stream_walk_yields [OF assms(4,5)] by blast
  have "Inr c \<in> set (sent (stream_walk ls root True n options ks)) \<longleftrightarrow> c \<in># M"
    using M(2) by (metis in_set_oks set_mset_mset)
  also have "\<dots> \<longleftrightarrow> (\<exists>j \<in> job_reach (stream_visit ls options True) {(root, True)}.
      c \<in> set (outs (stream_visit ls options True j)))"
    using yields_reach M(1) by (metis (no_types, lifting) UN_iff)
  finally show ?thesis using stream_outs_iff [OF assms(1-3)] by blast
qed

lemma stream_walk_ends:
  assumes "finite_tree ls root" "0 < n"
  shows "\<exists>m. \<forall>ks. m \<le> length ks \<longrightarrow> status (stream_walk ls root recursive n options ks) \<in> {Completed, Failed}"
proof -
  have ok: "listing.ok_state ls (stream_start root)"
    using assms(1) by (simp add: listing.ok_state_def)
  obtain m where m: "\<And>ks. m \<le> length ks \<Longrightarrow>
      status (run_schedule (stream_visit ls options recursive) n ks (stream_start root)) \<noteq> Running"
    using listing.always_ends [OF assms(2) ok] by blast
  have "status (stream_walk ls root recursive n options ks) \<in> {Completed, Failed}" if "m \<le> length ks" for ks
  proof (rule walk_status_ended)
    show "status (stream_walk ls root recursive n options ks) \<noteq> Running"
      using m [OF that] by (simp add: stream_walk_def)
    show "status (stream_walk ls root recursive n options ks) \<noteq> Panicked"
      using listing.run_ok [OF assms(2) ok] by (simp add: stream_walk_def listing.ok_state_def)
    show "status (stream_walk ls root recursive n options ks) \<noteq> Dropped"
      unfolding stream_walk_def by (rule run_schedule_not_dropped) simp
  qed
  then show ?thesis by blast
qed

lemma stream_visit_go:
  "ending (stream_visit ls options recursive j) =
    (case ls (fst j) of Inr _ \<Rightarrow> Go | Inl e \<Rightarrow> if stream_prune options (snd j) e then Go else Fail e)"
  by (cases j) (auto simp: stream_visit_def stream_children_simps split: sum.splits)

lemma stream_reach_flag:
  assumes "(child_job (stream_visit ls options recursive))\<^sup>*\<^sup>* (root, True) j"
  shows "dirs_below ls root (fst j) \<and>
    (j = (root, True) \<or> \<not> snd j \<and> (\<exists>p. dirs_below ls root p \<and> dir_child ls (fst j) p))"
  using assms
proof (induction rule: rtranclp_induct)
  case (step j j')
  have "dir_child ls (fst j') (fst j)" "\<not> snd j'" using stream_visit_child [OF step.hyps(2)] by auto
  with step.IH show ?case by (auto intro: rtranclp.rtrancl_into_rtrancl)
qed simp

lemma stream_walk_clear:
  assumes fin: "finite_tree ls root" and n: "0 < n" and clear: "clear_below (stream_prune options) ls root"
  shows "status (stream_walk ls root recursive n options ks) \<in> {Running, Completed}"
proof -
  let ?visit = "stream_visit ls options recursive"
  have go: "ending (?visit j) = Go" if "(child_job ?visit)\<^sup>*\<^sup>* (root, True) j" for j
  proof -
    have "stream_prune options (snd j) e" if e: "ls (fst j) = Inl e" for e
      using stream_reach_flag [OF \<open>(child_job ?visit)\<^sup>*\<^sup>* (root, True) j\<close>] clear e
      unfolding clear_below_def by auto
    then show ?thesis by (cases "ls (fst j)") (simp_all add: stream_visit_go)
  qed
  obtain M where "yields ?visit (root, True) M"
    using listing.yields_exists [of ls "(root, True)" options recursive] fin go by (auto simp: job_reach_def)
  then have "yields_all ?visit (todo (stream_start root)) M" by (auto simp: yields_all_add_mset)
  then show ?thesis unfolding stream_walk_def by (intro run_yields(1) [OF n]) simp_all
qed

text \<open>An error on the named path always ends the walk as an error.\<close>

lemma stream_walk_root_error:
  assumes "ls root = Inl e" and "0 < n"
  shows "status (stream_walk ls root recursive n options (k # ks)) = Failed"
    and "sent (stream_walk ls root recursive n options (k # ks)) = [Inl e]"
  using assms by (simp_all add: stream_walk_def stream_start_def poll_def stream_visit_def stream_prune_def
      messages_def end_status_def fill.simps run_schedule_stopped)

text \<open>A listing that is not recursive sends the children of the root in order.\<close>

lemma stream_walk_flat:
  assumes "ls root = Inr cs" and "0 < n"
  shows "status (stream_walk ls root False n options (k # k' # ks)) = Completed"
    and "sent (stream_walk ls root False n options (k # k' # ks)) =
      map Inr (filter (\<lambda>c. include_hidden options \<or> fs_path c = root \<or> \<not> is_hidden (child_name c)) cs)"
  using assms by (simp_all add: stream_walk_def stream_start_def poll_def stream_visit_def
      messages_def end_status_def fill.simps run_schedule_stopped stream_children_simps)

section \<open>No entry twice\<close>

definition stream_tree_ok :: "list_rpc \<Rightarrow> stream_job \<Rightarrow> bool" where
  "stream_tree_ok ls j \<longleftrightarrow> finite_tree ls (fst j) \<and> tree_paths ls \<and> distinct_listings ls \<and>
     dirs_list_children ls \<and> (\<forall>cs. ls (fst j) = Inr cs \<longrightarrow> (\<forall>c \<in> set cs. fs_path c \<noteq> fst j))"

interpretation stream_tree: tree_scheduled "stream_visit ls options recursive" "stream_tree_ok ls"
  "\<lambda>j. path_names (fst j)" entry_names
  for ls options recursive
proof
  fix j j' :: stream_job
  assume "stream_tree_ok ls j" "child_job (stream_visit ls options recursive) j j'"
  then show "stream_tree_ok ls j'"
    using stream_visit_child [of j' ls options recursive j] finite_tree_child
    unfolding stream_tree_ok_def dirs_list_children_def by blast
next
  fix j :: stream_job
  show "ending (stream_visit ls options recursive j) \<noteq> Panic"
    by (simp add: stream_visit_go split: sum.splits)
next
  show "wf {(j', j). stream_tree_ok ls j \<and> child_job (stream_visit ls options recursive) j j'}"
    by (rule wf_subset [OF listing.ok_wf [of ls options recursive]]) (auto simp: stream_tree_ok_def)
next
  fix j j' :: stream_job
  assume ok: "stream_tree_ok ls j" and "child_job (stream_visit ls options recursive) j j'"
  then obtain cs c where "ls (fst j) = Inr cs" "c \<in> set cs" "fs_path c = fst j'"
    using stream_visit_child [of j' ls options recursive j] by (auto simp: dir_child_def)
  with tree_paths_names [of ls "fst j" cs c] ok show "\<exists>k. path_names (fst j') = path_names (fst j) @ [k]"
    by (auto simp: stream_tree_ok_def)
next
  fix j :: stream_job
  assume "stream_tree_ok ls j"
  then show "distinct (map (\<lambda>j. path_names (fst j)) (jobs (stream_visit ls options recursive j)))"
    by (auto simp: stream_tree_ok_def distinct_listings_def stream_visit_def stream_children_simps comp_def
        intro!: distinct_map_filter split: sum.splits prod.splits)
next
  fix j :: stream_job and c
  assume ok: "stream_tree_ok ls j" and "c \<in> set (outs (stream_visit ls options recursive j))"
  then obtain cs where "ls (fst j) = Inr cs" "c \<in> set cs"
    by (cases j) (auto simp: stream_visit_outs)
  with tree_paths_names [of ls "fst j" cs c] ok show "\<exists>k. entry_names c = path_names (fst j) @ [k]"
    by (auto simp: stream_tree_ok_def)
next
  fix j :: stream_job
  assume "stream_tree_ok ls j"
  then show "distinct (map entry_names (outs (stream_visit ls options recursive j)))"
    by (auto simp: stream_tree_ok_def distinct_listings_def stream_visit_def stream_children_simps
        intro!: distinct_map_filter split: sum.splits prod.splits)
qed

lemma stream_walk_distinct:
  assumes "stream_tree_ok ls (root, True)" "0 < n"
    and "status (stream_walk ls root recursive n options ks) = Completed"
  shows "distinct (map entry_names (oks (sent (stream_walk ls root recursive n options ks))))"
proof -
  obtain M where M: "yields (stream_visit ls options recursive) (root, True) M"
      "mset (oks (sent (stream_walk ls root recursive n options ks))) = M"
    using stream_walk_yields [OF assms(2,3)] by blast
  have "once entry_names M" using stream_tree.yields_once [OF M(1) assms(1)] by blast
  then show ?thesis unfolding M(2) [symmetric] once_mset .
qed

section \<open>Properties\<close>

lemma demo_dirs_list_children: "dirs_list_children demo_ls"
  unfolding dirs_list_children_def demo_dir_child demo_listing by (auto simp: demo_entry_def)

lemma demo_stream_tree_ok: "stream_tree_ok demo_ls (lit ''/d'', True)"
  using demo_finite_tree demo_tree_paths demo_distinct demo_dirs_list_children
  by (auto simp: stream_tree_ok_def demo_listing demo_entry_def)

lemma demo_stream_walk:
  "stream_walk demo_ls (lit ''/d'') True 2 demo_options [0, 0, 0] =
   \<lparr>pending = [], in_flight = [], sent = [Inr (demo_entry ''/d/x'' False), Inr (demo_entry ''/d/s'' True),
      Inr (demo_entry ''/d/s/y'' False)], status = Completed\<rparr>"
  by code_simp

text \<open>
  C11. A recursive listing of a directory that completes has sent every entry below it exactly once
  (with hidden entries excluded: every entry no name of whose path below the root is hidden, so
  nothing below a hidden directory), and nothing else, for every order of the completions.
\<close>

theorem stream_walk_delivers:
  assumes "stream_tree_ok ls (root, True)" and "0 < n"
    and "status (stream_walk ls root True n options ks) = Completed"
  shows "distinct (map entry_names (oks (sent (stream_walk ls root True n options ks)))) \<and>
    set (oks (sent (stream_walk ls root True n options ks))) =
      {c. tree_entry ls root c \<and> shown (include_hidden options) root (fs_path c)}"
proof
  show "distinct (map entry_names (oks (sent (stream_walk ls root True n options ks))))"
    using assms by (rule stream_walk_distinct)
  have ls: "tree_paths ls" "finite_tree ls root" "dirs_list_children ls"
    and no_self: "\<not> (\<exists>cs. ls root = Inr cs \<and> c \<in> set cs \<and> fs_path c = root)" for c
    using assms(1) by (auto simp: stream_tree_ok_def)
  show "set (oks (sent (stream_walk ls root True n options ks))) =
      {c. tree_entry ls root c \<and> shown (include_hidden options) root (fs_path c)}"
    using stream_walk_set [OF ls assms(2,3)] no_self by auto
qed

theorem stream_walk_delivers_witness:
  "{demo_entry ''/d/x'' False, demo_entry ''/d/s'' True, demo_entry ''/d/s/y'' False} =
     {c. tree_entry demo_ls (lit ''/d'') c \<and> shown False (lit ''/d'') (fs_path c)}"
proof -
  have "set (oks (sent (stream_walk demo_ls (lit ''/d'') True 2 demo_options [0, 0, 0]))) =
      {c. tree_entry demo_ls (lit ''/d'') c \<and> shown (include_hidden demo_options) (lit ''/d'') (fs_path c)}"
    by (rule conjunct2 [OF stream_walk_delivers [OF demo_stream_tree_ok]])
      (simp_all add: demo_stream_walk del: lit_Cons)
  then show ?thesis by (simp add: demo_stream_walk del: lit_Cons)
qed

text \<open>
  A listing that is not recursive completes with the children of the root in the order the
  server gave them, without the hidden ones unless they are included; a path that names a file,
  which the server lists as itself, is kept even when its own name is hidden.
\<close>

theorem stream_walk_children:
  assumes "ls root = Inr cs" and "0 < n"
  shows "stream_walk ls root False n options (k # k' # ks) =
    \<lparr>pending = [], in_flight = [],
     sent = map Inr (filter (\<lambda>c. include_hidden options \<or> fs_path c = root \<or> \<not> is_hidden (child_name c)) cs),
     status = Completed\<rparr>"
  using assms by (simp add: stream_walk_def stream_start_def poll_def stream_visit_def
      messages_def end_status_def fill.simps run_schedule_stopped stream_children_simps)

theorem stream_walk_children_witness:
  "sent (stream_walk demo_ls (lit ''/d'') False 2 demo_options [0, 0]) =
     [Inr (demo_entry ''/d/x'' False), Inr (demo_entry ''/d/s'' True)]"
  using stream_walk_children [of demo_ls "lit ''/d''" _ 2 demo_options 0 0 "[]"]
  by (simp add: demo_ls_def demo_options_def demo_entry_def child_name_def after_last_def is_hidden_def)

text \<open>
  C37. An error on the path the caller named always surfaces, a missing path and a forbidden one
  included: the walk fails at once and the error is its only message.
\<close>

theorem stream_root_error_surfaces:
  assumes "ls root = Inl e" and "0 < n"
  shows "status (stream_walk ls root recursive n options (k # ks)) = Failed \<and>
    sent (stream_walk ls root recursive n options (k # ks)) = [Inl e]"
  using stream_walk_root_error [of ls root e n] assms by blast

theorem stream_root_error_surfaces_witness:
  "status (stream_walk demo_ls (lit ''/e'') True 2 demo_options [0]) = Failed \<and>
   sent (stream_walk demo_ls (lit ''/e'') True 2 demo_options [0]) = [Inl (FileNotFound (lit ''/e''))]"
  by (rule stream_root_error_surfaces) (simp_all add: demo_ls_def)

text \<open>
  C35. Every listing walk ends without a panic, in any order of completions, and it completes when
  every listing below the root succeeds, vanished, or is forbidden and skipped.
\<close>

theorem stream_walk_terminates:
  assumes "finite_tree ls root" and "0 < n"
  shows "\<exists>m. \<forall>ks. m \<le> length ks \<longrightarrow>
    status (stream_walk ls root recursive n options ks) \<in> {Completed, Failed} \<and>
    (clear_below (stream_prune options) ls root \<longrightarrow>
     status (stream_walk ls root recursive n options ks) = Completed)"
proof -
  obtain m where m: "\<And>ks. m \<le> length ks \<Longrightarrow> status (stream_walk ls root recursive n options ks) \<in> {Completed, Failed}"
    using stream_walk_ends [OF assms] by blast
  have "status (stream_walk ls root recursive n options ks) = Completed"
    if "m \<le> length ks" "clear_below (stream_prune options) ls root" for ks
    using m [OF that(1)] stream_walk_clear [OF assms that(2), of recursive ks] by auto
  with m show ?thesis by blast
qed

theorem stream_walk_terminates_witness:
  "\<exists>m. \<forall>ks. m \<le> length ks \<longrightarrow> status (stream_walk demo_ls (lit ''/d'') True 2 demo_options ks) = Completed"
proof -
  have "clear_below (stream_prune demo_options) demo_ls (lit ''/d'')"
    by (auto simp: clear_below_def demo_ls_def demo_dir_child)
  with stream_walk_terminates [OF demo_finite_tree, of 2 "lit ''/d''" True demo_options] show ?thesis by auto
qed

text \<open>
  C36. The result does not depend on scheduling: when one order of completions and one degree of
  parallelism lead to completion, no other order and no other degree fails, and all that complete
  deliver the same entries with the same multiplicities.
\<close>

theorem listing_order_irrelevant:
  assumes "0 < n" and "0 < n'" and "status (stream_walk ls root recursive n options ks) = Completed"
  shows "status (stream_walk ls root recursive n' options ks') \<in> {Running, Completed} \<and>
    (status (stream_walk ls root recursive n' options ks') = Completed \<longrightarrow>
     mset (oks (sent (stream_walk ls root recursive n' options ks'))) =
     mset (oks (sent (stream_walk ls root recursive n options ks))))"
  using schedule_independent [of n n' "stream_start root" "stream_visit ls options recursive" ks ks'] assms
  by (simp add: stream_walk_def)

theorem listing_order_irrelevant_witness:
  "mset (oks (sent (stream_walk demo_ls (lit ''/d'') True 1 demo_options [7, 5, 3]))) =
   mset (oks (sent (stream_walk demo_ls (lit ''/d'') True 2 demo_options [0, 0, 0])))"
proof -
  have "status (stream_walk demo_ls (lit ''/d'') True 1 demo_options [7, 5, 3]) = Completed" by code_simp
  with listing_order_irrelevant [of 2 1 demo_ls "lit ''/d''" True demo_options "[0, 0, 0]" "[7, 5, 3]"]
  show ?thesis by (simp add: demo_stream_walk del: lit_Cons)
qed

text \<open>
  At no moment of any interleaving are more listings in flight than the caller allows.\<close>

theorem parallelism_bounded:
  assumes "walk_steps (stream_visit ls options recursive) n (stream_start root) t"
  shows "length (in_flight t) \<le> n"
  using walk_in_flight [OF assms] by (simp add: stream_start_def)

theorem parallelism_bounded_witness:
  "length (in_flight (stream_walk demo_ls (lit ''/d'') True 2 demo_options [0])) \<le> 2"
  by (rule parallelism_bounded [of demo_ls demo_options True 2 "lit ''/d''"])
    (simp only: stream_walk_def run_schedule_steps)

end
