(* ===== verification/List_Stream.thy ===== *)
theory List_Stream
  imports Listing
begin

text \<open>
  The consumer's side of a walk (\<^verbatim>\<open>BridgeListStream\<close> with \<^verbatim>\<open>next_batch\<close>, \<^verbatim>\<open>list_stream\<close> and
  \<^verbatim>\<open>glob_stream\<close> in \<^verbatim>\<open>hdfs-bridge/src/client.rs\<close>).

  \<open>rx\<close> holds the messages the walk sends, in order, that have not been received yet; the end of
  the list is the closed channel. \<^verbatim>\<open>recv\<close> blocks for the next message, so it always gets the
  head. \<^verbatim>\<open>try_recv\<close> gets it only when the walk has already sent it: how many messages beyond
  the first are in the channel is up to the scheduler, the parameter \<open>ready\<close> of every call.
\<close>

section \<open>The stream\<close>

text \<open>What awaiting the walker task gives: \<open>None\<close> it returned, \<open>Some msg\<close> it died.\<close>

type_synonym join_result = "rstring option"

record BridgeListStream =
  rx :: "(hdfs_error + FileStatus) list"
  task :: "join_result option"
  stream_path :: rstring
  pending_error :: "hdfs_error option"

text \<open>\<^verbatim>\<open>while batch.len() < max_entries.max(1) { match self.rx.try_recv() ... }\<close>\<close>

fun fill_batch ::
  "nat \<Rightarrow> nat \<Rightarrow> FileStatus list \<Rightarrow> BridgeListStream \<Rightarrow> FileStatus list \<times> BridgeListStream" where
  "fill_batch cap 0 batch s = (batch, s)"
| "fill_batch cap (Suc ready) batch s =
     (if length batch < cap then
        (case rx s of
           [] \<Rightarrow> (batch, s)
         | Inr entry # ms \<Rightarrow> fill_batch cap ready (batch @ [entry]) (s\<lparr>rx := ms\<rparr>)
         | Inl e # ms \<Rightarrow> (batch, s\<lparr>rx := ms, pending_error := Some e\<rparr>))
      else (batch, s))"

definition next_batch ::
  "usize \<Rightarrow> nat \<Rightarrow> BridgeListStream \<Rightarrow> (hdfs_error + FileStatus list) \<times> BridgeListStream" where
  "next_batch max_entries ready s =
     (case pending_error s of
        Some e \<Rightarrow> (Inl e, s\<lparr>pending_error := None\<rparr>)
      | None \<Rightarrow>
          (case rx s of
             Inr entry # ms \<Rightarrow>
               (let (batch, s') = fill_batch (unat (max max_entries 1)) ready [entry] (s\<lparr>rx := ms\<rparr>)
                in (Inr batch, s'))
           | Inl e # ms \<Rightarrow> (Inl e, s\<lparr>rx := ms\<rparr>)
           | [] \<Rightarrow>
               (case task s of
                  Some (Some e) \<Rightarrow>
                    (Inl (IOError (IoError (KOther (lit ''Other'')) (lit ''walker task died: '' @ e))),
                     s\<lparr>task := None\<rparr>)
                | Some None \<Rightarrow> (Inr [], s\<lparr>task := None\<rparr>)
                | None \<Rightarrow> (Inr [], s))))"

text \<open>\<^verbatim>\<open>Drop\<close>: a task that was not awaited is aborted. The result says whether it was.\<close>

definition drop_stream :: "BridgeListStream \<Rightarrow> bool" where
  "drop_stream s = (task s \<noteq> None)"

section \<open>Starting walks\<close>

text \<open>The stream of a walk that ends in the state \<open>t\<close>; a panic is what kills the task.\<close>

definition stream_of :: "('job, FileStatus, hdfs_error) walk_state \<Rightarrow> rstring \<Rightarrow> rstring \<Rightarrow> BridgeListStream" where
  "stream_of t died path =
     \<lparr>rx = sent t, task = Some (if status t = Panicked then Some died else None),
      stream_path = path, pending_error = None\<rparr>"

definition list_stream ::
  "list_rpc \<Rightarrow> rstring \<Rightarrow> bool \<Rightarrow> usize \<Rightarrow> WalkOptions \<Rightarrow> rstring \<Rightarrow> nat list \<Rightarrow> BridgeListStream" where
  "list_stream ls path recursive max_parallelism options died ks =
     stream_of (stream_walk ls path recursive (unat (max max_parallelism 1)) options ks) died path"

definition glob_stream ::
  "list_rpc \<Rightarrow> info_rpc \<Rightarrow> rstring \<Rightarrow> usize \<Rightarrow> WalkOptions \<Rightarrow> rstring \<Rightarrow> nat list
     \<Rightarrow> (hdfs_error + BridgeListStream) option" where
  "glob_stream ls info pattern max_parallelism options died ks =
     do {
       r \<leftarrow> parse pattern (include_hidden options);
       Some (case r of
           Inl e \<Rightarrow> Inl e
         | Inr plan \<Rightarrow>
             Inr (stream_of (glob_walk ls info plan (unat (max max_parallelism 1)) options ks) died pattern))
     }"

section \<open>Single calls\<close>

lemma unat_max_1: "unat (max w 1) = max (unat w) 1" for w :: usize
  by (simp add: max_def word_le_nat_alt)

text \<open>The entries \<open>fill_batch\<close> takes off the channel are the ones it adds, up to the first error.\<close>

lemma fill_batch_spec:
  assumes "fill_batch cap ready batch s = (batch', s')" and "pending_error s = None"
    and "length batch \<le> cap"
  shows "\<exists>xs. batch' = batch @ xs \<and> length batch' \<le> cap \<and>
    rx s = map Inr xs @ (case pending_error s' of Some e \<Rightarrow> [Inl e] | None \<Rightarrow> []) @ rx s' \<and>
    task s' = task s \<and> stream_path s' = stream_path s"
  using assms
proof (induction cap ready batch s rule: fill_batch.induct)
  case (2 cap ready batch s)
  show ?case
  proof (cases "length batch < cap \<and> rx s \<noteq> []")
    case True
    then obtain m ms where rx: "rx s = m # ms" by (cases "rx s") auto
    show ?thesis
    proof (cases m)
      case (Inr x)
      with 2 True rx obtain xs where "batch' = (batch @ [x]) @ xs" "length batch' \<le> cap"
        "ms = map Inr xs @ (case pending_error s' of Some e \<Rightarrow> [Inl e] | None \<Rightarrow> []) @ rx s'"
        "task s' = task s" "stream_path s' = stream_path s" by fastforce
      with rx Inr show ?thesis by (intro exI [of _ "x # xs"]) simp
    qed (use 2 True rx in auto)
  next
    case False
    then have "batch' = batch \<and> s' = s" using "2.prems"(1) by (auto split: if_splits)
    with "2.prems" show ?thesis by simp
  qed
qed auto

text \<open>
  A call returns a batch and drops it from the channel, or returns the error that comes first.
\<close>

definition todo_messages :: "BridgeListStream \<Rightarrow> (hdfs_error + FileStatus) list" where
  "todo_messages s = (case pending_error s of Some e \<Rightarrow> [Inl e] | None \<Rightarrow> []) @ rx s"

lemma next_batch_cases:
  obtains (batch) b s' where "next_batch m ready s = (Inr b, s')" "b \<noteq> []" "length b \<le> max (unat m) 1"
      "todo_messages s = map Inr b @ todo_messages s'" "task s' = task s"
  | (error) e s' where "next_batch m ready s = (Inl e, s')" "todo_messages s = Inl e # todo_messages s'"
      "task s' = task s"
  | (died) e s' where "next_batch m ready s =
        (Inl (IOError (IoError (KOther (lit ''Other'')) (lit ''walker task died: '' @ e))), s')"
      "todo_messages s = []" "task s = Some (Some e)" "todo_messages s' = []" "task s' = None"
  | (finished) s' where "next_batch m ready s = (Inr [], s')" "todo_messages s = []" "todo_messages s' = []"
      "task s \<in> {None, Some None}" "task s' = None"
proof (cases "pending_error s")
  case (Some e)
  then show ?thesis by (intro error [of e "s\<lparr>pending_error := None\<rparr>"]) (simp_all add: next_batch_def todo_messages_def)
next
  case none: None
  show ?thesis
  proof (cases "rx s")
    case Nil
    consider e where "task s = Some (Some e)" | "task s = Some None" | "task s = None" by (metis not_None_eq)
    then show ?thesis
    proof cases
      case 1
      with none Nil show ?thesis
        by (intro died [of e "s\<lparr>task := None\<rparr>"]) (simp_all add: next_batch_def todo_messages_def)
    next
      case 2
      with none Nil show ?thesis
        by (intro finished [of "s\<lparr>task := None\<rparr>"]) (simp_all add: next_batch_def todo_messages_def)
    next
      case 3
      with none Nil show ?thesis
        by (intro finished [of s]) (simp_all add: next_batch_def todo_messages_def)
    qed
  next
    case (Cons msg ms)
    show ?thesis
    proof (cases msg)
      case (Inl e)
      with none Cons show ?thesis by (intro error [of e "s\<lparr>rx := ms\<rparr>"]) (simp_all add: next_batch_def todo_messages_def)
    next
      case (Inr x)
      obtain b s' where b: "fill_batch (unat (max m 1)) ready [x] (s\<lparr>rx := ms\<rparr>) = (b, s')" by force
      from fill_batch_spec [OF b] none obtain xs where "b = [x] @ xs" "length b \<le> max (unat m) 1"
        "ms = map Inr xs @ (case pending_error s' of Some e \<Rightarrow> [Inl e] | None \<Rightarrow> []) @ rx s'" "task s' = task s"
        by (auto simp: unat_max_1)
      with b none Cons Inr show ?thesis
        by (intro batch [of b s']) (simp_all add: next_batch_def todo_messages_def)
    qed
  qed
qed

section \<open>Reading a stream to its end\<close>

text \<open>
  A consumer that calls \<open>next_batch\<close>, with any batch sizes and any timing of the walk, until it
  gets an error or an empty batch: the entries it collects, and how the reading ended (\<open>None\<close> when
  it stopped calling before).
\<close>

fun read_all :: "(usize \<times> nat) list \<Rightarrow> BridgeListStream \<Rightarrow> FileStatus list \<times> hdfs_error option option" where
  "read_all [] s = ([], None)"
| "read_all ((m, ready) # calls) s =
     (case next_batch m ready s of
        (Inl e, s') \<Rightarrow> ([], Some (Some e))
      | (Inr b, s') \<Rightarrow>
          if b = [] then ([], Some None)
          else let (xs, r) = read_all calls s' in (b @ xs, r))"

definition walker_died :: "rstring \<Rightarrow> hdfs_error" where
  "walker_died e = IOError (IoError (KOther (lit ''Other'')) (lit ''walker task died: '' @ e))"

text \<open>How a stream with the given messages and task has to end.\<close>

definition stream_outcome :: "(hdfs_error + FileStatus) list \<Rightarrow> join_result option \<Rightarrow> hdfs_error option" where
  "stream_outcome rest t =
     (case rest of
        Inl e # _ \<Rightarrow> Some e
      | _ \<Rightarrow> (case t of Some (Some d) \<Rightarrow> Some (walker_died d) | _ \<Rightarrow> None))"

definition no_entry_first :: "(hdfs_error + FileStatus) list \<Rightarrow> bool" where
  "no_entry_first rest \<longleftrightarrow> (\<forall>x r. rest \<noteq> Inr x # r)"

lemma entries_prefix:
  "map Inr b @ t = map Inr xs @ rest \<Longrightarrow> no_entry_first rest \<Longrightarrow>
   \<exists>ys. xs = b @ ys \<and> t = map Inr ys @ rest"
proof (induction b arbitrary: xs)
  case (Cons x b)
  then show ?case by (cases xs) (auto simp: no_entry_first_def)
qed simp

lemma read_all_spec:
  assumes "todo_messages s = map Inr xs @ rest" and "no_entry_first rest" and "length xs < length calls"
  shows "read_all calls s = (xs, Some (stream_outcome rest (task s)))"
  using assms(1,3)
proof (induction calls arbitrary: s xs)
  case (Cons call calls)
  obtain m ready where call: "call = (m, ready)" by force
  show ?case
  proof (cases rule: next_batch_cases [of m ready s, case_names batch error died finished])
    case (batch b s')
    then obtain ys where ys: "xs = b @ ys" "todo_messages s' = map Inr ys @ rest"
      using entries_prefix [of b "todo_messages s'" xs rest] Cons.prems(1) assms(2) by auto
    with batch Cons.prems(2) have "length ys < length calls" by (cases b) auto
    with Cons.IH [OF ys(2)] batch ys(1) call show ?thesis by simp
  next
    case (error e s')
    then have "xs = []" using Cons.prems(1) by (cases xs) auto
    with error Cons.prems(1) call show ?thesis by (auto simp: stream_outcome_def)
  next
    case (died e s')
    with Cons.prems(1) call show ?thesis by (auto simp: stream_outcome_def walker_died_def)
  next
    case (finished s')
    with Cons.prems(1) call show ?thesis by (auto simp: stream_outcome_def)
  qed
qed simp

text \<open>After an error that was the last message, a stream is at its end.\<close>

lemma after_last_error:
  assumes "todo_messages s = [Inl e]" and "task s = Some None"
  shows "fst (next_batch m ready s) = Inl e"
    and "fst (next_batch m' ready' (snd (next_batch m ready s))) = Inr []"
proof -
  obtain s' where s': "next_batch m ready s = (Inl e, s')" "todo_messages s' = []" "task s' = Some None"
    using assms by (cases rule: next_batch_cases [of m ready s, case_names batch error died finished])
      (auto simp: append_eq_Cons_conv)
  then show "fst (next_batch m ready s) = Inl e" by simp
  show "fst (next_batch m' ready' (snd (next_batch m ready s))) = Inr []"
    using s' by (cases rule: next_batch_cases [of m' ready' s', case_names batch error died finished]) auto
qed

text \<open>Reading the stream of a walk.\<close>

lemma read_walk_completed:
  assumes "well_sent t" and "status t = Completed" and "length (sent t) < length calls"
  shows "read_all calls (stream_of t died path) = (oks (sent t), Some None)"
proof -
  obtain xs where xs: "sent t = map Inr xs" using assms(1,2) by (auto simp: well_sent_def)
  then have "read_all calls (stream_of t died path) = (xs, Some (stream_outcome [] (task (stream_of t died path))))"
    using assms(3) by (intro read_all_spec) (simp_all add: stream_of_def todo_messages_def no_entry_first_def)
  with xs assms(2) show ?thesis by (simp add: stream_of_def stream_outcome_def)
qed

lemma read_walk_failed:
  assumes "well_sent t" and "status t = Failed" and "length (sent t) < length calls"
  shows "\<exists>e. Inl e \<in> set (sent t) \<and> read_all calls (stream_of t died path) = (oks (sent t), Some (Some e))"
proof -
  obtain xs e where xs: "sent t = map Inr xs @ [Inl e]" using assms(1,2) by (auto simp: well_sent_def)
  then have "read_all calls (stream_of t died path) =
      (xs, Some (stream_outcome [Inl e] (task (stream_of t died path))))"
    using assms(3) by (intro read_all_spec) (simp_all add: stream_of_def todo_messages_def no_entry_first_def)
  with xs show ?thesis by (auto simp: stream_outcome_def)
qed

lemma clamp_positive: "0 < unat (max w (1 :: usize))"
  by (simp add: unat_max_1)

section \<open>Properties\<close>

text \<open>
  One call of \<open>next_batch\<close>: a batch has between one and \<open>max_entries\<close> entries (at least one is
  allowed even for zero) and the entries are the next ones, in order, whatever the timing; an empty
  batch is given only when no message is left and the walker task did not die.
\<close>

theorem next_batch_contract:
  assumes "next_batch m ready s = (Inr b, s')"
  shows "length b \<le> max (unat m) 1 \<and> todo_messages s = map Inr b @ todo_messages s' \<and>
    (b = [] \<longrightarrow> todo_messages s = [] \<and> (\<forall>d. task s \<noteq> Some (Some d)))"
  using assms
  by (cases rule: next_batch_cases [of m ready s, case_names batch error died finished]) auto

theorem next_batch_contract_witness:
  "length [demo_entry ''/d/x'' False] \<le> max (unat (0 :: usize)) 1"
proof -
  let ?s = "\<lparr>rx = [Inr (demo_entry ''/d/x'' False), Inr (demo_entry ''/d/s'' True)], task = Some None,
    stream_path = [], pending_error = None\<rparr>"
  have "next_batch 0 5 ?s = (Inr [demo_entry ''/d/x'' False], ?s\<lparr>rx := [Inr (demo_entry ''/d/s'' True)]\<rparr>)"
    by (simp add: next_batch_def eval_nat_numeral unat_max_1)
  from next_batch_contract [OF this] show ?thesis by blast
qed

text \<open>
  C14. Reading a stream to its end gives every entry sent before the first error, in order, and then
  that error; without an error it ends cleanly, unless the walker task died, which is reported as
  an error and never as a clean end. At most one call more than there are entries is needed, for
  any batch sizes and any timing.
\<close>

theorem stream_reads_everything:
  assumes "rx s = map Inr xs @ rest" and "pending_error s = None"
    and "no_entry_first rest" and "length xs < length calls"
  shows "read_all calls s = (xs, Some (stream_outcome rest (task s)))"
  using assms by (intro read_all_spec) (simp_all add: todo_messages_def)

theorem stream_reads_everything_witness:
  "read_all [(1, 0), (9, 9), (1, 1)] \<lparr>rx = [Inr (demo_entry ''/d/x'' False), Inr (demo_entry ''/d/s'' True)],
     task = Some (Some (lit ''panicked'')), stream_path = [], pending_error = None\<rparr> =
   ([demo_entry ''/d/x'' False, demo_entry ''/d/s'' True], Some (Some (walker_died (lit ''panicked''))))"
  using stream_reads_everything [of "\<lparr>rx = [Inr (demo_entry ''/d/x'' False), Inr (demo_entry ''/d/s'' True)],
     task = Some (Some (lit ''panicked'')), stream_path = [], pending_error = None\<rparr>"
     "[demo_entry ''/d/x'' False, demo_entry ''/d/s'' True]" "[]" "[(1, 0), (9, 9), (1, 1)]"]
  by (simp add: no_entry_first_def stream_outcome_def)

text \<open>
  C38. An error that arrives in the middle of a batch is not lost and not repeated: after the error
  of a walk has been returned once, the stream is at its end.
\<close>

theorem error_surfaces_once:
  assumes "rx s = [Inl e] \<and> pending_error s = None \<or> rx s = [] \<and> pending_error s = Some e"
    and "task s = Some None"
  shows "fst (next_batch m ready s) = Inl e \<and>
    fst (next_batch m' ready' (snd (next_batch m ready s))) = Inr []"
proof -
  have "todo_messages s = [Inl e]" using assms(1) by (auto simp: todo_messages_def)
  from after_last_error [OF this assms(2)] show ?thesis by blast
qed

theorem error_surfaces_once_witness:
  "fst (next_batch 1 0 \<lparr>rx = [], task = Some None, stream_path = [], pending_error = Some (FileNotFound [])\<rparr>) =
   Inl (FileNotFound [])"
  using error_surfaces_once [of "\<lparr>rx = [], task = Some None, stream_path = [],
      pending_error = Some (FileNotFound [])\<rparr>" "FileNotFound []" 1 0] by simp

end
