(* ===== verification/Utf8.thy ===== *)
theory Utf8
  imports Prelude
begin

text \<open>
  Strings at the C boundary: a Rust \<^verbatim>\<open>String\<close> is stored as UTF-8, \<^verbatim>\<open>CString\<close> holds its bytes,
  and \<^verbatim>\<open>CStr::to_string_lossy\<close> decodes bytes that need not be valid, every maximal invalid piece
  becoming one replacement character. The decoder follows the ranges of the standard library's
  \<^verbatim>\<open>Utf8Chunks\<close>. The result is the round trip: what the bridge encodes it decodes unchanged.
\<close>

type_synonym byte = nat

text \<open>The Unicode scalar values, what a Rust \<^verbatim>\<open>char\<close> can be.\<close>

definition is_scalar :: "rchar \<Rightarrow> bool" where
  "is_scalar c \<longleftrightarrow> c < 0xD800 \<or> 0xE000 \<le> c \<and> c < 0x110000"

definition encode_char :: "rchar \<Rightarrow> byte list" where
  "encode_char c =
     (if c < 0x80 then [c]
      else if c < 0x800 then [0xC0 + c div 64, 0x80 + c mod 64]
      else if c < 0x10000 then [0xE0 + c div 4096, 0x80 + c div 64 mod 64, 0x80 + c mod 64]
      else [0xF0 + c div 262144, 0x80 + c div 4096 mod 64, 0x80 + c div 64 mod 64, 0x80 + c mod 64])"

definition encode :: "rstring \<Rightarrow> byte list" where
  "encode s = concat (map encode_char s)"

definition is_cont :: "byte \<Rightarrow> bool" where
  "is_cont b \<longleftrightarrow> 0x80 \<le> b \<and> b \<le> 0xBF"

text \<open>Which second bytes may follow the first byte of a three-byte and of a four-byte sequence.\<close>

definition second_of_3 :: "byte \<Rightarrow> byte \<Rightarrow> bool" where
  "second_of_3 a b \<longleftrightarrow>
     (if a = 0xE0 then 0xA0 \<le> b \<and> b \<le> 0xBF
      else if a = 0xED then 0x80 \<le> b \<and> b \<le> 0x9F
      else 0x80 \<le> b \<and> b \<le> 0xBF)"

definition second_of_4 :: "byte \<Rightarrow> byte \<Rightarrow> bool" where
  "second_of_4 a b \<longleftrightarrow>
     (if a = 0xF0 then 0x90 \<le> b \<and> b \<le> 0xBF
      else if a = 0xF4 then 0x80 \<le> b \<and> b \<le> 0x8F
      else 0x80 \<le> b \<and> b \<le> 0xBF)"

abbreviation (input) replacement :: rchar where "replacement \<equiv> 0xFFFD"

text \<open>One character off the front of a byte string, with the bytes it took.\<close>

fun decode_char :: "byte list \<Rightarrow> rchar \<times> nat" where
  "decode_char [] = (replacement, 1)"
| "decode_char (a # bs) =
     (if a < 0x80 then (a, 1)
      else if 0xC2 \<le> a \<and> a \<le> 0xDF then
        (case bs of
           b # _ \<Rightarrow> if is_cont b then ((a - 0xC0) * 64 + (b - 0x80), 2) else (replacement, 1)
         | [] \<Rightarrow> (replacement, 1))
      else if 0xE0 \<le> a \<and> a \<le> 0xEF then
        (case bs of
           b # bs' \<Rightarrow>
             if second_of_3 a b then
               (case bs' of
                  c # _ \<Rightarrow> if is_cont c then ((a - 0xE0) * 4096 + (b - 0x80) * 64 + (c - 0x80), 3)
                          else (replacement, 2)
                | [] \<Rightarrow> (replacement, 2))
             else (replacement, 1)
         | [] \<Rightarrow> (replacement, 1))
      else if 0xF0 \<le> a \<and> a \<le> 0xF4 then
        (case bs of
           b # bs' \<Rightarrow>
             if second_of_4 a b then
               (case bs' of
                  c # bs'' \<Rightarrow>
                    if is_cont c then
                      (case bs'' of
                         d # _ \<Rightarrow>
                           if is_cont d then
                             ((a - 0xF0) * 262144 + (b - 0x80) * 4096 + (c - 0x80) * 64 + (d - 0x80), 4)
                           else (replacement, 3)
                       | [] \<Rightarrow> (replacement, 3))
                    else (replacement, 2)
                | [] \<Rightarrow> (replacement, 2))
             else (replacement, 1)
         | [] \<Rightarrow> (replacement, 1))
      else (replacement, 1))"

lemma decode_char_pos: "0 < snd (decode_char bs)"
  by (cases bs) (auto split: list.splits)

function decode_lossy :: "byte list \<Rightarrow> rstring" where
  "decode_lossy bs =
     (if bs = [] then []
      else let (c, n) = decode_char bs in c # decode_lossy (drop n bs))"
  by pat_completeness auto
termination
  by (relation "measure length") (auto, metis decode_char_pos diff_less length_greater_0_conv snd_conv)

declare decode_lossy.simps [simp del]

section \<open>Round trip\<close>

lemma decode_encode_char:
  assumes "is_scalar c"
  shows "decode_char (encode_char c @ bs) = (c, length (encode_char c))"
proof -
  have m: "c mod 64 < 64" "c div 64 mod 64 < 64" "c div 4096 mod 64 < 64" by simp_all
  have s1: "c = c div 64 * 64 + c mod 64" by simp
  have s2: "c div 64 = c div 4096 * 64 + c div 64 mod 64"
    using div_mult2_eq [of c 64 64] div_mult_mod_eq [of "c div 64" 64] by simp
  have s3: "c div 4096 = c div 262144 * 64 + c div 4096 mod 64"
    using div_mult2_eq [of c 4096 64] div_mult_mod_eq [of "c div 4096" 64] by simp
  consider (one) "c < 0x80" | (two) "0x80 \<le> c" "c < 0x800" | (three) "0x800 \<le> c" "c < 0x10000"
    | (four) "0x10000 \<le> c" "c < 0x110000"
    using assms unfolding is_scalar_def by linarith
  then show ?thesis
  proof cases
    case one
    then show ?thesis by (simp add: encode_char_def)
  next
    case two
    have enc: "encode_char c = [0xC0 + c div 64, 0x80 + c mod 64]" using two by (simp add: encode_char_def)
    have "2 \<le> c div 64" "c div 64 < 32" using two by auto
    moreover have "is_cont (0x80 + c mod 64)" using m(1) unfolding is_cont_def by linarith
    ultimately show ?thesis unfolding enc by simp
  next
    case three
    have enc: "encode_char c = [0xE0 + c div 4096, 0x80 + c div 64 mod 64, 0x80 + c mod 64]"
      using three by (simp add: encode_char_def)
    have hi: "c div 4096 < 16" using three by auto
    have lo: "c div 4096 = 0 \<Longrightarrow> 32 \<le> c div 64 mod 64" using three s2 by auto
    have surr: "c div 4096 = 13 \<Longrightarrow> c div 64 mod 64 < 32"
      using assms three s1 s2 m unfolding is_scalar_def by linarith
    have sum: "c div 4096 * 4096 + c div 64 mod 64 * 64 + c mod 64 = c" using s1 s2 by linarith
    have "second_of_3 (0xE0 + c div 4096) (0x80 + c div 64 mod 64)"
      using m(2) lo surr by (auto simp: second_of_3_def)
    moreover have "is_cont (0x80 + c mod 64)" using m(1) unfolding is_cont_def by linarith
    ultimately show ?thesis unfolding enc using hi sum by simp
  next
    case four
    have enc: "encode_char c =
        [0xF0 + c div 262144, 0x80 + c div 4096 mod 64, 0x80 + c div 64 mod 64, 0x80 + c mod 64]"
      using four by (simp add: encode_char_def)
    have hi: "c div 262144 < 5" using four by auto
    have lo: "c div 262144 = 0 \<Longrightarrow> 16 \<le> c div 4096 mod 64" using four s3 by auto
    have top: "c div 262144 = 4 \<Longrightarrow> c div 4096 mod 64 < 16" using four s1 s2 s3 m by linarith
    have sum: "c div 262144 * 262144 + c div 4096 mod 64 * 4096 + c div 64 mod 64 * 64 + c mod 64 = c"
      using s1 s2 s3 by linarith
    have "second_of_4 (0xF0 + c div 262144) (0x80 + c div 4096 mod 64)"
      using m(3) lo top by (auto simp: second_of_4_def)
    moreover have "is_cont (0x80 + c div 64 mod 64)" "is_cont (0x80 + c mod 64)"
      using m(1,2) unfolding is_cont_def by linarith+
    ultimately show ?thesis unfolding enc using hi sum by simp
  qed
qed

lemma decode_encode:
  "list_all is_scalar s \<Longrightarrow> decode_lossy (encode s) = s"
proof (induction s)
  case Nil
  then show ?case by (simp add: encode_def decode_lossy.simps)
next
  case (Cons c s)
  have "encode_char c \<noteq> []" by (simp add: encode_char_def)
  with Cons decode_encode_char [of c "encode s"] show ?case
    by (subst decode_lossy.simps) (simp add: encode_def)
qed

text \<open>NUL is encoded as itself and by nothing else, so encoded strings without it are C strings.\<close>

lemma encode_char_nul: "0 \<in> set (encode_char c) \<longleftrightarrow> c = 0"
  by (auto simp: encode_char_def)

lemma encode_nul: "0 \<in> set (encode s) \<longleftrightarrow> 0 \<in> set s"
  by (auto simp: encode_def encode_char_nul)

lemma decode_empty: "decode_lossy bs = [] \<longleftrightarrow> bs = []"
  by (subst decode_lossy.simps) (simp add: Let_def split: prod.splits)

end
