(* ===== verification/Bridge_Client.thy ===== *)
theory Bridge_Client
  imports List_Stream Utf8
begin

text \<open>
  The blocking wrappers of \<^verbatim>\<open>hdfs-bridge/src/client.rs\<close>: the process-wide runtime, connecting, and
  the operations that forward to \<^verbatim>\<open>hdfs-native\<close>.

  \<^verbatim>\<open>hdfs-native\<close> and Tokio are not part of the program. The record \<open>hdfs_native\<close> holds the
  operations the wrappers call, as functions of the state of the cluster (type \<open>'w\<close>) on opaque
  clients \<open>'c\<close>, readers \<open>'r\<close>, writers \<open>'o\<close> and runtimes \<open>'t\<close>; every definition takes it as its
  parameter.
\<close>

record WriteOptions =
  overwrite :: bool
  create_parent :: bool

record ClientBuilder =
  with_url :: "rstring option"
  with_config_dir :: "rstring option"
  with_user :: "rstring option"

record ('w, 'c, 'r, 'o, 't) hdfs_native =
  n_build_runtime :: "'w \<Rightarrow> io_error + 't"
  n_build :: "'t \<Rightarrow> ClientBuilder \<Rightarrow> 'w \<Rightarrow> hdfs_error + 'c"
  n_get_file_info :: "'c \<Rightarrow> rstring \<Rightarrow> 'w \<Rightarrow> hdfs_error + FileStatus"
  n_list_status :: "'c \<Rightarrow> rstring \<Rightarrow> 'w \<Rightarrow> hdfs_error + FileStatus list"
  n_read :: "'c \<Rightarrow> rstring \<Rightarrow> 'w \<Rightarrow> hdfs_error + 'r"
  n_create :: "'c \<Rightarrow> rstring \<Rightarrow> WriteOptions \<Rightarrow> 'w \<Rightarrow> (hdfs_error + 'o) \<times> 'w"
  n_mkdirs :: "'c \<Rightarrow> rstring \<Rightarrow> u32 \<Rightarrow> bool \<Rightarrow> 'w \<Rightarrow> (hdfs_error + unit) \<times> 'w"
  n_delete :: "'c \<Rightarrow> rstring \<Rightarrow> bool \<Rightarrow> 'w \<Rightarrow> (hdfs_error + bool) \<times> 'w"
  n_rename :: "'c \<Rightarrow> rstring \<Rightarrow> rstring \<Rightarrow> bool \<Rightarrow> 'w \<Rightarrow> (hdfs_error + unit) \<times> 'w"
  n_file_length :: "'r \<Rightarrow> usize"
  n_read_range_buf :: "'r \<Rightarrow> byte list \<Rightarrow> usize \<Rightarrow> 'w \<Rightarrow> (hdfs_error + unit) \<times> byte list"
  n_write_bytes :: "'o \<Rightarrow> byte list \<Rightarrow> 'w \<Rightarrow> (hdfs_error + usize) \<times> 'o \<times> 'w"
  n_close :: "'o \<Rightarrow> 'w \<Rightarrow> (hdfs_error + unit) \<times> 'w"
  n_show :: "hdfs_error \<Rightarrow> rstring"
  n_show_io :: "io_error \<Rightarrow> rstring"

section \<open>The runtime\<close>

text \<open>
  \<^verbatim>\<open>shared_runtime\<close>: the slot is the static \<^verbatim>\<open>RUNTIME\<close>, held under its lock. A failure is
  returned and not cached.
\<close>

definition shared_runtime ::
  "('w, 'c, 'r, 'o, 't) hdfs_native \<Rightarrow> 'w \<Rightarrow> 't option \<Rightarrow> (hdfs_error + 't) \<times> 't option" where
  "shared_runtime N w slot =
     (case slot of
        Some rt \<Rightarrow> (Inr rt, slot)
      | None \<Rightarrow>
          (case n_build_runtime N w of
             Inl e \<Rightarrow> (Inl (IOError (IoError (kind e) (lit ''failed to start IO runtime: '' @ n_show_io N e))), slot)
           | Inr rt \<Rightarrow> (Inr rt, Some rt)))"

section \<open>Clients\<close>

record ('c, 't) BridgeClient =
  cl_inner :: 'c
  cl_rt :: 't

definition connect ::
  "('w, 'c, 'r, 'o, 't) hdfs_native \<Rightarrow> rstring option \<Rightarrow> rstring option \<Rightarrow> rstring option \<Rightarrow> 'w \<Rightarrow> 't option
     \<Rightarrow> (hdfs_error + ('c, 't) BridgeClient) \<times> 't option" where
  "connect N url config_dir user w slot =
     (case shared_runtime N w slot of
        (Inl e, slot') \<Rightarrow> (Inl e, slot')
      | (Inr rt, slot') \<Rightarrow>
          (let builder = \<lparr>with_url = None, with_config_dir = None, with_user = None\<rparr>;
               builder = (case url of Some u \<Rightarrow> builder\<lparr>with_url := Some u\<rparr> | None \<Rightarrow> builder);
               builder = (case config_dir of Some d \<Rightarrow> builder\<lparr>with_config_dir := Some d\<rparr> | None \<Rightarrow> builder);
               builder = (case user of Some u \<Rightarrow> builder\<lparr>with_user := Some u\<rparr> | None \<Rightarrow> builder)
           in (case n_build N rt builder w of
                 Inl e \<Rightarrow> (Inl e, slot')
               | Inr c \<Rightarrow> (Inr \<lparr>cl_inner = c, cl_rt = rt\<rparr>, slot'))))"

definition get_file_info ::
  "('w, 'c, 'r, 'o, 't) hdfs_native \<Rightarrow> ('c, 't) BridgeClient \<Rightarrow> rstring \<Rightarrow> 'w \<Rightarrow> hdfs_error + FileStatus" where
  "get_file_info N client path w = n_get_file_info N (cl_inner client) path w"

record ('r, 't) BridgeReader =
  rd_inner :: 'r
  rd_rt :: 't

record ('o, 't) BridgeWriter =
  wr_inner :: 'o
  wr_rt :: 't

definition open_reader ::
  "('w, 'c, 'r, 'o, 't) hdfs_native \<Rightarrow> ('c, 't) BridgeClient \<Rightarrow> rstring \<Rightarrow> 'w
     \<Rightarrow> hdfs_error + ('r, 't) BridgeReader" where
  "open_reader N client path w =
     (case n_read N (cl_inner client) path w of
        Inl e \<Rightarrow> Inl e
      | Inr r \<Rightarrow> Inr \<lparr>rd_inner = r, rd_rt = cl_rt client\<rparr>)"

definition create ::
  "('w, 'c, 'r, 'o, 't) hdfs_native \<Rightarrow> ('c, 't) BridgeClient \<Rightarrow> rstring \<Rightarrow> bool \<Rightarrow> 'w
     \<Rightarrow> (hdfs_error + ('o, 't) BridgeWriter) \<times> 'w" where
  "create N client path ow w =
     (case n_create N (cl_inner client) path \<lparr>overwrite = ow, create_parent = True\<rparr> w of
        (Inl e, w') \<Rightarrow> (Inl e, w')
      | (Inr wr, w') \<Rightarrow> (Inr \<lparr>wr_inner = wr, wr_rt = cl_rt client\<rparr>, w'))"

text \<open>The walks of a client list its cluster as it is while they run.\<close>

definition client_list_stream ::
  "('w, 'c, 'r, 'o, 't) hdfs_native \<Rightarrow> ('c, 't) BridgeClient \<Rightarrow> rstring \<Rightarrow> bool \<Rightarrow> usize \<Rightarrow> WalkOptions
     \<Rightarrow> 'w \<Rightarrow> rstring \<Rightarrow> nat list \<Rightarrow> BridgeListStream" where
  "client_list_stream N client path recursive max_parallelism options w died ks =
     list_stream (\<lambda>p. n_list_status N (cl_inner client) p w) path recursive max_parallelism options died ks"

definition client_glob_stream ::
  "('w, 'c, 'r, 'o, 't) hdfs_native \<Rightarrow> ('c, 't) BridgeClient \<Rightarrow> rstring \<Rightarrow> usize \<Rightarrow> WalkOptions
     \<Rightarrow> 'w \<Rightarrow> rstring \<Rightarrow> nat list \<Rightarrow> (hdfs_error + BridgeListStream) option" where
  "client_glob_stream N client pattern max_parallelism options w died ks =
     glob_stream (\<lambda>p. n_list_status N (cl_inner client) p w) (\<lambda>p. n_get_file_info N (cl_inner client) p w)
       pattern max_parallelism options died ks"

text \<open>Mode \<^verbatim>\<open>0o755\<close>, parents created.\<close>

definition mkdirs ::
  "('w, 'c, 'r, 'o, 't) hdfs_native \<Rightarrow> ('c, 't) BridgeClient \<Rightarrow> rstring \<Rightarrow> 'w \<Rightarrow> (hdfs_error + unit) \<times> 'w" where
  "mkdirs N client path w = n_mkdirs N (cl_inner client) path 493 True w"

definition delete ::
  "('w, 'c, 'r, 'o, 't) hdfs_native \<Rightarrow> ('c, 't) BridgeClient \<Rightarrow> rstring \<Rightarrow> bool \<Rightarrow> 'w \<Rightarrow> (hdfs_error + bool) \<times> 'w" where
  "delete N client path recursive w = n_delete N (cl_inner client) path recursive w"

definition rename ::
  "('w, 'c, 'r, 'o, 't) hdfs_native \<Rightarrow> ('c, 't) BridgeClient \<Rightarrow> rstring \<Rightarrow> rstring \<Rightarrow> bool \<Rightarrow> 'w
     \<Rightarrow> (hdfs_error + unit) \<times> 'w" where
  "rename N client src dst ow w = n_rename N (cl_inner client) src dst ow w"

section \<open>Readers and writers\<close>

definition file_length :: "('w, 'c, 'r, 'o, 't) hdfs_native \<Rightarrow> ('r, 't) BridgeReader \<Rightarrow> usize" where
  "file_length N reader = n_file_length N (rd_inner reader)"

definition read_range_buf ::
  "('w, 'c, 'r, 'o, 't) hdfs_native \<Rightarrow> ('r, 't) BridgeReader \<Rightarrow> byte list \<Rightarrow> usize \<Rightarrow> 'w
     \<Rightarrow> (hdfs_error + unit) \<times> byte list" where
  "read_range_buf N reader buf offset w = n_read_range_buf N (rd_inner reader) buf offset w"

definition write_data ::
  "('w, 'c, 'r, 'o, 't) hdfs_native \<Rightarrow> ('o, 't) BridgeWriter \<Rightarrow> byte list \<Rightarrow> 'w
     \<Rightarrow> (hdfs_error + unit) \<times> ('o, 't) BridgeWriter \<times> 'w" where
  "write_data N writer data w =
     (case n_write_bytes N (wr_inner writer) data w of
        (r, wr, w') \<Rightarrow> ((case r of Inl e \<Rightarrow> Inl e | Inr _ \<Rightarrow> Inr ()), writer\<lparr>wr_inner := wr\<rparr>, w'))"

definition close_writer ::
  "('w, 'c, 'r, 'o, 't) hdfs_native \<Rightarrow> ('o, 't) BridgeWriter \<Rightarrow> 'w \<Rightarrow> (hdfs_error + unit) \<times> 'w" where
  "close_writer N writer w = n_close N (wr_inner writer) w"

section \<open>One runtime for all clients\<close>

text \<open>A sequence of connection attempts, each in the state the cluster has then.\<close>

fun connect_all ::
  "('w, 'c, 'r, 'o, 't) hdfs_native \<Rightarrow> (rstring option \<times> rstring option \<times> rstring option \<times> 'w) list \<Rightarrow> 't option
     \<Rightarrow> (hdfs_error + ('c, 't) BridgeClient) list \<times> 't option" where
  "connect_all N [] slot = ([], slot)"
| "connect_all N ((url, dir, user, w) # calls) slot =
     (let (r, slot') = connect N url dir user w slot; (rs, slot'') = connect_all N calls slot'
      in (r # rs, slot''))"

lemma connect_slot:
  assumes "connect N url dir user w slot = (r, slot')"
  shows "slot \<noteq> None \<Longrightarrow> slot' = slot" and "r = Inr c \<Longrightarrow> slot' = Some (cl_rt c)"
    and "slot = None \<Longrightarrow> slot' = Some rt \<Longrightarrow> n_build_runtime N w = Inr rt"
  using assms by (auto simp: connect_def shared_runtime_def Let_def split: option.splits sum.splits)

lemma connect_all_slot:
  "connect_all N calls slot = (rs, slot') \<Longrightarrow>
     (slot \<noteq> None \<longrightarrow> slot' = slot) \<and> (\<forall>c. Inr c \<in> set rs \<longrightarrow> slot' = Some (cl_rt c))"
proof (induction calls arbitrary: slot rs)
  case (Cons call calls)
  obtain url dir user w where call: "call = (url, dir, user, w)" by (cases call)
  obtain r slot1 where r: "connect N url dir user w slot = (r, slot1)" by force
  from Cons.prems obtain rs1 where rs1: "connect_all N calls slot1 = (rs1, slot')" and eq: "rs = r # rs1"
    unfolding call by (auto simp: r split: prod.splits)
  note IH = Cons.IH [OF rs1]
  show ?case
  proof (intro conjI allI impI)
    assume "slot \<noteq> None"
    with connect_slot(1) [OF r] IH show "slot' = slot" by (simp add: eq)
  next
    fix c
    assume "Inr c \<in> set rs"
    then consider "r = Inr c" | "Inr c \<in> set rs1" by (auto simp: eq)
    then show "slot' = Some (cl_rt c)"
    proof cases
      case 1
      with connect_slot(2) [OF r] IH show ?thesis by (simp add: eq)
    next
      case 2
      with IH show ?thesis by (simp add: eq)
    qed
  qed
qed simp

text \<open>
  C39. All clients of the process run on one runtime, however many connect and however many attempts
  fail in between; and once a runtime exists it is never replaced.
\<close>

theorem one_runtime:
  assumes "connect_all N calls slot = (rs, slot')" and "Inr c \<in> set rs" and "Inr d \<in> set rs"
  shows "cl_rt c = cl_rt d \<and> slot' = Some (cl_rt c) \<and> (\<forall>rt. slot = Some rt \<longrightarrow> cl_rt c = rt)"
  using connect_all_slot [OF assms(1)] assms(2,3) by auto

text \<open>
  A failure to start the runtime is not cached: the attempt that fails leaves the slot empty,
  keeps the kind of the error, and the next attempt builds the runtime anew.
\<close>

theorem runtime_failure_not_cached:
  assumes "n_build_runtime N w = Inl e"
  shows "shared_runtime N w None =
      (Inl (IOError (IoError (kind e) (lit ''failed to start IO runtime: '' @ n_show_io N e))), None) \<and>
    (\<forall>w' rt. n_build_runtime N w' = Inr rt \<longrightarrow>
      shared_runtime N w' (snd (shared_runtime N w None)) = (Inr rt, Some rt))"
  using assms by (simp add: shared_runtime_def)

text \<open>The unit test of \<^verbatim>\<open>client.rs\<close>: two requests give the same runtime. A failed \<^verbatim>\<open>unwrap\<close> fails the test.\<close>

definition runtime_is_process_wide :: "('w, 'c, 'r, 'o, 't) hdfs_native \<Rightarrow> 'w \<Rightarrow> 'w \<Rightarrow> bool" where
  "runtime_is_process_wide N w w' =
     (let (a, slot) = shared_runtime N w None; (b, slot) = shared_runtime N w' slot
      in (case (a, b) of (Inr x, Inr y) \<Rightarrow> x = y | _ \<Rightarrow> False))"

lemma runtime_is_process_wide_holds:
  "n_build_runtime N w = Inr rt \<Longrightarrow> runtime_is_process_wide N w w'"
  by (simp add: runtime_is_process_wide_def shared_runtime_def)

section \<open>A small cluster\<close>

text \<open>An instance of the parameter: the namespace of \<open>demo_ls\<close>, whose runtime starts in odd states.\<close>

definition demo_native :: "(nat, unit, byte list, byte list, nat) hdfs_native" where
  "demo_native = \<lparr>
     n_build_runtime = (\<lambda>w. if odd w then Inr w else Inl (IoError KTimedOut [])),
     n_build = (\<lambda>_ _ _. Inr ()),
     n_get_file_info = (\<lambda>_ p _. demo_info p),
     n_list_status = (\<lambda>_ p _. demo_ls p),
     n_read = (\<lambda>_ p _. if p = lit ''/d/x'' then Inr [7, 8, 9] else Inl (FileNotFound p)),
     n_create = (\<lambda>_ p opts w. if overwrite opts then (Inr [], w + 1) else (Inl (AlreadyExists p), w)),
     n_mkdirs = (\<lambda>_ p _ _ w. if p = lit ''/f'' then (Inl (InvalidPath p), w) else (Inr (), w + 1)),
     n_delete = (\<lambda>_ p _ w. (Inr (p = lit ''/d/x''), w + 1)),
     n_rename = (\<lambda>_ p q ow w. if ow then (Inr (), w + 1) else (Inl (AlreadyExists q), w)),
     n_file_length = (\<lambda>r. of_nat (length r)),
     n_read_range_buf = (\<lambda>r buf off _. if unat off + length buf \<le> length r
        then (Inr (), take (length buf) (drop (unat off) r))
        else (Inl (IOError (IoError KUnexpectedEof [])), buf)),
     n_write_bytes = (\<lambda>wr bs w. (Inr (of_nat (length bs)), wr @ bs, w)),
     n_close = (\<lambda>_ w. (Inr (), w + 1)),
     n_show = (\<lambda>e. case e of FileNotFound p \<Rightarrow> p | InvalidPath p \<Rightarrow> p | _ \<Rightarrow> lit ''error''),
     n_show_io = io_message\<rparr>"

lemma demo_runtime: "n_build_runtime demo_native w = (if odd w then Inr w else Inl (IoError KTimedOut []))"
  by (simp add: demo_native_def)

theorem one_runtime_witness:
  "\<exists>c d. fst (connect_all demo_native [(None, None, None, 0), (None, None, None, 1), (None, None, None, 3)] None) =
      [Inl (IOError (IoError KTimedOut (lit ''failed to start IO runtime: ''))), Inr c, Inr d] \<and> cl_rt c = cl_rt d"
proof -
  have run: "connect_all demo_native [(None, None, None, 0), (None, None, None, 1), (None, None, None, 3)] None =
    ([Inl (IOError (IoError KTimedOut (lit ''failed to start IO runtime: ''))),
      Inr \<lparr>cl_inner = (), cl_rt = 1\<rparr>, Inr \<lparr>cl_inner = (), cl_rt = 1\<rparr>], Some 1)"
    by (simp add: connect_def shared_runtime_def demo_native_def)
  from one_runtime [OF run] run show ?thesis by auto
qed

theorem runtime_failure_not_cached_witness:
  "shared_runtime demo_native 5 (snd (shared_runtime demo_native 4 None)) = (Inr 5, Some 5)"
proof -
  have "n_build_runtime demo_native 4 = Inl (IoError KTimedOut [])" "n_build_runtime demo_native 5 = Inr 5"
    by (simp_all add: demo_runtime)
  with runtime_failure_not_cached [of demo_native 4 "IoError KTimedOut []"] show ?thesis by blast
qed

end
