(* ===== verification/Ffi_Memory.thy ===== *)
theory Ffi_Memory
  imports Bridge_Client
begin

text \<open>
  The C boundary of \<^verbatim>\<open>hdfs-bridge/src/lib.rs\<close>, first part: the memory both sides share, strings,
  status reports and the marshalling of listing entries.

  An address is a natural number, 0 the null pointer. The memory holds, by address, what the
  bridge has allocated and not yet freed (C strings, entry arrays, handles) and what the caller
  provides (argument strings, status and out-parameter cells, buffers). Following a pointer
  that is not live, freeing something twice, or rebuilding a box of the wrong length is
  undefined behaviour, the value \<open>None\<close>; a theorem that a call returns \<open>Some\<close> includes that it is
  free of it.
\<close>

section \<open>Data\<close>

type_synonym addr = nat

record Status =
  code :: i32
  msg :: addr

record FileInfo =
  fi_length :: i64
  fi_is_dir :: bool
  fi_mtime :: u64

record DirEntry =
  de_path :: addr
  de_is_dir :: bool
  de_length :: i64
  de_mtime :: u64
  de_atime :: u64
  de_owner :: addr
  de_group :: addr
  de_permission :: u16
  de_replication :: i32
  de_block_size :: i64

record ('w, 'c, 'r, 'o, 't) mem =
  fresh :: addr
  cstrs :: "addr \<rightharpoonup> byte list"
  entry_arrays :: "addr \<rightharpoonup> DirEntry list"
  clients :: "addr \<rightharpoonup> ('c, 't) BridgeClient"
  readers :: "addr \<rightharpoonup> ('r, 't) BridgeReader"
  writers :: "addr \<rightharpoonup> ('o, 't) BridgeWriter"
  streams :: "addr \<rightharpoonup> BridgeListStream"
  args :: "addr \<rightharpoonup> byte list"
  statuses :: "addr \<rightharpoonup> Status"
  infos :: "addr \<rightharpoonup> FileInfo"
  counts :: "addr \<rightharpoonup> i32"
  bufs :: "addr \<rightharpoonup> byte list"
  cluster :: 'w
  runtime_slot :: "'t option"

abbreviation (input) null :: addr where "null \<equiv> 0"

section \<open>Strings\<close>

text \<open>\<^verbatim>\<open>CString::into_raw\<close>: the bytes move to a fresh address.\<close>

definition alloc_cstr :: "byte list \<Rightarrow> ('w, 'c, 'r, 'o, 't) mem \<Rightarrow> addr \<times> ('w, 'c, 'r, 'o, 't) mem" where
  "alloc_cstr bs m = (fresh m, m\<lparr>fresh := fresh m + 1, cstrs := (cstrs m)(fresh m \<mapsto> bs)\<rparr>)"

text \<open>\<^verbatim>\<open>CString::new\<close>: an interior NUL is an error.\<close>

definition cstring_new :: "rstring \<Rightarrow> byte list option" where
  "cstring_new s = (if ch_nul \<in> set s then None else Some (encode s))"

text \<open>\<^verbatim>\<open>CStr::from_ptr(p).to_string_lossy()\<close>\<close>

definition read_cstr :: "addr \<Rightarrow> ('w, 'c, 'r, 'o, 't) mem \<Rightarrow> rstring option" where
  "read_cstr p m = map_option decode_lossy (case cstrs m p of Some bs \<Rightarrow> Some bs | None \<Rightarrow> args m p)"

definition opt_str :: "addr \<Rightarrow> ('w, 'c, 'r, 'o, 't) mem \<Rightarrow> rstring option option" where
  "opt_str p m =
     (if p = null then Some None
      else do {
        s \<leftarrow> read_cstr p m;
        Some (if s = [] then None else Some s)
      })"

definition hdfs_bridge_free_string :: "addr \<Rightarrow> ('w, 'c, 'r, 'o, 't) mem \<Rightarrow> ('w, 'c, 'r, 'o, 't) mem option" where
  "hdfs_bridge_free_string s m =
     (if s = null then Some m
      else do {
        _ \<leftarrow> cstrs m s;
        Some (m\<lparr>cstrs := (cstrs m)(s := None)\<rparr>)
      })"

definition to_c_string :: "rstring \<Rightarrow> ('w, 'c, 'r, 'o, 't) mem \<Rightarrow> addr \<times> ('w, 'c, 'r, 'o, 't) mem" where
  "to_c_string s m = alloc_cstr (case cstring_new s of Some bs \<Rightarrow> bs | None \<Rightarrow> []) m"

section \<open>Reports\<close>

definition set_status ::
  "addr \<Rightarrow> i32 \<Rightarrow> rstring \<Rightarrow> ('w, 'c, 'r, 'o, 't) mem \<Rightarrow> ('w, 'c, 'r, 'o, 't) mem option" where
  "set_status status_ptr c text m =
     (if status_ptr = null then Some m
      else (let cleaned = map (\<lambda>x. if x = ch_nul then ch_space else x) text;
                (p, m) = (case cstring_new cleaned of Some bs \<Rightarrow> alloc_cstr bs m | None \<Rightarrow> (null, m))
            in do {
              _ \<leftarrow> statuses m status_ptr;
              Some (m\<lparr>statuses := (statuses m)(status_ptr \<mapsto> \<lparr>code = c, msg = p\<rparr>)\<rparr>)
            }))"

definition set_error ::
  "('w, 'c, 'r, 'o, 't) hdfs_native \<Rightarrow> addr \<Rightarrow> rstring \<Rightarrow> hdfs_error \<Rightarrow> ('w, 'c, 'r, 'o, 't) mem
     \<Rightarrow> ('w, 'c, 'r, 'o, 't) mem option" where
  "set_error N status_ptr context err m = set_status status_ptr (classify err) (context @ lit '': '' @ n_show N err) m"

section \<open>Entries\<close>

text \<open>The casts \<^verbatim>\<open>as i64\<close> and \<^verbatim>\<open>as i32\<close> keep the bits.\<close>

definition status_to_entry ::
  "FileStatus \<Rightarrow> ('w, 'c, 'r, 'o, 't) mem \<Rightarrow> DirEntry \<times> ('w, 'c, 'r, 'o, 't) mem" where
  "status_to_entry st m =
     (let (p, m) = to_c_string (fs_path st) m;
          (ow, m) = to_c_string (fs_owner st) m;
          (gr, m) = to_c_string (fs_group st) m
      in (\<lparr>de_path = p, de_is_dir = fs_isdir st, de_length = fs_length st,
           de_mtime = fs_modification_time st, de_atime = fs_access_time st,
           de_owner = ow, de_group = gr, de_permission = fs_permission st,
           de_replication = (if fs_isdir st then - 1 else case fs_replication st of Some r \<Rightarrow> r | None \<Rightarrow> - 1),
           de_block_size = (if fs_isdir st then - 1 else case fs_blocksize st of Some b \<Rightarrow> b | None \<Rightarrow> - 1)\<rparr>, m))"

fun statuses_to_list ::
  "FileStatus list \<Rightarrow> ('w, 'c, 'r, 'o, 't) mem \<Rightarrow> DirEntry list \<times> ('w, 'c, 'r, 'o, 't) mem" where
  "statuses_to_list [] m = ([], m)"
| "statuses_to_list (st # sts) m =
     (let (e, m) = status_to_entry st m; (es, m) = statuses_to_list sts m in (e # es, m))"

text \<open>A boxed slice of entries moves to a fresh address.\<close>

definition alloc_entries ::
  "DirEntry list \<Rightarrow> ('w, 'c, 'r, 'o, 't) mem \<Rightarrow> addr \<times> ('w, 'c, 'r, 'o, 't) mem" where
  "alloc_entries es m = (fresh m, m\<lparr>fresh := fresh m + 1, entry_arrays := (entry_arrays m)(fresh m \<mapsto> es)\<rparr>)"

definition statuses_to_entries ::
  "FileStatus list \<Rightarrow> addr \<Rightarrow> ('w, 'c, 'r, 'o, 't) mem \<Rightarrow> (addr \<times> ('w, 'c, 'r, 'o, 't) mem) option" where
  "statuses_to_entries sts out_count m =
     do {
       _ \<leftarrow> counts m out_count;
       let m = m\<lparr>counts := (counts m)(out_count \<mapsto> of_nat (length sts))\<rparr>;
       if length sts = 0 then Some (null, m)
       else (let (es, m) = statuses_to_list sts m in Some (alloc_entries es m))
     }"

text \<open>Freeing the three strings of an entry, skipping null.\<close>

definition free_strs :: "addr list \<Rightarrow> ('w, 'c, 'r, 'o, 't) mem \<Rightarrow> ('w, 'c, 'r, 'o, 't) mem option" where
  "free_strs ps m = fold (\<lambda>p r. do { m \<leftarrow> r; hdfs_bridge_free_string p m }) ps (Some m)"

definition entry_strs :: "DirEntry \<Rightarrow> addr list" where
  "entry_strs e = [de_path e, de_owner e, de_group e]"

definition hdfs_bridge_free_dir_entries ::
  "addr \<Rightarrow> i32 \<Rightarrow> ('w, 'c, 'r, 'o, 't) mem \<Rightarrow> ('w, 'c, 'r, 'o, 't) mem option" where
  "hdfs_bridge_free_dir_entries entries n m =
     (if entries = null \<or> sint n \<le> 0 then Some m
      else do {
        es \<leftarrow> entry_arrays m entries;
        if length es = nat (sint n) then do {
          m \<leftarrow> free_strs (concat (map entry_strs es)) m;
          Some (m\<lparr>entry_arrays := (entry_arrays m)(entries := None)\<rparr>)
        } else None
      })"

section \<open>Well-formed memory\<close>

text \<open>Live addresses are below \<open>fresh\<close> and not null; a string belongs to one side only.\<close>

definition live_below :: "addr \<Rightarrow> (addr \<rightharpoonup> 'a) \<Rightarrow> bool" where
  "live_below n f \<longleftrightarrow> (\<forall>p. f p \<noteq> None \<longrightarrow> 0 < p \<and> p < n)"

definition mem_ok :: "('w, 'c, 'r, 'o, 't) mem \<Rightarrow> bool" where
  "mem_ok m \<longleftrightarrow> 0 < fresh m \<and>
     live_below (fresh m) (cstrs m) \<and> live_below (fresh m) (entry_arrays m) \<and>
     live_below (fresh m) (clients m) \<and> live_below (fresh m) (readers m) \<and>
     live_below (fresh m) (writers m) \<and> live_below (fresh m) (streams m) \<and>
     live_below (fresh m) (args m) \<and> (\<forall>p. cstrs m p = None \<or> args m p = None)"

lemma live_below_upd: "0 < n \<Longrightarrow> live_below n f \<Longrightarrow> live_below (Suc n) (f(n \<mapsto> x))"
  by (auto simp: live_below_def less_Suc_eq)

lemma live_below_mono: "live_below n f \<Longrightarrow> n \<le> n' \<Longrightarrow> live_below n' f"
  by (auto simp: live_below_def)

lemma live_below_fresh: "live_below n f \<Longrightarrow> n \<le> p \<Longrightarrow> f p = None"
  by (auto simp: live_below_def leD)

lemma alloc_cstr_ok: "mem_ok m \<Longrightarrow> mem_ok (snd (alloc_cstr bs m))"
  using live_below_fresh [of "fresh m" "args m" "fresh m"]
  by (simp add: mem_ok_def alloc_cstr_def live_below_upd live_below_mono [of "fresh m" _ "Suc (fresh m)"])

lemma alloc_entries_ok: "mem_ok m \<Longrightarrow> mem_ok (snd (alloc_entries es m))"
  by (simp add: mem_ok_def alloc_entries_def live_below_upd live_below_mono [of "fresh m" _ "Suc (fresh m)"])

section \<open>Allocating and freeing entries\<close>

text \<open>The bytes a Rust string becomes at the boundary.\<close>

definition c_bytes :: "rstring \<Rightarrow> byte list" where
  "c_bytes s = (if ch_nul \<in> set s then [] else encode s)"

lemma to_c_string_eq: "to_c_string s m = alloc_cstr (c_bytes s) m"
  by (simp add: to_c_string_def cstring_new_def c_bytes_def)

definition entry_at :: "addr \<Rightarrow> FileStatus \<Rightarrow> DirEntry" where
  "entry_at a st = \<lparr>de_path = a, de_is_dir = fs_isdir st, de_length = fs_length st,
     de_mtime = fs_modification_time st, de_atime = fs_access_time st,
     de_owner = a + 1, de_group = a + 2, de_permission = fs_permission st,
     de_replication = (if fs_isdir st then - 1 else case fs_replication st of Some r \<Rightarrow> r | None \<Rightarrow> - 1),
     de_block_size = (if fs_isdir st then - 1 else case fs_blocksize st of Some b \<Rightarrow> b | None \<Rightarrow> - 1)\<rparr>"

fun strs_at :: "addr \<Rightarrow> FileStatus list \<Rightarrow> (addr \<rightharpoonup> byte list) \<Rightarrow> (addr \<rightharpoonup> byte list)" where
  "strs_at a [] f = f"
| "strs_at a (st # sts) f = strs_at (a + 3) sts
     (f(a \<mapsto> c_bytes (fs_path st), a + 1 \<mapsto> c_bytes (fs_owner st), a + 2 \<mapsto> c_bytes (fs_group st)))"

fun entries_at :: "addr \<Rightarrow> FileStatus list \<Rightarrow> DirEntry list" where
  "entries_at a [] = []"
| "entries_at a (st # sts) = entry_at a st # entries_at (a + 3) sts"

lemma status_to_entry_eq:
  "status_to_entry st m = (entry_at (fresh m) st, m\<lparr>fresh := fresh m + 3,
      cstrs := (cstrs m)(fresh m \<mapsto> c_bytes (fs_path st), fresh m + 1 \<mapsto> c_bytes (fs_owner st),
        fresh m + 2 \<mapsto> c_bytes (fs_group st))\<rparr>)"
  by (simp add: status_to_entry_def to_c_string_eq alloc_cstr_def entry_at_def Let_def)

lemma statuses_to_list_eq:
  "statuses_to_list sts m =
     (entries_at (fresh m) sts,
      m\<lparr>fresh := fresh m + 3 * length sts, cstrs := strs_at (fresh m) sts (cstrs m)\<rparr>)"
proof (induction sts arbitrary: m)
  case (Cons st sts)
  then show ?case by (simp add: status_to_entry_eq Let_def algebra_simps)
qed simp

lemma entries_at_strs: "concat (map entry_strs (entries_at a sts)) = [a ..< a + 3 * length sts]"
proof (induction sts arbitrary: a)
  case (Cons st sts)
  have "[a ..< a + (3 + k)] = [a, a + 1, a + 2] @ [a + 3 ..< a + (3 + k)]" for k
    by (simp add: upt_conv_Cons numeral_3_eq_3)
  moreover have "a + 3 * length (st # sts) = a + 3 + 3 * length sts" by simp
  ultimately show ?case using Cons by (simp add: entry_strs_def entry_at_def add.assoc)
qed simp

lemma length_entries_at [simp]: "length (entries_at a sts) = length sts"
  by (induction sts arbitrary: a) simp_all

lemma strs_at_outside: "p < a \<or> a + 3 * length sts \<le> p \<Longrightarrow> strs_at a sts f p = f p"
  by (induction sts arbitrary: a f) auto

lemma strs_at_nth:
  assumes "i < length sts"
  shows "strs_at a sts f (a + 3 * i) = Some (c_bytes (fs_path (sts ! i)))"
    and "strs_at a sts f (a + 3 * i + 1) = Some (c_bytes (fs_owner (sts ! i)))"
    and "strs_at a sts f (a + 3 * i + 2) = Some (c_bytes (fs_group (sts ! i)))"
  using assms
proof (induction sts arbitrary: a f i)
  case (Cons st sts)
  {
    case 1
    then show ?case using Cons(1) [of "i - 1" "a + 3"] by (cases i) (auto simp: strs_at_outside algebra_simps)
  next
    case 2
    then show ?case using Cons(2) [of "i - 1" "a + 3"] by (cases i) (auto simp: strs_at_outside algebra_simps)
  next
    case 3
    then show ?case using Cons(3) [of "i - 1" "a + 3"] by (cases i) (auto simp: strs_at_outside algebra_simps)
  }
qed auto

lemma strs_at_dom:
  assumes "a \<le> p" "p < a + 3 * length sts"
  shows "strs_at a sts f p \<noteq> None"
proof -
  let ?i = "(p - a) div 3" and ?r = "(p - a) mod 3"
  have i: "?i < length sts" using assms by (simp add: less_mult_imp_div_less algebra_simps)
  have p: "p = a + 3 * ?i + ?r" using assms(1) by simp
  have "?r = 0 \<or> ?r = 1 \<or> ?r = 2" by auto
  with strs_at_nth [OF i, of a f] p show ?thesis by (metis add_0_right option.distinct(1))
qed

text \<open>Freeing distinct live strings removes exactly them.\<close>

lemma free_strs_eq:
  "distinct ps \<Longrightarrow> null \<notin> set ps \<Longrightarrow> set ps \<subseteq> dom (cstrs m) \<Longrightarrow>
   free_strs ps m = Some (m\<lparr>cstrs := cstrs m |` (- set ps)\<rparr>)"
proof (induction ps arbitrary: m)
  case Nil
  show ?case by (simp add: free_strs_def)
next
  case (Cons p ps)
  define g where "g = (cstrs m)(p := None)"
  have free: "hdfs_bridge_free_string p m = Some (m\<lparr>cstrs := g\<rparr>)"
    using Cons.prems by (auto simp: hdfs_bridge_free_string_def g_def)
  have sub: "set ps \<subseteq> dom g" using Cons.prems by (auto simp: g_def)
  have "free_strs (p # ps) m = free_strs ps (m\<lparr>cstrs := g\<rparr>)"
    by (simp add: free_strs_def free)
  also have "\<dots> = Some (m\<lparr>cstrs := g |` (- set ps)\<rparr>)"
    using Cons.IH [of "m\<lparr>cstrs := g\<rparr>"] sub Cons.prems(1,2) by simp
  also have "g |` (- set ps) = cstrs m |` (- set (p # ps))"
    by (auto simp: restrict_map_def fun_eq_iff g_def)
  finally show ?case .
qed

lemma strs_at_restored:
  assumes "live_below a f"
  shows "strs_at a sts f |` (- set [a ..< a + 3 * length sts]) = f"
proof
  fix p
  show "(strs_at a sts f |` (- set [a ..< a + 3 * length sts])) p = f p"
    using strs_at_outside [of p a sts f] live_below_fresh [OF assms, of p]
    by (auto simp: restrict_map_def)
qed

text \<open>A word below half its range has the same value signed and unsigned.\<close>

lemma sint_small:
  fixes w :: "'a::len word"
  assumes "unat w < 2 ^ (LENGTH('a) - 1)"
  shows "sint w = int (unat w)"
proof -
  have u: "uint w = int (unat w)" by simp
  have "int (unat w) < int (2 ^ (LENGTH('a) - 1))" using assms by (simp only: of_nat_less_iff)
  then have "signed_take_bit (LENGTH('a) - 1) (int (unat w)) = int (unat w)"
    by (intro signed_take_bit_int_eq_self) (auto intro: order_trans [of _ 0])
  then show ?thesis by (simp only: sint_uint u One_nat_def)
qed

lemma sint_of_nat_32: "n < 2 ^ 31 \<Longrightarrow> sint (of_nat n :: i32) = int n"
  by (simp add: sint_uint unsigned_of_nat take_bit_nat_eq_self signed_take_bit_int_eq_self)

lemma alloc_cstr_statuses [simp]: "statuses (snd (alloc_cstr bs m)) = statuses m"
  by (simp add: alloc_cstr_def)

lemma status_to_entry_ok:
  assumes "mem_ok m"
  shows "mem_ok (snd (status_to_entry st m)) \<and> statuses (snd (status_to_entry st m)) = statuses m"
proof -
  obtain p m1 where 1: "alloc_cstr (c_bytes (fs_path st)) m = (p, m1)" by force
  obtain ow m2 where 2: "alloc_cstr (c_bytes (fs_owner st)) m1 = (ow, m2)" by force
  obtain gr m3 where 3: "alloc_cstr (c_bytes (fs_group st)) m2 = (gr, m3)" by force
  have "snd (status_to_entry st m) = m3"
    by (simp add: status_to_entry_def to_c_string_eq 1 2 3)
  moreover have "mem_ok m1" "statuses m1 = statuses m"
    using alloc_cstr_ok [OF assms] alloc_cstr_statuses 1 by (metis snd_conv)+
  moreover from this have "mem_ok m2" "statuses m2 = statuses m"
    using alloc_cstr_ok [of m1] alloc_cstr_statuses 2 by (metis snd_conv)+
  moreover from this have "mem_ok m3" "statuses m3 = statuses m"
    using alloc_cstr_ok [of m2] alloc_cstr_statuses 3 by (metis snd_conv)+
  ultimately show ?thesis by simp
qed

lemma statuses_to_list_ok:
  "mem_ok m \<Longrightarrow> mem_ok (snd (statuses_to_list sts m)) \<and> statuses (snd (statuses_to_list sts m)) = statuses m"
proof (induction sts arbitrary: m)
  case (Cons st sts)
  obtain e m1 where 1: "status_to_entry st m = (e, m1)" by force
  obtain es m2 where 2: "statuses_to_list sts m1 = (es, m2)" by force
  have "mem_ok m1" "statuses m1 = statuses m" using status_to_entry_ok [OF Cons.prems, of st] 1 by simp_all
  with Cons.IH [of m1] 1 2 show ?case by simp
qed simp

section \<open>What a report leaves\<close>

definition status_live :: "addr \<Rightarrow> ('w, 'c, 'r, 'o, 't) mem \<Rightarrow> bool" where
  "status_live st m \<longleftrightarrow> st = null \<or> statuses m st \<noteq> None"

definition cleaned :: "rstring \<Rightarrow> rstring" where
  "cleaned text = map (\<lambda>x. if x = ch_nul then ch_space else x) text"

lemma cleaned_no_nul: "ch_nul \<notin> set (cleaned text)"
  by (auto simp: cleaned_def)

text \<open>A report with a non-null status: a fresh message and the code, nothing else changes.\<close>

lemma set_status_eq:
  assumes "st \<noteq> null" "statuses m st \<noteq> None"
  shows "set_status st c text m =
    Some (m\<lparr>fresh := fresh m + 1, cstrs := (cstrs m)(fresh m \<mapsto> encode (cleaned text)),
      statuses := (statuses m)(st \<mapsto> \<lparr>code = c, msg = fresh m\<rparr>)\<rparr>)"
  using assms cleaned_no_nul [of "text"]
  by (auto simp: set_status_def cleaned_def [symmetric] cstring_new_def alloc_cstr_def Let_def)

lemma set_status_null [simp]: "set_status null c text m = Some m"
  by (simp add: set_status_def)

text \<open>
  The convention of the boundary: on success the status is untouched, on failure (if there is a
  status) it holds a code other than \<open>HDFS_OK\<close> and a fresh message the caller owns.
\<close>

definition status_told :: "addr \<Rightarrow> bool \<Rightarrow> ('w, 'c, 'r, 'o, 't) mem \<Rightarrow> ('w, 'c, 'r, 'o, 't) mem \<Rightarrow> bool" where
  "status_told st failed m m' \<longleftrightarrow>
     (if failed \<and> st \<noteq> null
      then \<exists>c p t. statuses m' = (statuses m)(st \<mapsto> \<lparr>code = c, msg = p\<rparr>) \<and> c \<noteq> HDFS_OK \<and>
             p \<noteq> null \<and> cstrs m p = None \<and> cstrs m' = (cstrs m)(p \<mapsto> t)
      else statuses m' = statuses m)"

lemma set_status_told:
  assumes "mem_ok m" "status_live st m" "c \<noteq> HDFS_OK"
  shows "\<exists>m'. set_status st c text m = Some m' \<and> status_told st True m m' \<and> mem_ok m'"
proof (cases "st = null")
  case True
  then show ?thesis using assms(1) by (simp add: status_told_def)
next
  case False
  let ?m1 = "snd (alloc_cstr (encode (cleaned text)) m)"
  have "set_status st c text m = Some (?m1\<lparr>statuses := (statuses m)(st \<mapsto> \<lparr>code = c, msg = fresh m\<rparr>)\<rparr>)"
    using False assms(2) by (simp add: set_status_eq alloc_cstr_def status_live_def)
  moreover have "mem_ok (?m1\<lparr>statuses := (statuses m)(st \<mapsto> \<lparr>code = c, msg = fresh m\<rparr>)\<rparr>)"
    using alloc_cstr_ok [OF assms(1), of "encode (cleaned text)"] by (simp add: mem_ok_def)
  moreover have "cstrs m (fresh m) = None" "0 < fresh m"
    using assms(1) live_below_fresh [of "fresh m" "cstrs m" "fresh m"] by (auto simp: mem_ok_def)
  ultimately show ?thesis
    using False assms(3) by (auto simp: status_told_def alloc_cstr_def)
qed


section \<open>Round trips through the memory\<close>

text \<open>
  A string that crosses the boundary unchanged: Unicode scalar values and no NUL. A replication or a
  block size of which all bits are set reads as absent.
\<close>

definition marshallable :: "rstring \<Rightarrow> bool" where
  "marshallable s \<longleftrightarrow> list_all is_scalar s \<and> ch_nul \<notin> set s"

definition status_marshallable :: "FileStatus \<Rightarrow> bool" where
  "status_marshallable st \<longleftrightarrow>
     marshallable (fs_path st) \<and> marshallable (fs_owner st) \<and> marshallable (fs_group st) \<and>
     fs_replication st \<noteq> Some (- 1) \<and> fs_blocksize st \<noteq> Some (- 1)"

lemma read_c_bytes: "marshallable s \<Longrightarrow> cstrs m p = Some (c_bytes s) \<Longrightarrow> read_cstr p m = Some s"
  by (simp add: read_cstr_def c_bytes_def marshallable_def decode_encode)

text \<open>An entry read back on the other side, with \<open>- 1\<close> as absent.\<close>

definition entry_view :: "('w, 'c, 'r, 'o, 't) mem \<Rightarrow> DirEntry \<Rightarrow> FileStatus option" where
  "entry_view m e =
     do {
       path \<leftarrow> read_cstr (de_path e) m;
       owner \<leftarrow> read_cstr (de_owner e) m;
       group \<leftarrow> read_cstr (de_group e) m;
       Some \<lparr>fs_path = path, fs_length = de_length e, fs_isdir = de_is_dir e, fs_permission = de_permission e,
         fs_owner = owner, fs_group = group, fs_modification_time = de_mtime e, fs_access_time = de_atime e,
         fs_replication = (if de_replication e = - 1 then None else Some (de_replication e)),
         fs_blocksize = (if de_block_size e = - 1 then None else Some (de_block_size e))\<rparr>
     }"

text \<open>What is to be read back: the status, of which a directory has no replication and no block size.\<close>

definition status_view :: "FileStatus \<Rightarrow> FileStatus" where
  "status_view st = (if fs_isdir st then st\<lparr>fs_replication := None, fs_blocksize := None\<rparr> else st)"

lemma entry_at_view:
  assumes "read_cstr a m = Some (fs_path st)" "read_cstr (a + 1) m = Some (fs_owner st)" "read_cstr (a + 2) m = Some (fs_group st)"
    and "fs_replication st \<noteq> Some (- 1)" "fs_blocksize st \<noteq> Some (- 1)"
  shows "entry_view m (entry_at a st) = Some (status_view st)"
  using assms by (cases st) (auto simp: entry_view_def entry_at_def status_view_def split: option.split)

lemma entries_at_nth: "i < length sts \<Longrightarrow> entries_at a sts ! i = entry_at (a + 3 * i) (sts ! i)"
proof (induction sts arbitrary: a i)
  case (Cons st sts)
  then show ?case by (cases i) (simp_all add: algebra_simps)
qed simp

lemma entries_at_view:
  assumes "list_all status_marshallable sts" "cstrs m = strs_at a sts f"
  shows "map (entry_view m) (entries_at a sts) = map (\<lambda>st. Some (status_view st)) sts"
proof (rule nth_equalityI)
  fix i
  assume "i < length (map (entry_view m) (entries_at a sts))"
  then have i: "i < length sts" by simp
  then have "status_marshallable (sts ! i)" using assms(1) by (simp add: list_all_length)
  then have "entry_view m (entry_at (a + 3 * i) (sts ! i)) = Some (status_view (sts ! i))"
    using strs_at_nth [OF i, of a f] assms(2)
    by (intro entry_at_view) (simp_all add: status_marshallable_def read_c_bytes)
  then show "map (entry_view m) (entries_at a sts) ! i = map (\<lambda>st. Some (status_view st)) sts ! i"
    using i by (simp add: entries_at_nth)
qed simp

text \<open>The memory after the entries of a non-empty batch have been built.\<close>

definition entries_built ::
  "FileStatus list \<Rightarrow> addr \<Rightarrow> ('w, 'c, 'r, 'o, 't) mem \<Rightarrow> ('w, 'c, 'r, 'o, 't) mem" where
  "entries_built sts out_count m =
     (let a = fresh m; p = a + 3 * length sts
      in m\<lparr>counts := (counts m)(out_count \<mapsto> of_nat (length sts)), fresh := p + 1,
           cstrs := strs_at a sts (cstrs m), entry_arrays := (entry_arrays m)(p \<mapsto> entries_at a sts)\<rparr>)"

lemma statuses_to_entries_eq:
  assumes "counts m out_count \<noteq> None"
  shows "statuses_to_entries sts out_count m =
    (if sts = [] then Some (null, m\<lparr>counts := (counts m)(out_count \<mapsto> 0)\<rparr>)
     else Some (fresh m + 3 * length sts, entries_built sts out_count m))"
  using assms by (auto simp: statuses_to_entries_def statuses_to_list_eq alloc_entries_def entries_built_def Let_def)

lemma entries_built_ok: "mem_ok m \<Longrightarrow> mem_ok (entries_built sts out_count m)"
proof -
  assume m: "mem_ok m"
  let ?m1 = "m\<lparr>counts := (counts m)(out_count \<mapsto> of_nat (length sts))\<rparr>"
  have m1: "mem_ok ?m1" using m by (simp add: mem_ok_def)
  have "entries_built sts out_count m =
      snd (alloc_entries (entries_at (fresh m) sts) (snd (statuses_to_list sts ?m1)))"
    by (simp add: statuses_to_list_eq alloc_entries_def entries_built_def Let_def)
  with alloc_entries_ok statuses_to_list_ok [OF m1, of sts] show ?thesis by metis
qed

text \<open>
  Freeing the array with the reported count gives back every string and the array, and nothing
  else: the memory is as before the batch except for the counter of addresses and the count cell.
\<close>

lemma free_entries_built:
  assumes "mem_ok m" "sts \<noteq> []" "length sts < 2 ^ 31"
  shows "hdfs_bridge_free_dir_entries (fresh m + 3 * length sts) (of_nat (length sts)) (entries_built sts out_count m) =
    Some (m\<lparr>counts := (counts m)(out_count \<mapsto> of_nat (length sts)), fresh := fresh m + 3 * length sts + 1\<rparr>)"
proof -
  let ?a = "fresh m" and ?m1 = "entries_built sts out_count m"
  let ?p = "?a + 3 * length sts"
  have len: "sint (of_nat (length sts) :: i32) = int (length sts)" by (rule sint_of_nat_32 [OF assms(3)])
  have a: "0 < ?a" "live_below ?a (cstrs m)" "live_below ?a (entry_arrays m)" using assms(1) by (auto simp: mem_ok_def)
  have cs: "cstrs ?m1 = strs_at ?a sts (cstrs m)" and arr: "entry_arrays ?m1 = (entry_arrays m)(?p \<mapsto> entries_at ?a sts)"
    by (simp_all add: entries_built_def Let_def)
  have free: "free_strs [?a ..< ?p] ?m1 = Some (?m1\<lparr>cstrs := cstrs m\<rparr>)"
    using free_strs_eq [of "[?a ..< ?p]" ?m1] strs_at_dom [of ?a _ sts "cstrs m"] strs_at_restored [OF a(2), of sts] a(1)
    by (fastforce simp: cs)
  have arr': "(entry_arrays ?m1)(?p := None) = entry_arrays m"
    using live_below_fresh [OF a(3), of ?p] by (auto simp: arr fun_eq_iff)
  have "hdfs_bridge_free_dir_entries ?p (of_nat (length sts)) ?m1 =
      Some (?m1\<lparr>cstrs := cstrs m, entry_arrays := (entry_arrays ?m1)(?p := None)\<rparr>)"
    using a(1) assms(2) free by (simp add: hdfs_bridge_free_dir_entries_def len entries_at_strs arr)
  then show ?thesis unfolding arr' by (simp add: entries_built_def Let_def)
qed

end
