(* ===== verification/Ffi.thy ===== *)
theory Ffi
  imports Ffi_Memory
begin

text \<open>
  The C boundary of \<^verbatim>\<open>hdfs-bridge/src/lib.rs\<close>, second part: the exported functions. Each is a
  function of the memory; its result is the value returned to C and the memory after the call,
  or \<open>None\<close> when the call has undefined behaviour (a pointer that is not live, a buffer that is
  too small). The schedule of a walk and the timing of its messages are parameters of the calls
  that start and read streams.
\<close>

section \<open>Texts\<close>

fun show_nat :: "nat \<Rightarrow> rstring" where
  "show_nat n = (if n < 10 then [48 + n] else show_nat (n div 10) @ [48 + n mod 10])"

declare show_nat.simps [simp del]

definition quoted :: "rstring \<Rightarrow> rstring" where
  "quoted s = lit [CHR 0x27] @ s @ lit [CHR 0x27]"

section \<open>Handles\<close>

definition alloc_client :: "('c, 't) BridgeClient \<Rightarrow> ('w, 'c, 'r, 'o, 't) mem \<Rightarrow> addr \<times> ('w, 'c, 'r, 'o, 't) mem" where
  "alloc_client c m = (fresh m, m\<lparr>fresh := fresh m + 1, clients := (clients m)(fresh m \<mapsto> c)\<rparr>)"

definition alloc_reader :: "('r, 't) BridgeReader \<Rightarrow> ('w, 'c, 'r, 'o, 't) mem \<Rightarrow> addr \<times> ('w, 'c, 'r, 'o, 't) mem" where
  "alloc_reader r m = (fresh m, m\<lparr>fresh := fresh m + 1, readers := (readers m)(fresh m \<mapsto> r)\<rparr>)"

definition alloc_writer :: "('o, 't) BridgeWriter \<Rightarrow> ('w, 'c, 'r, 'o, 't) mem \<Rightarrow> addr \<times> ('w, 'c, 'r, 'o, 't) mem" where
  "alloc_writer wr m = (fresh m, m\<lparr>fresh := fresh m + 1, writers := (writers m)(fresh m \<mapsto> wr)\<rparr>)"

definition alloc_stream :: "BridgeListStream \<Rightarrow> ('w, 'c, 'r, 'o, 't) mem \<Rightarrow> addr \<times> ('w, 'c, 'r, 'o, 't) mem" where
  "alloc_stream s m = (fresh m, m\<lparr>fresh := fresh m + 1, streams := (streams m)(fresh m \<mapsto> s)\<rparr>)"

text \<open>\<^verbatim>\<open>set_error\<close> and then the value that signals the failure.\<close>

definition fail_with ::
  "('w, 'c, 'r, 'o, 't) hdfs_native \<Rightarrow> addr \<Rightarrow> rstring \<Rightarrow> hdfs_error \<Rightarrow> 'a \<Rightarrow> ('w, 'c, 'r, 'o, 't) mem
     \<Rightarrow> ('a \<times> ('w, 'c, 'r, 'o, 't) mem) option" where
  "fail_with N st context e r m = do { m \<leftarrow> set_error N st context e m; Some (r, m) }"

section \<open>Clients\<close>

definition hdfs_bridge_connect ::
  "('w, 'c, 'r, 'o, 't) hdfs_native \<Rightarrow> addr \<Rightarrow> addr \<Rightarrow> addr \<Rightarrow> addr \<Rightarrow> ('w, 'c, 'r, 'o, 't) mem
     \<Rightarrow> (addr \<times> ('w, 'c, 'r, 'o, 't) mem) option" where
  "hdfs_bridge_connect N url config_dir user st m =
     do {
       url \<leftarrow> opt_str url m;
       config_dir \<leftarrow> opt_str config_dir m;
       user \<leftarrow> opt_str user m;
       let (r, slot) = connect N url config_dir user (cluster m) (runtime_slot m);
       let m = m\<lparr>runtime_slot := slot\<rparr>;
       case r of
         Inr client \<Rightarrow> Some (alloc_client client m)
       | Inl e \<Rightarrow> fail_with N st (lit ''failed to connect to HDFS'') e null m
     }"

definition hdfs_bridge_free_client :: "addr \<Rightarrow> ('w, 'c, 'r, 'o, 't) mem \<Rightarrow> ('w, 'c, 'r, 'o, 't) mem option" where
  "hdfs_bridge_free_client client m =
     (if client = null then Some m
      else do { _ \<leftarrow> clients m client; Some (m\<lparr>clients := (clients m)(client := None)\<rparr>) })"

definition hdfs_bridge_get_file_info ::
  "('w, 'c, 'r, 'o, 't) hdfs_native \<Rightarrow> addr \<Rightarrow> addr \<Rightarrow> addr \<Rightarrow> addr \<Rightarrow> ('w, 'c, 'r, 'o, 't) mem
     \<Rightarrow> (i32 \<times> ('w, 'c, 'r, 'o, 't) mem) option" where
  "hdfs_bridge_get_file_info N client path out st m =
     do {
       client \<leftarrow> clients m client;
       path \<leftarrow> read_cstr path m;
       case get_file_info N client path (cluster m) of
         Inr info \<Rightarrow> do {
           _ \<leftarrow> infos m out;
           Some (0, m\<lparr>infos := (infos m)(out \<mapsto> \<lparr>fi_length = fs_length info, fi_is_dir = fs_isdir info,
             fi_mtime = fs_modification_time info\<rparr>)\<rparr>)
         }
       | Inl e \<Rightarrow> fail_with N st (lit ''stat '' @ quoted path @ lit '' failed'') e (- 1) m
     }"

section \<open>Readers\<close>

definition hdfs_bridge_open ::
  "('w, 'c, 'r, 'o, 't) hdfs_native \<Rightarrow> addr \<Rightarrow> addr \<Rightarrow> addr \<Rightarrow> ('w, 'c, 'r, 'o, 't) mem
     \<Rightarrow> (addr \<times> ('w, 'c, 'r, 'o, 't) mem) option" where
  "hdfs_bridge_open N client path st m =
     do {
       client \<leftarrow> clients m client;
       path \<leftarrow> read_cstr path m;
       case open_reader N client path (cluster m) of
         Inr reader \<Rightarrow> Some (alloc_reader reader m)
       | Inl e \<Rightarrow> fail_with N st (lit ''open '' @ quoted path @ lit '' for reading failed'') e null m
     }"

definition hdfs_bridge_close_reader :: "addr \<Rightarrow> ('w, 'c, 'r, 'o, 't) mem \<Rightarrow> ('w, 'c, 'r, 'o, 't) mem option" where
  "hdfs_bridge_close_reader reader m =
     (if reader = null then Some m
      else do { _ \<leftarrow> readers m reader; Some (m\<lparr>readers := (readers m)(reader := None)\<rparr>) })"

definition hdfs_bridge_file_size ::
  "('w, 'c, 'r, 'o, 't) hdfs_native \<Rightarrow> addr \<Rightarrow> ('w, 'c, 'r, 'o, 't) mem \<Rightarrow> i64 option" where
  "hdfs_bridge_file_size N reader m = do { reader \<leftarrow> readers m reader; Some (file_length N reader) }"

text \<open>The slice is the first \<open>len\<close> bytes of the buffer; what the read leaves there is kept.\<close>

definition hdfs_bridge_read_range ::
  "('w, 'c, 'r, 'o, 't) hdfs_native \<Rightarrow> addr \<Rightarrow> addr \<Rightarrow> i64 \<Rightarrow> u64 \<Rightarrow> addr \<Rightarrow> ('w, 'c, 'r, 'o, 't) mem
     \<Rightarrow> (i64 \<times> ('w, 'c, 'r, 'o, 't) mem) option" where
  "hdfs_bridge_read_range N reader buf len offset st m =
     (if sint len < 0 then do {
        m \<leftarrow> set_status st HDFS_ERR_INVALID_ARGUMENT (lit ''negative read length'') m;
        Some (- 1, m)
      }
      else do {
        reader \<leftarrow> readers m reader;
        bytes \<leftarrow> bufs m buf;
        let n = unat len;
        if length bytes < n then None
        else (case read_range_buf N reader (take n bytes) offset (cluster m) of
            (r, filled) \<Rightarrow>
              (let m = m\<lparr>bufs := (bufs m)(buf \<mapsto> filled @ drop n bytes)\<rparr>
               in (case r of
                     Inr _ \<Rightarrow> Some (len, m)
                   | Inl e \<Rightarrow> fail_with N st
                       (lit ''read at offset '' @ show_nat (unat offset) @ lit '' failed'') e (- 1) m)))
      })"

section \<open>Writers\<close>

definition hdfs_bridge_create ::
  "('w, 'c, 'r, 'o, 't) hdfs_native \<Rightarrow> addr \<Rightarrow> addr \<Rightarrow> bool \<Rightarrow> addr \<Rightarrow> ('w, 'c, 'r, 'o, 't) mem
     \<Rightarrow> (addr \<times> ('w, 'c, 'r, 'o, 't) mem) option" where
  "hdfs_bridge_create N client path ow st m =
     do {
       client \<leftarrow> clients m client;
       path \<leftarrow> read_cstr path m;
       let (r, w) = create N client path ow (cluster m);
       let m = m\<lparr>cluster := w\<rparr>;
       case r of
         Inr writer \<Rightarrow> Some (alloc_writer writer m)
       | Inl e \<Rightarrow> fail_with N st (lit ''create '' @ quoted path @ lit '' for writing failed'') e null m
     }"

definition hdfs_bridge_write ::
  "('w, 'c, 'r, 'o, 't) hdfs_native \<Rightarrow> addr \<Rightarrow> addr \<Rightarrow> i64 \<Rightarrow> addr \<Rightarrow> ('w, 'c, 'r, 'o, 't) mem
     \<Rightarrow> (i64 \<times> ('w, 'c, 'r, 'o, 't) mem) option" where
  "hdfs_bridge_write N writer buf len st m =
     (if sint len < 0 then do {
        m \<leftarrow> set_status st HDFS_ERR_INVALID_ARGUMENT (lit ''negative write length'') m;
        Some (- 1, m)
      }
      else do {
        wr \<leftarrow> writers m writer;
        bytes \<leftarrow> bufs m buf;
        let n = unat len;
        if length bytes < n then None
        else (case write_data N wr (take n bytes) (cluster m) of
            (r, wr', w) \<Rightarrow>
              (let m = m\<lparr>writers := (writers m)(writer \<mapsto> wr'), cluster := w\<rparr>
               in (case r of
                     Inr _ \<Rightarrow> Some (len, m)
                   | Inl e \<Rightarrow> fail_with N st (lit ''write failed'') e (- 1) m)))
      })"

text \<open>The handle is consumed whatever the result.\<close>

definition hdfs_bridge_close_writer ::
  "('w, 'c, 'r, 'o, 't) hdfs_native \<Rightarrow> addr \<Rightarrow> addr \<Rightarrow> ('w, 'c, 'r, 'o, 't) mem
     \<Rightarrow> (i32 \<times> ('w, 'c, 'r, 'o, 't) mem) option" where
  "hdfs_bridge_close_writer N writer st m =
     (if writer = null then Some (0, m)
      else do {
        wr \<leftarrow> writers m writer;
        let (r, w) = close_writer N wr (cluster m);
        let m = m\<lparr>writers := (writers m)(writer := None), cluster := w\<rparr>;
        case r of
          Inr _ \<Rightarrow> Some (0, m)
        | Inl e \<Rightarrow> fail_with N st (lit ''close writer failed'') e (- 1) m
      })"

section \<open>Streams\<close>

text \<open>\<^verbatim>\<open>n.max(1) as usize\<close> of a 32-bit signed integer.\<close>

definition at_least_1 :: "i32 \<Rightarrow> usize" where
  "at_least_1 n = (if sint n < 1 then 1 else ucast n)"

definition hdfs_bridge_list_stream_open ::
  "('w, 'c, 'r, 'o, 't) hdfs_native \<Rightarrow> addr \<Rightarrow> addr \<Rightarrow> bool \<Rightarrow> i32 \<Rightarrow> bool \<Rightarrow> bool \<Rightarrow> rstring \<Rightarrow> nat list
     \<Rightarrow> ('w, 'c, 'r, 'o, 't) mem \<Rightarrow> (addr \<times> ('w, 'c, 'r, 'o, 't) mem) option" where
  "hdfs_bridge_list_stream_open N client path recursive max_parallelism skip hidden died ks m =
     do {
       client \<leftarrow> clients m client;
       path \<leftarrow> read_cstr path m;
       Some (alloc_stream (client_list_stream N client path recursive (at_least_1 max_parallelism)
         \<lparr>skip_permission_errors = skip, include_hidden = hidden\<rparr> (cluster m) died ks) m)
     }"

definition hdfs_bridge_glob_stream_open ::
  "('w, 'c, 'r, 'o, 't) hdfs_native \<Rightarrow> addr \<Rightarrow> addr \<Rightarrow> i32 \<Rightarrow> bool \<Rightarrow> bool \<Rightarrow> addr \<Rightarrow> rstring \<Rightarrow> nat list
     \<Rightarrow> ('w, 'c, 'r, 'o, 't) mem \<Rightarrow> (addr \<times> ('w, 'c, 'r, 'o, 't) mem) option" where
  "hdfs_bridge_glob_stream_open N client pattern max_parallelism skip hidden st died ks m =
     do {
       client \<leftarrow> clients m client;
       pattern \<leftarrow> read_cstr pattern m;
       r \<leftarrow> client_glob_stream N client pattern (at_least_1 max_parallelism)
         \<lparr>skip_permission_errors = skip, include_hidden = hidden\<rparr> (cluster m) died ks;
       case r of
         Inr stream \<Rightarrow> Some (alloc_stream stream m)
       | Inl e \<Rightarrow> fail_with N st (lit ''invalid glob pattern'') e null m
     }"

definition hdfs_bridge_list_stream_next ::
  "('w, 'c, 'r, 'o, 't) hdfs_native \<Rightarrow> addr \<Rightarrow> i32 \<Rightarrow> nat \<Rightarrow> addr \<Rightarrow> addr \<Rightarrow> ('w, 'c, 'r, 'o, 't) mem
     \<Rightarrow> (addr \<times> ('w, 'c, 'r, 'o, 't) mem) option" where
  "hdfs_bridge_list_stream_next N stream max_entries ready out_count st m =
     do {
       s \<leftarrow> streams m stream;
       _ \<leftarrow> counts m out_count;
       let m = m\<lparr>counts := (counts m)(out_count \<mapsto> 0)\<rparr>;
       let (r, s') = next_batch (at_least_1 max_entries) ready s;
       let m = m\<lparr>streams := (streams m)(stream \<mapsto> s')\<rparr>;
       case r of
         Inr batch \<Rightarrow> statuses_to_entries batch out_count m
       | Inl e \<Rightarrow> fail_with N st (lit ''list '' @ quoted (stream_path s') @ lit '' failed'') e null m
     }"

text \<open>
  Dropping the box drops the stream; whether its task is aborted is \<open>drop_stream\<close>, and what that
  does to the walk is in \<open>Channel\<close>. The memory only loses the handle.
\<close>

definition hdfs_bridge_list_stream_free :: "addr \<Rightarrow> ('w, 'c, 'r, 'o, 't) mem \<Rightarrow> ('w, 'c, 'r, 'o, 't) mem option" where
  "hdfs_bridge_list_stream_free stream m =
     (if stream = null then Some m
      else do { _ \<leftarrow> streams m stream; Some (m\<lparr>streams := (streams m)(stream := None)\<rparr>) })"

definition hdfs_bridge_stat ::
  "('w, 'c, 'r, 'o, 't) hdfs_native \<Rightarrow> addr \<Rightarrow> addr \<Rightarrow> addr \<Rightarrow> ('w, 'c, 'r, 'o, 't) mem
     \<Rightarrow> (addr \<times> ('w, 'c, 'r, 'o, 't) mem) option" where
  "hdfs_bridge_stat N client path st m =
     do {
       client \<leftarrow> clients m client;
       path \<leftarrow> read_cstr path m;
       case get_file_info N client path (cluster m) of
         Inr info \<Rightarrow> (let (e, m) = status_to_entry info m in Some (alloc_entries [e] m))
       | Inl e \<Rightarrow> fail_with N st (lit ''stat '' @ quoted path @ lit '' failed'') e null m
     }"

section \<open>Mutations\<close>

definition hdfs_bridge_mkdirs ::
  "('w, 'c, 'r, 'o, 't) hdfs_native \<Rightarrow> addr \<Rightarrow> addr \<Rightarrow> addr \<Rightarrow> ('w, 'c, 'r, 'o, 't) mem
     \<Rightarrow> (i32 \<times> ('w, 'c, 'r, 'o, 't) mem) option" where
  "hdfs_bridge_mkdirs N client path st m =
     do {
       client \<leftarrow> clients m client;
       path \<leftarrow> read_cstr path m;
       let (r, w) = mkdirs N client path (cluster m);
       let m = m\<lparr>cluster := w\<rparr>;
       case r of
         Inr _ \<Rightarrow> Some (0, m)
       | Inl e \<Rightarrow> fail_with N st (lit ''mkdirs '' @ quoted path @ lit '' failed'') e (- 1) m
     }"

definition hdfs_bridge_delete ::
  "('w, 'c, 'r, 'o, 't) hdfs_native \<Rightarrow> addr \<Rightarrow> addr \<Rightarrow> bool \<Rightarrow> addr \<Rightarrow> ('w, 'c, 'r, 'o, 't) mem
     \<Rightarrow> (i32 \<times> ('w, 'c, 'r, 'o, 't) mem) option" where
  "hdfs_bridge_delete N client path recursive st m =
     do {
       client \<leftarrow> clients m client;
       path \<leftarrow> read_cstr path m;
       let (r, w) = delete N client path recursive (cluster m);
       let m = m\<lparr>cluster := w\<rparr>;
       case r of
         Inr deleted \<Rightarrow>
           if deleted then Some (0, m)
           else do {
             m \<leftarrow> set_status st HDFS_ERR_NOT_FOUND (lit ''delete '' @ quoted path @ lit '': path not found'') m;
             Some (- 1, m)
           }
       | Inl e \<Rightarrow> fail_with N st (lit ''delete '' @ quoted path @ lit '' failed'') e (- 1) m
     }"

definition hdfs_bridge_rename ::
  "('w, 'c, 'r, 'o, 't) hdfs_native \<Rightarrow> addr \<Rightarrow> addr \<Rightarrow> addr \<Rightarrow> bool \<Rightarrow> addr \<Rightarrow> ('w, 'c, 'r, 'o, 't) mem
     \<Rightarrow> (i32 \<times> ('w, 'c, 'r, 'o, 't) mem) option" where
  "hdfs_bridge_rename N client src dst ow st m =
     do {
       client \<leftarrow> clients m client;
       src \<leftarrow> read_cstr src m;
       dst \<leftarrow> read_cstr dst m;
       let (r, w) = rename N client src dst ow (cluster m);
       let m = m\<lparr>cluster := w\<rparr>;
       case r of
         Inr _ \<Rightarrow> Some (0, m)
       | Inl e \<Rightarrow> fail_with N st (lit ''rename '' @ quoted src @ lit '' -> '' @ quoted dst @ lit '' failed'') e (- 1) m
     }"

section \<open>The contract of the fallible calls\<close>

text \<open>
  What every call with a status promises the C++ side: with live arguments it is defined, it
  keeps the memory well-formed, and the status tells whether it failed.
\<close>

locale fallible =
  fixes call :: "('w, 'c, 'r, 'o, 't) mem \<Rightarrow> ('a \<times> ('w, 'c, 'r, 'o, 't) mem) option"
    and failed :: "'a \<Rightarrow> bool"
    and pre :: "('w, 'c, 'r, 'o, 't) mem \<Rightarrow> bool"
    and st :: addr
  assumes defined: "mem_ok m \<Longrightarrow> status_live st m \<Longrightarrow> pre m \<Longrightarrow>
      \<exists>r m'. call m = Some (r, m') \<and> mem_ok m' \<and> status_told st (failed r) m m'"
begin

text \<open>
  A caller that sets the status to \<open>{HDFS_OK, NULL}\<close> before the call can test the code, or the
  message pointer, instead of the returned value; the message of a failure can be freed, and
  freeing it gives back the strings there were before.
\<close>

lemma convention:
  assumes "mem_ok m" "pre m" "st \<noteq> null" "statuses m st = Some \<lparr>code = HDFS_OK, msg = null\<rparr>"
  obtains r m' s where "call m = Some (r, m')" "statuses m' st = Some s"
    "failed r \<longleftrightarrow> code s \<noteq> HDFS_OK" "failed r \<longleftrightarrow> msg s \<noteq> null"
    "\<exists>m''. hdfs_bridge_free_string (msg s) m' = Some m'' \<and> (failed r \<longrightarrow> cstrs m'' = cstrs m)"
proof -
  have "status_live st m" using assms(4) by (simp add: status_live_def)
  then obtain r m' where call: "call m = Some (r, m')" and told: "status_told st (failed r) m m'"
    using defined [OF assms(1) _ assms(2)] by blast
  show thesis
  proof (cases "failed r")
    case True
    with told assms(3) obtain c p t where
      new: "statuses m' = (statuses m)(st \<mapsto> \<lparr>code = c, msg = p\<rparr>)" "c \<noteq> HDFS_OK" "p \<noteq> null"
        "cstrs m p = None" "cstrs m' = (cstrs m)(p \<mapsto> t)"
      by (auto simp: status_told_def)
    then have "hdfs_bridge_free_string p m' = Some (m'\<lparr>cstrs := cstrs m\<rparr>)"
      by (auto simp: hdfs_bridge_free_string_def fun_upd_idem)
    with new True call show thesis by (intro that [of r m' "\<lparr>code = c, msg = p\<rparr>"]) auto
  next
    case False
    with told assms(4) have "statuses m' st = Some \<lparr>code = HDFS_OK, msg = null\<rparr>"
      by (simp add: status_told_def)
    with False call show thesis
      by (intro that [of r m' "\<lparr>code = HDFS_OK, msg = null\<rparr>"]) (auto simp: hdfs_bridge_free_string_def)
  qed
qed

end

text \<open>Failing with an error is always told.\<close>

lemma fail_with_told:
  assumes "mem_ok m" "status_live st m"
  shows "\<exists>m'. fail_with N st context e r m = Some (r, m') \<and> mem_ok m' \<and> status_told st True m m'"
  using set_status_told [OF assms classify_not_ok [of e], of "context @ lit '': '' @ n_show N e"]
  by (auto simp: fail_with_def set_error_def)

lemma mem_ok_updates [simp]:
  "mem_ok (m\<lparr>cluster := w\<rparr>) = mem_ok m" "mem_ok (m\<lparr>runtime_slot := s\<rparr>) = mem_ok m"
  "mem_ok (m\<lparr>infos := i\<rparr>) = mem_ok m" "mem_ok (m\<lparr>counts := n\<rparr>) = mem_ok m" "mem_ok (m\<lparr>bufs := b\<rparr>) = mem_ok m"
  by (simp_all add: mem_ok_def)

lemma told_updates [simp]:
  "status_told st f (m\<lparr>cluster := w\<rparr>) m' = status_told st f m m'"
  "status_told st f (m\<lparr>runtime_slot := s\<rparr>) m' = status_told st f m m'"
  "status_told st f (m\<lparr>infos := i\<rparr>) m' = status_told st f m m'"
  "status_told st f (m\<lparr>counts := n\<rparr>) m' = status_told st f m m'"
  "status_told st f (m\<lparr>bufs := b\<rparr>) m' = status_told st f m m'"
  "status_told st f (m\<lparr>writers := wr\<rparr>) m' = status_told st f m m'"
  "status_told st f (m\<lparr>streams := ss\<rparr>) m' = status_told st f m m'"
  by (simp_all add: status_told_def)

lemma live_updates [simp]:
  "status_live st (m\<lparr>cluster := w\<rparr>) = status_live st m"
  "status_live st (m\<lparr>runtime_slot := s\<rparr>) = status_live st m"
  "status_live st (m\<lparr>infos := i\<rparr>) = status_live st m"
  "status_live st (m\<lparr>counts := n\<rparr>) = status_live st m"
  "status_live st (m\<lparr>bufs := b\<rparr>) = status_live st m"
  "status_live st (m\<lparr>writers := wr\<rparr>) = status_live st m"
  "status_live st (m\<lparr>streams := ss\<rparr>) = status_live st m"
  by (simp_all add: status_live_def)

lemma told_same [simp]: "status_told st False m m' \<longleftrightarrow> statuses m' = statuses m"
  by (simp add: status_told_def)

lemma minus_one_not_0 [simp]: "(- 1 :: i32) \<noteq> 0"
  by simp

text \<open>The arguments of most calls: a live client and a live path.\<close>

definition client_args :: "addr \<Rightarrow> addr \<Rightarrow> ('w, 'c, 'r, 'o, 't) mem \<Rightarrow> bool" where
  "client_args client path m \<longleftrightarrow> clients m client \<noteq> None \<and> read_cstr path m \<noteq> None"

interpretation mkdirs_call: fallible "hdfs_bridge_mkdirs N client path st" "\<lambda>r. r \<noteq> 0" "client_args client path" st
  for N :: "('w, 'c, 'r, 'o, 't) hdfs_native" and client path st
proof
  fix m :: "('w, 'c, 'r, 'o, 't) mem"
  assume m: "mem_ok m" "status_live st m" "client_args client path m"
  then obtain c p where args: "clients m client = Some c" "read_cstr path m = Some p"
    by (auto simp: client_args_def)
  obtain r w where "mkdirs N c p (cluster m) = (r, w)" by force
  with args m fail_with_told [of "m\<lparr>cluster := w\<rparr>" st N]
  show "\<exists>r m'. hdfs_bridge_mkdirs N client path st m = Some (r, m') \<and> mem_ok m' \<and> status_told st (r \<noteq> 0) m m'"
    by (cases r) (fastforce simp: hdfs_bridge_mkdirs_def)+
qed

interpretation rename_call: fallible "hdfs_bridge_rename N client src dst ow st" "\<lambda>r. r \<noteq> 0"
  "\<lambda>m. client_args client src m \<and> client_args client dst m" st
  for N :: "('w, 'c, 'r, 'o, 't) hdfs_native" and client src dst ow st
proof
  fix m :: "('w, 'c, 'r, 'o, 't) mem"
  assume m: "mem_ok m" "status_live st m" "client_args client src m \<and> client_args client dst m"
  then obtain c p q where args: "clients m client = Some c" "read_cstr src m = Some p" "read_cstr dst m = Some q"
    by (auto simp: client_args_def)
  obtain r w where "rename N c p q ow (cluster m) = (r, w)" by force
  with args m fail_with_told [of "m\<lparr>cluster := w\<rparr>" st N]
  show "\<exists>r m'. hdfs_bridge_rename N client src dst ow st m = Some (r, m') \<and> mem_ok m' \<and> status_told st (r \<noteq> 0) m m'"
    by (cases r) (fastforce simp: hdfs_bridge_rename_def)+
qed

interpretation delete_call: fallible "hdfs_bridge_delete N client path recursive st" "\<lambda>r. r \<noteq> 0" "client_args client path" st
  for N :: "('w, 'c, 'r, 'o, 't) hdfs_native" and client path recursive st
proof
  fix m :: "('w, 'c, 'r, 'o, 't) mem"
  assume m: "mem_ok m" "status_live st m" "client_args client path m"
  then obtain c p where args: "clients m client = Some c" "read_cstr path m = Some p"
    by (auto simp: client_args_def)
  obtain r w where r: "delete N c p recursive (cluster m) = (r, w)" by force
  have nf: "HDFS_ERR_NOT_FOUND \<noteq> HDFS_OK" by (simp add: category_defs)
  show "\<exists>r m'. hdfs_bridge_delete N client path recursive st m = Some (r, m') \<and> mem_ok m' \<and> status_told st (r \<noteq> 0) m m'"
  proof (cases r)
    case (Inl e)
    with r args m fail_with_told [of "m\<lparr>cluster := w\<rparr>" st N] show ?thesis
      by (fastforce simp: hdfs_bridge_delete_def)
  next
    case (Inr b)
    obtain m' where "set_status st HDFS_ERR_NOT_FOUND (lit ''delete '' @ quoted p @ lit '': path not found'')
        (m\<lparr>cluster := w\<rparr>) = Some m'" "status_told st True (m\<lparr>cluster := w\<rparr>) m'" "mem_ok m'"
      using set_status_told [OF _ _ nf, of "m\<lparr>cluster := w\<rparr>" st] m by auto
    with Inr r args m show ?thesis by (cases b) (simp_all add: hdfs_bridge_delete_def)
  qed
qed

interpretation get_file_info_call: fallible "hdfs_bridge_get_file_info N client path out st" "\<lambda>r. r \<noteq> 0"
  "\<lambda>m. client_args client path m \<and> infos m out \<noteq> None" st
  for N :: "('w, 'c, 'r, 'o, 't) hdfs_native" and client path out st
proof
  fix m :: "('w, 'c, 'r, 'o, 't) mem"
  assume m: "mem_ok m" "status_live st m" "client_args client path m \<and> infos m out \<noteq> None"
  then obtain c p where args: "clients m client = Some c" "read_cstr path m = Some p"
    by (auto simp: client_args_def)
  with m fail_with_told [of m st N]
  show "\<exists>r m'. hdfs_bridge_get_file_info N client path out st m = Some (r, m') \<and> mem_ok m' \<and> status_told st (r \<noteq> 0) m m'"
    by (cases "get_file_info N c p (cluster m)") (fastforce simp: hdfs_bridge_get_file_info_def)+
qed


lemma mem_ok_handles [simp]:
  "mem_ok m \<Longrightarrow> mem_ok (snd (alloc_client c m))" "mem_ok m \<Longrightarrow> mem_ok (snd (alloc_reader r m))"
  "mem_ok m \<Longrightarrow> mem_ok (snd (alloc_writer wr m))" "mem_ok m \<Longrightarrow> mem_ok (snd (alloc_stream s m))"
  by (simp_all add: mem_ok_def alloc_client_def alloc_reader_def alloc_writer_def alloc_stream_def
      live_below_upd live_below_mono [of "fresh m" _ "Suc (fresh m)"])

lemma handle_not_null:
  "mem_ok m \<Longrightarrow> fst (alloc_client c m) \<noteq> null" "mem_ok m \<Longrightarrow> fst (alloc_reader r m) \<noteq> null"
  "mem_ok m \<Longrightarrow> fst (alloc_writer wr m) \<noteq> null" "mem_ok m \<Longrightarrow> fst (alloc_stream s m) \<noteq> null"
  "mem_ok m \<Longrightarrow> fst (alloc_entries es m) \<noteq> null"
  by (simp_all add: mem_ok_def alloc_client_def alloc_reader_def alloc_writer_def alloc_stream_def alloc_entries_def)

lemma handle_statuses [simp]:
  "statuses (snd (alloc_client c m)) = statuses m" "statuses (snd (alloc_reader r m)) = statuses m"
  "statuses (snd (alloc_writer wr m)) = statuses m" "statuses (snd (alloc_stream s m)) = statuses m"
  "statuses (snd (alloc_entries es m)) = statuses m"
  by (simp_all add: alloc_client_def alloc_reader_def alloc_writer_def alloc_stream_def alloc_entries_def)

text \<open>A call that returns a handle, or null for a failure.\<close>

lemma told_handle:
  assumes "mem_ok m'" "statuses m' = statuses m" "p \<noteq> null"
  shows "\<exists>r m''. Some (p, m') = Some (r, m'') \<and> mem_ok m'' \<and> status_told st (r = null) m m''"
  using assms by simp

interpretation open_call: fallible "hdfs_bridge_open N client path st" "\<lambda>r. r = null" "client_args client path" st
  for N :: "('w, 'c, 'r, 'o, 't) hdfs_native" and client path st
proof
  fix m :: "('w, 'c, 'r, 'o, 't) mem"
  assume m: "mem_ok m" "status_live st m" "client_args client path m"
  then obtain c p where args: "clients m client = Some c" "read_cstr path m = Some p"
    by (auto simp: client_args_def)
  show "\<exists>r m'. hdfs_bridge_open N client path st m = Some (r, m') \<and> mem_ok m' \<and> status_told st (r = null) m m'"
  proof (cases "open_reader N c p (cluster m)")
    case (Inl e)
    with args m fail_with_told [of m st N] show ?thesis by (fastforce simp: hdfs_bridge_open_def)
  next
    case (Inr r)
    with args m told_handle [of "snd (alloc_reader r m)" m "fst (alloc_reader r m)"] handle_not_null(2) [of m r]
    show ?thesis by (simp add: hdfs_bridge_open_def)
  qed
qed

interpretation create_call: fallible "hdfs_bridge_create N client path ow st" "\<lambda>r. r = null" "client_args client path" st
  for N :: "('w, 'c, 'r, 'o, 't) hdfs_native" and client path ow st
proof
  fix m :: "('w, 'c, 'r, 'o, 't) mem"
  assume m: "mem_ok m" "status_live st m" "client_args client path m"
  then obtain c p where args: "clients m client = Some c" "read_cstr path m = Some p"
    by (auto simp: client_args_def)
  obtain r w where r: "create N c p ow (cluster m) = (r, w)" by force
  show "\<exists>r m'. hdfs_bridge_create N client path ow st m = Some (r, m') \<and> mem_ok m' \<and> status_told st (r = null) m m'"
  proof (cases r)
    case (Inl e)
    with r args m fail_with_told [of "m\<lparr>cluster := w\<rparr>" st N] show ?thesis
      by (fastforce simp: hdfs_bridge_create_def)
  next
    case (Inr wr)
    let ?a = "alloc_writer wr (m\<lparr>cluster := w\<rparr>)"
    from Inr r args m told_handle [of "snd ?a" m "fst ?a"] handle_not_null(3) [of "m\<lparr>cluster := w\<rparr>" wr]
    show ?thesis by (simp add: hdfs_bridge_create_def)
  qed
qed

text \<open>Optional strings: null, or live.\<close>

definition opt_live :: "addr \<Rightarrow> ('w, 'c, 'r, 'o, 't) mem \<Rightarrow> bool" where
  "opt_live p m \<longleftrightarrow> p = null \<or> read_cstr p m \<noteq> None"

lemma opt_str_live: "opt_live p m \<Longrightarrow> \<exists>s. opt_str p m = Some s"
  by (auto simp: opt_live_def opt_str_def)

interpretation connect_call: fallible "hdfs_bridge_connect N url dir user st" "\<lambda>r. r = null"
  "\<lambda>m. opt_live url m \<and> opt_live dir m \<and> opt_live user m" st
  for N :: "('w, 'c, 'r, 'o, 't) hdfs_native" and url dir user st
proof
  fix m :: "('w, 'c, 'r, 'o, 't) mem"
  assume m: "mem_ok m" "status_live st m" "opt_live url m \<and> opt_live dir m \<and> opt_live user m"
  then obtain u d s where args: "opt_str url m = Some u" "opt_str dir m = Some d" "opt_str user m = Some s"
    using opt_str_live [of url m] opt_str_live [of dir m] opt_str_live [of user m] by auto
  obtain r slot where r: "connect N u d s (cluster m) (runtime_slot m) = (r, slot)" by force
  show "\<exists>r m'. hdfs_bridge_connect N url dir user st m = Some (r, m') \<and> mem_ok m' \<and> status_told st (r = null) m m'"
  proof (cases r)
    case (Inl e)
    with r args m fail_with_told [of "m\<lparr>runtime_slot := slot\<rparr>" st N] show ?thesis
      by (fastforce simp: hdfs_bridge_connect_def)
  next
    case (Inr c)
    let ?a = "alloc_client c (m\<lparr>runtime_slot := slot\<rparr>)"
    from Inr r args m told_handle [of "snd ?a" m "fst ?a"] handle_not_null(1) [of "m\<lparr>runtime_slot := slot\<rparr>" c]
    show ?thesis by (simp add: hdfs_bridge_connect_def)
  qed
qed

interpretation glob_open_call: fallible "hdfs_bridge_glob_stream_open N client pattern par skip hidden st died ks"
  "\<lambda>r. r = null" "client_args client pattern" st
  for N :: "('w, 'c, 'r, 'o, 't) hdfs_native" and client pattern par skip hidden st died ks
proof
  fix m :: "('w, 'c, 'r, 'o, 't) mem"
  assume m: "mem_ok m" "status_live st m" "client_args client pattern m"
  then obtain c p where args: "clients m client = Some c" "read_cstr pattern m = Some p"
    by (auto simp: client_args_def)
  let ?opts = "\<lparr>skip_permission_errors = skip, include_hidden = hidden\<rparr>"
  obtain r where r: "client_glob_stream N c p (at_least_1 par) ?opts (cluster m) died ks = Some r"
    using parse_total [of p hidden] by (auto simp: client_glob_stream_def glob_stream_def)
  show "\<exists>r m'. hdfs_bridge_glob_stream_open N client pattern par skip hidden st died ks m = Some (r, m') \<and>
      mem_ok m' \<and> status_told st (r = null) m m'"
  proof (cases r)
    case (Inl e)
    with r args m fail_with_told [of m st N] show ?thesis by (fastforce simp: hdfs_bridge_glob_stream_open_def)
  next
    case (Inr s)
    with r args m told_handle [of "snd (alloc_stream s m)" m "fst (alloc_stream s m)"] handle_not_null(4) [of m s]
    show ?thesis by (simp add: hdfs_bridge_glob_stream_open_def)
  qed
qed


interpretation stat_call: fallible "hdfs_bridge_stat N client path st" "\<lambda>r. r = null" "client_args client path" st
  for N :: "('w, 'c, 'r, 'o, 't) hdfs_native" and client path st
proof
  fix m :: "('w, 'c, 'r, 'o, 't) mem"
  assume m: "mem_ok m" "status_live st m" "client_args client path m"
  then obtain c p where args: "clients m client = Some c" "read_cstr path m = Some p"
    by (auto simp: client_args_def)
  show "\<exists>r m'. hdfs_bridge_stat N client path st m = Some (r, m') \<and> mem_ok m' \<and> status_told st (r = null) m m'"
  proof (cases "get_file_info N c p (cluster m)")
    case (Inl e)
    with args m fail_with_told [of m st N] show ?thesis by (fastforce simp: hdfs_bridge_stat_def)
  next
    case (Inr info)
    obtain e m1 where e: "status_to_entry info m = (e, m1)" by force
    with status_to_entry_ok [OF m(1), of info] have m1: "mem_ok m1" "statuses m1 = statuses m" by auto
    have "hdfs_bridge_stat N client path st m = Some (fst (alloc_entries [e] m1), snd (alloc_entries [e] m1))"
      using Inr args e by (simp add: hdfs_bridge_stat_def)
    with told_handle [of "snd (alloc_entries [e] m1)" m "fst (alloc_entries [e] m1)"]
      alloc_entries_ok [OF m1(1)] m1 handle_not_null(5) [OF m1(1)] show ?thesis by simp
  qed
qed

text \<open>A buffer that is long enough; nothing is asked of it, or of the handle, for a negative length.\<close>

definition buffer_args :: "(('w, 'c, 'r, 'o, 't) mem \<Rightarrow> addr \<rightharpoonup> 'h) \<Rightarrow> addr \<Rightarrow> addr \<Rightarrow> i64 \<Rightarrow> ('w, 'c, 'r, 'o, 't) mem \<Rightarrow> bool" where
  "buffer_args handles h buf len m \<longleftrightarrow>
     sint len < 0 \<or> handles m h \<noteq> None \<and> (\<exists>bs. bufs m buf = Some bs \<and> unat len \<le> length bs)"

lemma negative_length_told:
  assumes "mem_ok m" "status_live st m"
  shows "\<exists>m'. set_status st HDFS_ERR_INVALID_ARGUMENT t m = Some m' \<and> mem_ok m' \<and> status_told st True m m'"
  using set_status_told [OF assms, of HDFS_ERR_INVALID_ARGUMENT t] by (auto simp: category_defs)

lemma length_not_minus_1: "\<not> sint len < 0 \<Longrightarrow> len \<noteq> (- 1 :: i64)"
  by auto

interpretation read_call: fallible "hdfs_bridge_read_range N reader buf len offset st" "\<lambda>r. r = - 1"
  "buffer_args readers reader buf len" st
  for N :: "('w, 'c, 'r, 'o, 't) hdfs_native" and reader buf len offset st
proof
  fix m :: "('w, 'c, 'r, 'o, 't) mem"
  assume m: "mem_ok m" "status_live st m" "buffer_args readers reader buf len m"
  show "\<exists>r m'. hdfs_bridge_read_range N reader buf len offset st m = Some (r, m') \<and>
      mem_ok m' \<and> status_told st (r = - 1) m m'"
  proof (cases "sint len < 0")
    case True
    with negative_length_told [OF m(1,2), of "lit ''negative read length''"] show ?thesis
      by (auto simp: hdfs_bridge_read_range_def simp del: lit_Cons)
  next
    case False
    with m(3) obtain rd bs where args: "readers m reader = Some rd" "bufs m buf = Some bs" "unat len \<le> length bs"
      by (auto simp: buffer_args_def)
    obtain r filled where r: "read_range_buf N rd (take (unat len) bs) offset (cluster m) = (r, filled)" by force
    let ?m = "m\<lparr>bufs := (bufs m)(buf \<mapsto> filled @ drop (unat len) bs)\<rparr>"
    show ?thesis
    proof (cases r)
      case (Inl e)
      with r args m(1,2) False fail_with_told [of ?m st N] show ?thesis
        by (fastforce simp: hdfs_bridge_read_range_def Let_def)
    next
      case (Inr u)
      with r args m(1) False length_not_minus_1 [OF False] show ?thesis
        by (simp add: hdfs_bridge_read_range_def Let_def)
    qed
  qed
qed

lemma mem_ok_writers: "mem_ok m \<Longrightarrow> writers m p \<noteq> None \<Longrightarrow> mem_ok (m\<lparr>writers := (writers m)(p := x), cluster := w\<rparr>)"
  by (auto simp: mem_ok_def live_below_def)

interpretation write_call: fallible "hdfs_bridge_write N writer buf len st" "\<lambda>r. r = - 1"
  "buffer_args writers writer buf len" st
  for N :: "('w, 'c, 'r, 'o, 't) hdfs_native" and writer buf len st
proof
  fix m :: "('w, 'c, 'r, 'o, 't) mem"
  assume m: "mem_ok m" "status_live st m" "buffer_args writers writer buf len m"
  show "\<exists>r m'. hdfs_bridge_write N writer buf len st m = Some (r, m') \<and>
      mem_ok m' \<and> status_told st (r = - 1) m m'"
  proof (cases "sint len < 0")
    case True
    with negative_length_told [OF m(1,2), of "lit ''negative write length''"] show ?thesis
      by (auto simp: hdfs_bridge_write_def simp del: lit_Cons)
  next
    case False
    with m(3) obtain wr bs where args: "writers m writer = Some wr" "bufs m buf = Some bs" "unat len \<le> length bs"
      by (auto simp: buffer_args_def)
    obtain r wr' w where r: "write_data N wr (take (unat len) bs) (cluster m) = (r, wr', w)"
      using prod_cases3 by blast
    let ?m = "m\<lparr>writers := (writers m)(writer \<mapsto> wr'), cluster := w\<rparr>"
    have ok: "mem_ok ?m" "status_live st ?m" using mem_ok_writers [OF m(1)] args(1) m(2) by simp_all
    show ?thesis
    proof (cases r)
      case (Inl e)
      with r args False fail_with_told [OF ok, of N] show ?thesis
        by (fastforce simp: hdfs_bridge_write_def Let_def)
    next
      case (Inr u)
      with r args ok False length_not_minus_1 [OF False] show ?thesis
        by (simp add: hdfs_bridge_write_def Let_def)
    qed
  qed
qed

interpretation close_call: fallible "hdfs_bridge_close_writer N writer st" "\<lambda>r. r \<noteq> 0"
  "\<lambda>m. writer = null \<or> writers m writer \<noteq> None" st
  for N :: "('w, 'c, 'r, 'o, 't) hdfs_native" and writer st
proof
  fix m :: "('w, 'c, 'r, 'o, 't) mem"
  assume m: "mem_ok m" "status_live st m" "writer = null \<or> writers m writer \<noteq> None"
  show "\<exists>r m'. hdfs_bridge_close_writer N writer st m = Some (r, m') \<and> mem_ok m' \<and> status_told st (r \<noteq> 0) m m'"
  proof (cases "writer = null")
    case True
    with m show ?thesis by (simp add: hdfs_bridge_close_writer_def)
  next
    case False
    with m obtain wr where wr: "writers m writer = Some wr" by auto
    obtain r w where r: "close_writer N wr (cluster m) = (r, w)" by force
    let ?m = "m\<lparr>writers := (writers m)(writer := None), cluster := w\<rparr>"
    have ok: "mem_ok ?m" "status_live st ?m" using mem_ok_writers [OF m(1)] wr m(2) by simp_all
    show ?thesis
    proof (cases r)
      case (Inl e)
      with r wr False fail_with_told [OF ok, of N] show ?thesis
        by (fastforce simp: hdfs_bridge_close_writer_def Let_def)
    next
      case (Inr u)
      with r wr ok False show ?thesis by (simp add: hdfs_bridge_close_writer_def Let_def)
    qed
  qed
qed


section \<open>Batches at the boundary\<close>

lemma uint_nonneg_sint: "0 \<le> sint (n :: i32) \<Longrightarrow> uint n = sint n"
  using sint_lt [of n] by (simp add: uint_sint take_bit_int_eq_self)

lemma at_least_1_value: "int (unat (at_least_1 n)) = max 1 (sint n)"
proof (cases "sint n < 1")
  case False
  have "unat n < 2 ^ LENGTH(32)" by (rule unsigned_less)
  then have "unat n < 2 ^ 64" by simp
  then have "unat (ucast n :: usize) = unat n"
    by (simp add: unsigned_ucast_eq take_bit_word_eq_self take_bit_nat_eq_self)
  then have "int (unat (ucast n :: usize)) = sint n" using False uint_nonneg_sint [of n] by simp
  with False show ?thesis by (simp add: at_least_1_def)
qed (simp add: at_least_1_def)

lemma stream_next_eq:
  assumes "streams m stream = Some s" "counts m out_count \<noteq> None"
    and "next_batch (at_least_1 max_entries) ready s = (r, s')"
  shows "hdfs_bridge_list_stream_next N stream max_entries ready out_count st m =
    (let m1 = m\<lparr>counts := (counts m)(out_count \<mapsto> 0), streams := (streams m)(stream \<mapsto> s')\<rparr>
     in (case r of
           Inr batch \<Rightarrow> statuses_to_entries batch out_count m1
         | Inl e \<Rightarrow> fail_with N st (lit ''list '' @ quoted (stream_path s') @ lit '' failed'') e null m1))"
  using assms by (auto simp: hdfs_bridge_list_stream_next_def Let_def simp del: lit_Cons split: sum.splits)

lemma stream_next_mem_ok:
  assumes "mem_ok m" "streams m stream = Some s"
  shows "mem_ok (m\<lparr>counts := n, streams := (streams m)(stream \<mapsto> s')\<rparr>)"
  using assms by (auto simp: mem_ok_def live_below_def)

text \<open>The count of a batch is exact: a batch is never longer than a positive 32-bit integer.\<close>

lemma batch_length:
  assumes "next_batch (at_least_1 max_entries) ready s = (Inr b, s')"
  shows "int (length b) \<le> max 1 (sint max_entries)" and "length b < 2 ^ 31"
proof -
  have "length b \<le> max (unat (at_least_1 max_entries)) 1"
    using assms by (cases rule: next_batch_cases [of "at_least_1 max_entries" ready s, case_names batch error died finished])
      auto
  then show len: "int (length b) \<le> max 1 (sint max_entries)" using at_least_1_value [of max_entries] by linarith
  have "sint max_entries < 2 ^ 31" using sint_lt [of max_entries] by simp
  with len have "int (length b) < 2 ^ 31" by (auto simp: max_def split: if_splits)
  then show "length b < 2 ^ 31" by simp
qed

text \<open>
  The next batch: null and the count 0 are the end as well as an error, so the returned value alone
  does not tell a failure; what decides is the result of \<^verbatim>\<open>next_batch\<close>.
\<close>

definition next_gives ::
  "addr \<Rightarrow> i32 \<Rightarrow> nat \<Rightarrow> addr \<Rightarrow> (hdfs_error + FileStatus list \<Rightarrow> bool) \<Rightarrow> ('w, 'c, 'r, 'o, 't) mem \<Rightarrow> bool" where
  "next_gives stream max_entries ready out_count R m \<longleftrightarrow> counts m out_count \<noteq> None \<and>
     (\<exists>s. streams m stream = Some s \<and> R (fst (next_batch (at_least_1 max_entries) ready s)))"

lemma next_gives_eq:
  assumes "next_gives stream max_entries ready out_count R m"
  obtains s r s' where "streams m stream = Some s" "next_batch (at_least_1 max_entries) ready s = (r, s')" "R r"
    "counts m out_count \<noteq> None"
proof -
  from assms obtain s where "streams m stream = Some s" "R (fst (next_batch (at_least_1 max_entries) ready s))"
    "counts m out_count \<noteq> None" by (auto simp: next_gives_def)
  with that show thesis by (cases "next_batch (at_least_1 max_entries) ready s") auto
qed

interpretation next_fails: fallible "hdfs_bridge_list_stream_next N stream max_entries ready out_count st" "\<lambda>_. True"
  "next_gives stream max_entries ready out_count isl" st
  for N :: "('w, 'c, 'r, 'o, 't) hdfs_native" and stream max_entries ready out_count st
proof
  fix m :: "('w, 'c, 'r, 'o, 't) mem"
  assume m: "mem_ok m" "status_live st m" "next_gives stream max_entries ready out_count isl m"
  from m(3) obtain s r s' where s: "streams m stream = Some s" "next_batch (at_least_1 max_entries) ready s = (r, s')" "isl r"
    "counts m out_count \<noteq> None" by (rule next_gives_eq)
  obtain e where e: "r = Inl e" using s(3) by (cases r) auto
  let ?m = "m\<lparr>counts := (counts m)(out_count \<mapsto> 0), streams := (streams m)(stream \<mapsto> s')\<rparr>"
  have "mem_ok ?m" "status_live st ?m" using stream_next_mem_ok [OF m(1) s(1)] m(2) by (simp_all add: status_live_def)
  from fail_with_told [OF this, of N "lit ''list '' @ quoted (stream_path s') @ lit '' failed''" e null] obtain m' where
    "fail_with N st (lit ''list '' @ quoted (stream_path s') @ lit '' failed'') e null ?m = Some (null, m')" "mem_ok m'"
    "status_told st True ?m m'" by blast
  moreover from this(3) have "status_told st True m m'" by simp
  ultimately show "\<exists>r m'. hdfs_bridge_list_stream_next N stream max_entries ready out_count st m = Some (r, m') \<and>
      mem_ok m' \<and> status_told st True m m'"
    unfolding stream_next_eq [OF s(1,4,2)] e Let_def by auto
qed

interpretation next_serves: fallible "hdfs_bridge_list_stream_next N stream max_entries ready out_count st" "\<lambda>_. False"
  "next_gives stream max_entries ready out_count (\<lambda>r. \<not> isl r)" st
  for N :: "('w, 'c, 'r, 'o, 't) hdfs_native" and stream max_entries ready out_count st
proof
  fix m :: "('w, 'c, 'r, 'o, 't) mem"
  assume m: "mem_ok m" "status_live st m" "next_gives stream max_entries ready out_count (\<lambda>r. \<not> isl r) m"
  from m(3) obtain s r s' where s: "streams m stream = Some s" "next_batch (at_least_1 max_entries) ready s = (r, s')" "\<not> isl r"
    "counts m out_count \<noteq> None" by (rule next_gives_eq)
  obtain b where b: "r = Inr b" using s(3) by (cases r) auto
  let ?m = "m\<lparr>counts := (counts m)(out_count \<mapsto> 0), streams := (streams m)(stream \<mapsto> s')\<rparr>"
  have "mem_ok ?m" "mem_ok (m\<lparr>streams := (streams m)(stream \<mapsto> s')\<rparr>)"
    using stream_next_mem_ok [OF m(1) s(1)] stream_next_mem_ok [OF m(1) s(1), where n = "counts m"] by simp_all
  then show "\<exists>r m'. hdfs_bridge_list_stream_next N stream max_entries ready out_count st m = Some (r, m') \<and>
      mem_ok m' \<and> status_told st False m m'"
    using entries_built_ok [of ?m b out_count] unfolding stream_next_eq [OF s(1,4,2)] b Let_def
    by (auto simp: statuses_to_entries_eq status_told_def entries_built_def Let_def)
qed

section \<open>The convention\<close>

text \<open>
  What a caller of a fallible function may rely on: it sets the status to \<open>{HDFS_OK, NULL}\<close>, makes
  the call, and can then test the code or the message instead of the returned value; a message
  is there exactly after a failure, and freeing it restores the strings there were before.
\<close>

definition follows_convention ::
  "(('w, 'c, 'r, 'o, 't) mem \<Rightarrow> ('a \<times> ('w, 'c, 'r, 'o, 't) mem) option) \<Rightarrow> ('a \<Rightarrow> bool)
     \<Rightarrow> (('w, 'c, 'r, 'o, 't) mem \<Rightarrow> bool) \<Rightarrow> addr \<Rightarrow> bool" where
  "follows_convention call failed pre st \<longleftrightarrow>
     (\<forall>m. mem_ok m \<and> pre m \<and> statuses m st = Some \<lparr>code = HDFS_OK, msg = null\<rparr> \<longrightarrow>
        (\<exists>r m' s. call m = Some (r, m') \<and> statuses m' st = Some s \<and>
           (failed r \<longleftrightarrow> code s \<noteq> HDFS_OK) \<and> (failed r \<longleftrightarrow> msg s \<noteq> null) \<and>
           (\<exists>m''. hdfs_bridge_free_string (msg s) m' = Some m'' \<and> (failed r \<longrightarrow> cstrs m'' = cstrs m))))"

context fallible
begin

lemma follows: "st \<noteq> null \<Longrightarrow> follows_convention call failed pre st"
  unfolding follows_convention_def using convention by (metis (no_types, lifting))

end

end
