(* ===== verification/Ffi_Session.thy ===== *)
theory Ffi_Session
  imports Ffi
begin

text \<open>
  A C++ caller over the whole boundary: any sequence of calls of the exported functions of
  \<^verbatim>\<open>hdfs-bridge/src/lib.rs\<close>. A caller is disciplined when it passes live handles and cells,
  frees only what it was given, and frees an array of entries with its count and not by its
  strings. Such a caller never meets undefined behaviour: the memory keeps its shape (progress
  and preservation), in particular every live array owns its strings.
\<close>

section \<open>Ownership\<close>

definition array_strs :: "DirEntry list \<Rightarrow> addr list" where
  "array_strs es = concat (map entry_strs es)"

text \<open>The strings of live arrays are live, and no string belongs to two entries.\<close>

definition arrays_ok :: "(addr \<rightharpoonup> byte list) \<Rightarrow> (addr \<rightharpoonup> DirEntry list) \<Rightarrow> bool" where
  "arrays_ok cs ar \<longleftrightarrow>
     (\<forall>p es. ar p = Some es \<longrightarrow> distinct (array_strs es) \<and> set (array_strs es) \<subseteq> dom cs) \<and>
     (\<forall>p q es fs. ar p = Some es \<longrightarrow> ar q = Some fs \<longrightarrow> p \<noteq> q \<longrightarrow> set (array_strs es) \<inter> set (array_strs fs) = {})"

definition heap_ok :: "('w, 'c, 'r, 'o, 't) mem \<Rightarrow> bool" where
  "heap_ok m \<longleftrightarrow> mem_ok m \<and> arrays_ok (cstrs m) (entry_arrays m)"

text \<open>Most calls only add strings.\<close>

definition grows :: "('w, 'c, 'r, 'o, 't) mem \<Rightarrow> ('w, 'c, 'r, 'o, 't) mem \<Rightarrow> bool" where
  "grows m m' \<longleftrightarrow> entry_arrays m' = entry_arrays m \<and> dom (cstrs m) \<subseteq> dom (cstrs m')"

lemma arrays_ok_mono: "arrays_ok cs ar \<Longrightarrow> dom cs \<subseteq> dom cs' \<Longrightarrow> arrays_ok cs' ar"
  unfolding arrays_ok_def by blast

lemma grows_arrays_ok: "arrays_ok (cstrs m) (entry_arrays m) \<Longrightarrow> grows m m' \<Longrightarrow> arrays_ok (cstrs m') (entry_arrays m')"
  by (auto simp: grows_def intro: arrays_ok_mono)

lemma set_status_grows: "set_status st c t m = Some m' \<Longrightarrow> grows m m'"
  by (auto simp: set_status_def grows_def alloc_cstr_def Let_def split: if_splits option.splits prod.splits bind_splits)

lemma fail_with_grows: "fail_with N st context e r m = Some (r', m') \<Longrightarrow> grows m m'"
  by (auto simp: fail_with_def set_error_def dest: set_status_grows split: bind_splits)

lemma grows_updates [simp]:
  "grows (m\<lparr>cluster := w\<rparr>) m' = grows m m'" "grows (m\<lparr>runtime_slot := sl\<rparr>) m' = grows m m'"
  "grows (m\<lparr>bufs := b\<rparr>) m' = grows m m'" "grows (m\<lparr>counts := n\<rparr>) m' = grows m m'"
  "grows (m\<lparr>writers := wr\<rparr>) m' = grows m m'" "grows (m\<lparr>streams := ss\<rparr>) m' = grows m m'"
  "grows m (m'\<lparr>cluster := w\<rparr>) = grows m m'" "grows m (m'\<lparr>runtime_slot := sl\<rparr>) = grows m m'"
  "grows m (m'\<lparr>bufs := b\<rparr>) = grows m m'" "grows m (m'\<lparr>infos := i\<rparr>) = grows m m'"
  "grows m (m'\<lparr>writers := wr\<rparr>) = grows m m'" "grows m (m'\<lparr>streams := ss\<rparr>) = grows m m'"
  "grows m (m'\<lparr>clients := cl\<rparr>) = grows m m'" "grows m (m'\<lparr>readers := rd\<rparr>) = grows m m'"
  "grows m (m'\<lparr>counts := n\<rparr>) = grows m m'" "grows m (m'\<lparr>fresh := f\<rparr>) = grows m m'"
  "grows m m"
  by (simp_all add: grows_def)

text \<open>The calls that only add strings.\<close>

named_theorems call_grows

lemmas handle_defs = alloc_client_def alloc_reader_def alloc_writer_def alloc_stream_def

lemma calls_grow [call_grows]:
  "hdfs_bridge_connect N url dir user st m = Some (r1, m1) \<Longrightarrow> grows m m1"
  "hdfs_bridge_get_file_info N client path out st m = Some (r2, m2) \<Longrightarrow> grows m m2"
  "hdfs_bridge_open N client path st m = Some (r3, m3) \<Longrightarrow> grows m m3"
  "hdfs_bridge_create N client path ow st m = Some (r4, m4) \<Longrightarrow> grows m m4"
  "hdfs_bridge_close_writer N writer st m = Some (r5, m5) \<Longrightarrow> grows m m5"
  "hdfs_bridge_glob_stream_open N client path par skip hidden st died ks m = Some (r6, m6) \<Longrightarrow> grows m m6"
  "hdfs_bridge_mkdirs N client path st m = Some (r7, m7) \<Longrightarrow> grows m m7"
  "hdfs_bridge_rename N client path dst ow st m = Some (r8, m8) \<Longrightarrow> grows m m8"
  by (auto simp: hdfs_bridge_connect_def hdfs_bridge_get_file_info_def hdfs_bridge_open_def hdfs_bridge_create_def
      hdfs_bridge_close_writer_def hdfs_bridge_glob_stream_open_def hdfs_bridge_mkdirs_def hdfs_bridge_rename_def
      handle_defs Let_def split: bind_splits sum.splits prod.splits if_splits dest!: fail_with_grows)

lemma calls_grow' [call_grows]:
  "hdfs_bridge_delete N client path recursive st m = Some (r1, m1) \<Longrightarrow> grows m m1"
  "hdfs_bridge_read_range N reader buf len offset st m = Some (r2, m2) \<Longrightarrow> grows m m2"
  "hdfs_bridge_write N writer buf len st m = Some (r3, m3) \<Longrightarrow> grows m m3"
  "hdfs_bridge_list_stream_open N client path recursive par skip hidden died ks m = Some (r4, m4) \<Longrightarrow> grows m m4"
  by (auto simp: hdfs_bridge_delete_def hdfs_bridge_read_range_def hdfs_bridge_write_def hdfs_bridge_list_stream_open_def
      handle_defs Let_def simp del: lit_Cons split: bind_splits sum.splits prod.splits if_splits
      dest!: fail_with_grows set_status_grows)

section \<open>Arrays come and go whole\<close>

text \<open>A new array over fresh strings.\<close>

lemma arrays_ok_new:
  assumes "arrays_ok cs ar" and "\<And>q. f \<le> q \<Longrightarrow> cs q = None" and "dom cs \<subseteq> dom cs'"
    and "distinct (array_strs es)" and "set (array_strs es) \<subseteq> dom cs'" and "\<forall>a \<in> set (array_strs es). f \<le> a"
  shows "arrays_ok cs' (ar(p \<mapsto> es))"
proof -
  have old: "set (array_strs fs) \<subseteq> dom cs" if "ar q = Some fs" for q fs
    using assms(1) that by (auto simp: arrays_ok_def)
  have new: "a \<notin> dom cs" if "a \<in> set (array_strs es)" for a
    using assms(2) assms(6) that by (auto simp: domIff)
  have disj: "set (array_strs es) \<inter> set (array_strs fs) = {}" if "ar q = Some fs" for q fs
    using old [OF that] new by blast
  show ?thesis
    unfolding arrays_ok_def
  proof (intro conjI allI impI)
    fix q fs assume "(ar(p \<mapsto> es)) q = Some fs"
    then consider "fs = es" | "ar q = Some fs" unfolding map_upd_Some_unfold by blast
    then have "distinct (array_strs fs) \<and> set (array_strs fs) \<subseteq> dom cs'"
    proof cases
      case 1
      with assms(4,5) show ?thesis by simp
    next
      case 2
      have "distinct (array_strs fs)" using assms(1) 2 by (simp add: arrays_ok_def)
      with old [OF 2] assms(3) show ?thesis by (simp add: subset_trans)
    qed
    then show "distinct (array_strs fs)" "set (array_strs fs) \<subseteq> dom cs'" by blast+
  next
    fix q q' fs gs
    assume "(ar(p \<mapsto> es)) q = Some fs" "(ar(p \<mapsto> es)) q' = Some gs" "q \<noteq> q'"
    then consider "fs = es" "ar q' = Some gs" | "gs = es" "ar q = Some fs" | "ar q = Some fs" "ar q' = Some gs"
      unfolding map_upd_Some_unfold by blast
    then show "set (array_strs fs) \<inter> set (array_strs gs) = {}"
    proof cases
      case 3
      with assms(1) \<open>q \<noteq> q'\<close> show ?thesis by (simp add: arrays_ok_def)
    qed (use disj in blast)+
  qed
qed

lemma array_strs_at: "array_strs (entries_at a sts) = [a ..< a + 3 * length sts]"
  by (simp add: array_strs_def entries_at_strs)

lemma mem_ok_above: "mem_ok m \<Longrightarrow> fresh m \<le> q \<Longrightarrow> cstrs m q = None"
  using live_below_fresh [of "fresh m" "cstrs m" q] by (simp add: mem_ok_def)

lemma entries_built_heap_ok:
  assumes "heap_ok m"
  shows "heap_ok (entries_built sts out_count m)"
proof -
  let ?a = "fresh m"
  have m: "mem_ok m" "arrays_ok (cstrs m) (entry_arrays m)" using assms by (auto simp: heap_ok_def)
  have sub: "dom (cstrs m) \<subseteq> dom (strs_at ?a sts (cstrs m))"
  proof
    fix q assume "q \<in> dom (cstrs m)"
    moreover from this have "q < ?a" using mem_ok_above [OF m(1), of q] by (auto simp: not_le [symmetric])
    ultimately show "q \<in> dom (strs_at ?a sts (cstrs m))" by (simp add: strs_at_outside domIff)
  qed
  have "arrays_ok (strs_at ?a sts (cstrs m)) ((entry_arrays m)(?a + 3 * length sts \<mapsto> entries_at ?a sts))"
    using strs_at_dom [of ?a _ sts "cstrs m"]
    by (intro arrays_ok_new [OF m(2) mem_ok_above [OF m(1)] sub]) (auto simp: array_strs_at)
  then show ?thesis using entries_built_ok [OF m(1)] by (simp add: heap_ok_def entries_built_def Let_def)
qed

text \<open>A single entry is a batch of one.\<close>

lemma stat_arrays:
  assumes "heap_ok m" and "hdfs_bridge_stat N client path st m = Some (r, m')"
  shows "arrays_ok (cstrs m') (entry_arrays m')"
proof -
  obtain c p where "clients m client = Some c" "read_cstr path m = Some p"
    using assms(2) by (auto simp: hdfs_bridge_stat_def split: bind_splits)
  note args = this
  show ?thesis
  proof (cases "get_file_info N c p (cluster m)")
    case (Inl e)
    with args assms show ?thesis
      by (auto simp: hdfs_bridge_stat_def heap_ok_def intro: grows_arrays_ok dest: fail_with_grows)
  next
    case (Inr info)
    have "m' = snd (alloc_entries [entry_at (fresh m) info] (snd (status_to_entry info m)))"
      using Inr args assms(2) by (simp add: hdfs_bridge_stat_def status_to_entry_eq)
    then have "cstrs m' = cstrs (entries_built [info] 0 m)" "entry_arrays m' = entry_arrays (entries_built [info] 0 m)"
      by (simp_all add: status_to_entry_eq alloc_entries_def entries_built_def Let_def)
    with entries_built_heap_ok [OF assms(1), of "[info]" 0] show ?thesis by (simp add: heap_ok_def)
  qed
qed

lemma next_defined:
  assumes "heap_ok m" and "streams m stream \<noteq> None" and "counts m out_count \<noteq> None" and "status_live st m"
  shows "\<exists>r m'. hdfs_bridge_list_stream_next N stream max_entries ready out_count st m = Some (r, m') \<and> heap_ok m'"
proof -
  obtain s where s: "streams m stream = Some s" using assms(2) by auto
  obtain r s' where r: "next_batch (at_least_1 max_entries) ready s = (r, s')" by force
  let ?m1 = "m\<lparr>counts := (counts m)(out_count \<mapsto> 0), streams := (streams m)(stream \<mapsto> s')\<rparr>"
  have m1: "heap_ok ?m1"
    using assms(1) stream_next_mem_ok [OF _ s] by (simp add: heap_ok_def)
  show ?thesis
  proof (cases r)
    case (Inl e)
    have "mem_ok ?m1" "status_live st ?m1" using m1 assms(4) by (simp_all add: heap_ok_def status_live_def)
    from fail_with_told [OF this, of N "lit ''list '' @ quoted (stream_path s') @ lit '' failed''" e null]
    obtain m' where "fail_with N st (lit ''list '' @ quoted (stream_path s') @ lit '' failed'') e null ?m1 = Some (null, m')"
      "mem_ok m'" by blast
    with Inl m1 fail_with_grows [OF this(1)] grows_arrays_ok [of ?m1 m'] show ?thesis
      by (simp add: stream_next_eq [OF s assms(3) r] heap_ok_def Let_def del: lit_Cons)
  next
    case (Inr b)
    have "heap_ok (?m1\<lparr>counts := (counts ?m1)(out_count \<mapsto> 0)\<rparr>)"
      using m1 mem_ok_updates(4) [where m = ?m1] by (simp add: heap_ok_def del: mem_ok_updates)
    with Inr entries_built_heap_ok [OF m1, of b out_count] show ?thesis
      by (auto simp: stream_next_eq [OF s assms(3) r] statuses_to_entries_eq Let_def)
  qed
qed

section \<open>Giving back\<close>

text \<open>Fewer handles, or fewer strings and arrays, keep the memory well-formed.\<close>

lemma mem_ok_fewer:
  assumes "mem_ok m"
  shows "mem_ok (m\<lparr>clients := (clients m)(p := None)\<rparr>)" "mem_ok (m\<lparr>readers := (readers m)(p := None)\<rparr>)"
    "mem_ok (m\<lparr>streams := (streams m)(p := None)\<rparr>)" "mem_ok (m\<lparr>cstrs := cstrs m |` A\<rparr>)"
    "mem_ok (m\<lparr>cstrs := cstrs m |` A, entry_arrays := (entry_arrays m)(p := None)\<rparr>)"
  using assms by (auto simp: mem_ok_def live_below_def restrict_map_def)

lemma arrays_ok_without:
  assumes "arrays_ok cs ar" and "ar p = Some es"
  shows "arrays_ok (cs |` (- set (array_strs es))) (ar(p := None))"
proof -
  have own: "set (array_strs fs) \<subseteq> dom cs" "distinct (array_strs fs)" if "ar q = Some fs" for q fs
    using assms(1) that by (simp_all add: arrays_ok_def)
  have disj: "set (array_strs fs) \<inter> set (array_strs gs) = {}" if "ar q = Some fs" "ar r = Some gs" "q \<noteq> r" for q r fs gs
    using assms(1) that by (simp add: arrays_ok_def)
  show ?thesis
    unfolding arrays_ok_def
  proof (intro conjI allI impI)
    fix q fs assume "(ar(p := None)) q = Some fs"
    then have q: "ar q = Some fs" "q \<noteq> p" by (simp_all split: if_splits)
    show "distinct (array_strs fs)" by (rule own(2) [OF q(1)])
    show "set (array_strs fs) \<subseteq> dom (cs |` (- set (array_strs es)))"
      using own(1) [OF q(1)] disj [OF q(1) assms(2) q(2)] by auto
  next
    fix q r fs gs
    assume "(ar(p := None)) q = Some fs" "(ar(p := None)) r = Some gs" "q \<noteq> r"
    then show "set (array_strs fs) \<inter> set (array_strs gs) = {}"
      using disj by (simp split: if_splits)
  qed
qed

lemma free_entries_defined:
  assumes "heap_ok m" and "entries = null \<or> sint n \<le> 0 \<or> (\<exists>es. entry_arrays m entries = Some es \<and> length es = nat (sint n))"
  shows "\<exists>m'. hdfs_bridge_free_dir_entries entries n m = Some m' \<and> heap_ok m'"
proof (cases "entries = null \<or> sint n \<le> 0")
  case True
  with assms(1) show ?thesis by (auto simp: hdfs_bridge_free_dir_entries_def)
next
  case False
  with assms(2) obtain es where es: "entry_arrays m entries = Some es" "length es = nat (sint n)" by blast
  have m: "mem_ok m" "arrays_ok (cstrs m) (entry_arrays m)" using assms(1) by (auto simp: heap_ok_def)
  have own: "distinct (array_strs es)" "set (array_strs es) \<subseteq> dom (cstrs m)"
    using m(2) es(1) by (simp_all add: arrays_ok_def)
  have "null \<notin> dom (cstrs m)" using m(1) by (auto simp: mem_ok_def live_below_def)
  then have "free_strs (array_strs es) m = Some (m\<lparr>cstrs := cstrs m |` (- set (array_strs es))\<rparr>)"
    using own by (intro free_strs_eq) auto
  then have "hdfs_bridge_free_dir_entries entries n m =
      Some (m\<lparr>cstrs := cstrs m |` (- set (array_strs es)), entry_arrays := (entry_arrays m)(entries := None)\<rparr>)"
    using False es by (simp add: hdfs_bridge_free_dir_entries_def array_strs_def)
  with mem_ok_fewer(5) [OF m(1)] arrays_ok_without [OF m(2) es(1)] show ?thesis by (simp add: heap_ok_def)
qed

text \<open>A string that belongs to no entry, such as the message of a failure.\<close>

definition loose :: "addr \<Rightarrow> ('w, 'c, 'r, 'o, 't) mem \<Rightarrow> bool" where
  "loose s m \<longleftrightarrow> cstrs m s \<noteq> None \<and> (\<forall>p es. entry_arrays m p = Some es \<longrightarrow> s \<notin> set (array_strs es))"

lemma free_string_defined:
  assumes "heap_ok m" and "s = null \<or> loose s m"
  shows "\<exists>m'. hdfs_bridge_free_string s m = Some m' \<and> heap_ok m'"
proof (cases "s = null")
  case True
  with assms(1) show ?thesis by (simp add: hdfs_bridge_free_string_def)
next
  case False
  then have s: "cstrs m s \<noteq> None" "\<And>p es. entry_arrays m p = Some es \<Longrightarrow> s \<notin> set (array_strs es)"
    using assms(2) by (auto simp: loose_def)
  have m: "mem_ok m" "arrays_ok (cstrs m) (entry_arrays m)" using assms(1) by (auto simp: heap_ok_def)
  have upd: "(cstrs m)(s := None) = cstrs m |` (- {s})" by (auto simp: restrict_map_def)
  have "arrays_ok (cstrs m |` (- {s})) (entry_arrays m)"
    unfolding arrays_ok_def
  proof (intro conjI allI impI)
    fix p es assume p: "entry_arrays m p = Some es"
    then show "distinct (array_strs es)" using m(2) by (simp add: arrays_ok_def)
    have "set (array_strs es) \<subseteq> dom (cstrs m)" using p m(2) by (simp add: arrays_ok_def)
    with s(2) [OF p] show "set (array_strs es) \<subseteq> dom (cstrs m |` (- {s}))" by auto
  next
    fix p q es fs assume "entry_arrays m p = Some es" "entry_arrays m q = Some fs" "p \<noteq> q"
    with m(2) show "set (array_strs es) \<inter> set (array_strs fs) = {}" by (simp add: arrays_ok_def)
  qed
  with mem_ok_fewer(4) [OF m(1), of "- {s}"] s(1) False show ?thesis
    by (auto simp: hdfs_bridge_free_string_def heap_ok_def upd)
qed

section \<open>Calls\<close>

datatype ffi_call =
    Connect addr addr addr addr
  | FreeClient addr
  | GetFileInfo addr addr addr addr
  | OpenReader addr addr addr
  | CloseReader addr
  | FileSize addr
  | ReadRange addr addr i64 u64 addr
  | CreateFile addr addr bool addr
  | WriteBytes addr addr i64 addr
  | CloseWriter addr addr
  | ListOpen addr addr bool i32 bool bool rstring "nat list"
  | GlobOpen addr addr i32 bool bool addr rstring "nat list"
  | ListNext addr i32 nat addr addr
  | ListFree addr
  | Stat addr addr addr
  | FreeEntries addr i32
  | FreeString addr
  | Mkdirs addr addr addr
  | Delete addr addr bool addr
  | Rename addr addr addr bool addr

fun run_call :: "('w, 'c, 'r, 'o, 't) hdfs_native \<Rightarrow> ffi_call \<Rightarrow> ('w, 'c, 'r, 'o, 't) mem \<Rightarrow> ('w, 'c, 'r, 'o, 't) mem option" where
  "run_call N (Connect url dir user st) m = map_option snd (hdfs_bridge_connect N url dir user st m)"
| "run_call N (FreeClient c) m = hdfs_bridge_free_client c m"
| "run_call N (GetFileInfo c p out st) m = map_option snd (hdfs_bridge_get_file_info N c p out st m)"
| "run_call N (OpenReader c p st) m = map_option snd (hdfs_bridge_open N c p st m)"
| "run_call N (CloseReader r) m = hdfs_bridge_close_reader r m"
| "run_call N (FileSize r) m = map_option (\<lambda>_. m) (hdfs_bridge_file_size N r m)"
| "run_call N (ReadRange r buf len off st) m = map_option snd (hdfs_bridge_read_range N r buf len off st m)"
| "run_call N (CreateFile c p ow st) m = map_option snd (hdfs_bridge_create N c p ow st m)"
| "run_call N (WriteBytes wr buf len st) m = map_option snd (hdfs_bridge_write N wr buf len st m)"
| "run_call N (CloseWriter wr st) m = map_option snd (hdfs_bridge_close_writer N wr st m)"
| "run_call N (ListOpen c p rec par skip hid died ks) m =
     map_option snd (hdfs_bridge_list_stream_open N c p rec par skip hid died ks m)"
| "run_call N (GlobOpen c p par skip hid st died ks) m =
     map_option snd (hdfs_bridge_glob_stream_open N c p par skip hid st died ks m)"
| "run_call N (ListNext s n ready out st) m = map_option snd (hdfs_bridge_list_stream_next N s n ready out st m)"
| "run_call N (ListFree s) m = hdfs_bridge_list_stream_free s m"
| "run_call N (Stat c p st) m = map_option snd (hdfs_bridge_stat N c p st m)"
| "run_call N (FreeEntries es n) m = hdfs_bridge_free_dir_entries es n m"
| "run_call N (FreeString s) m = hdfs_bridge_free_string s m"
| "run_call N (Mkdirs c p st) m = map_option snd (hdfs_bridge_mkdirs N c p st m)"
| "run_call N (Delete c p rec st) m = map_option snd (hdfs_bridge_delete N c p rec st m)"
| "run_call N (Rename c p q ow st) m = map_option snd (hdfs_bridge_rename N c p q ow st m)"

text \<open>What a disciplined caller observes before a call.\<close>

fun permitted :: "ffi_call \<Rightarrow> ('w, 'c, 'r, 'o, 't) mem \<Rightarrow> bool" where
  "permitted (Connect url dir user st) m \<longleftrightarrow> opt_live url m \<and> opt_live dir m \<and> opt_live user m \<and> status_live st m"
| "permitted (FreeClient c) m \<longleftrightarrow> c = null \<or> clients m c \<noteq> None"
| "permitted (GetFileInfo c p out st) m \<longleftrightarrow> client_args c p m \<and> infos m out \<noteq> None \<and> status_live st m"
| "permitted (OpenReader c p st) m \<longleftrightarrow> client_args c p m \<and> status_live st m"
| "permitted (CloseReader r) m \<longleftrightarrow> r = null \<or> readers m r \<noteq> None"
| "permitted (FileSize r) m \<longleftrightarrow> readers m r \<noteq> None"
| "permitted (ReadRange r buf len off st) m \<longleftrightarrow> buffer_args readers r buf len m \<and> status_live st m"
| "permitted (CreateFile c p ow st) m \<longleftrightarrow> client_args c p m \<and> status_live st m"
| "permitted (WriteBytes wr buf len st) m \<longleftrightarrow> buffer_args writers wr buf len m \<and> status_live st m"
| "permitted (CloseWriter wr st) m \<longleftrightarrow> (wr = null \<or> writers m wr \<noteq> None) \<and> status_live st m"
| "permitted (ListOpen c p rec par skip hid died ks) m \<longleftrightarrow> client_args c p m"
| "permitted (GlobOpen c p par skip hid st died ks) m \<longleftrightarrow> client_args c p m \<and> status_live st m"
| "permitted (ListNext s n ready out st) m \<longleftrightarrow> streams m s \<noteq> None \<and> counts m out \<noteq> None \<and> status_live st m"
| "permitted (ListFree s) m \<longleftrightarrow> s = null \<or> streams m s \<noteq> None"
| "permitted (Stat c p st) m \<longleftrightarrow> client_args c p m \<and> status_live st m"
| "permitted (FreeEntries es n) m \<longleftrightarrow>
     es = null \<or> sint n \<le> 0 \<or> (\<exists>xs. entry_arrays m es = Some xs \<and> length xs = nat (sint n))"
| "permitted (FreeString s) m \<longleftrightarrow> s = null \<or> loose s m"
| "permitted (Mkdirs c p st) m \<longleftrightarrow> client_args c p m \<and> status_live st m"
| "permitted (Delete c p rec st) m \<longleftrightarrow> client_args c p m \<and> status_live st m"
| "permitted (Rename c p q ow st) m \<longleftrightarrow> client_args c p m \<and> client_args c q m \<and> status_live st m"

text \<open>A call of the contract \<open>fallible\<close> that only adds strings keeps the heap well-formed.\<close>

context fallible
begin

lemma keeps_heap:
  assumes "heap_ok m" "status_live st m" "pre m"
    and "\<And>r m'. call m = Some (r, m') \<Longrightarrow> arrays_ok (cstrs m') (entry_arrays m')"
  shows "\<exists>m'. map_option snd (call m) = Some m' \<and> heap_ok m'"
proof -
  obtain r m' where "call m = Some (r, m')" "mem_ok m'"
    using defined [of m] assms(1-3) by (auto simp: heap_ok_def)
  with assms(4) show ?thesis by (auto simp: heap_ok_def)
qed

end

lemma heap_ok_fewer:
  assumes "heap_ok m"
  shows "heap_ok (m\<lparr>clients := (clients m)(p := None)\<rparr>)" "heap_ok (m\<lparr>readers := (readers m)(p := None)\<rparr>)"
    "heap_ok (m\<lparr>streams := (streams m)(p := None)\<rparr>)"
  using assms mem_ok_fewer(1-3) [of m p] by (simp_all add: heap_ok_def)

lemma list_open_defined:
  assumes "heap_ok m" and "client_args client path m"
  shows "\<exists>m'. map_option snd (hdfs_bridge_list_stream_open N client path rec par skip hid died ks m) = Some m' \<and> heap_ok m'"
proof -
  obtain r m' where call: "hdfs_bridge_list_stream_open N client path rec par skip hid died ks m = Some (r, m')"
    using assms(2) by (auto simp: hdfs_bridge_list_stream_open_def client_args_def alloc_stream_def)
  moreover have "mem_ok m'"
    using call assms by (auto simp: hdfs_bridge_list_stream_open_def heap_ok_def split: bind_splits
        dest: mem_ok_handles(4) simp del: mem_ok_handles) (metis mem_ok_handles(4) snd_conv)
  ultimately show ?thesis
    using assms(1) calls_grow'(4) [OF call] by (auto simp: heap_ok_def intro: grows_arrays_ok)
qed

lemmas keeps_heap = connect_call.keeps_heap get_file_info_call.keeps_heap open_call.keeps_heap read_call.keeps_heap
  create_call.keeps_heap write_call.keeps_heap close_call.keeps_heap glob_open_call.keeps_heap stat_call.keeps_heap
  mkdirs_call.keeps_heap delete_call.keeps_heap rename_call.keeps_heap

lemma run_call_safe:
  assumes "heap_ok m" and "permitted c m"
  shows "\<exists>m'. run_call N c m = Some m' \<and> heap_ok m'"
proof -
  have keep: "grows m m' \<Longrightarrow> arrays_ok (cstrs m') (entry_arrays m')" for m'
    using assms(1) grows_arrays_ok by (auto simp: heap_ok_def)
  show ?thesis
  proof (cases c)
    case (ListNext s n ready out st)
    with assms next_defined [of m s out st] show ?thesis by fastforce
  next
    case (FreeEntries es n)
    with assms free_entries_defined [OF assms(1), of es n] show ?thesis by simp
  next
    case (FreeString s)
    with assms free_string_defined [OF assms(1), of s] show ?thesis by simp
  qed (use assms heap_ok_fewer [OF assms(1)] in \<open>
      (simp only: run_call.simps permitted.simps, intro keeps_heap list_open_defined,
        auto intro: keep call_grows stat_arrays)[1]
      | (auto simp: hdfs_bridge_free_client_def hdfs_bridge_close_reader_def hdfs_bridge_file_size_def
          hdfs_bridge_list_stream_free_def)[1]\<close>)+
qed

section \<open>Sessions\<close>

text \<open>
  What happens to the memory over time: permitted calls, and the caller writing to its own cells
  between calls (resetting a status, preparing a buffer).
\<close>

inductive session_step :: "('w, 'c, 'r, 'o, 't) hdfs_native \<Rightarrow> ('w, 'c, 'r, 'o, 't) mem \<Rightarrow> ('w, 'c, 'r, 'o, 't) mem \<Rightarrow> bool"
  for N :: "('w, 'c, 'r, 'o, 't) hdfs_native" where
  call: "permitted c m \<Longrightarrow> run_call N c m = Some m' \<Longrightarrow> session_step N m m'"
| caller_writes: "session_step N m (m\<lparr>statuses := sts, infos := is, counts := cnts, bufs := bs\<rparr>)"
| cluster_changes: "session_step N m (m\<lparr>cluster := w\<rparr>)"

abbreviation session where
  "session N \<equiv> (session_step N)\<^sup>*\<^sup>*"

lemma session_step_heap_ok:
  assumes "session_step N m m'" and "heap_ok m"
  shows "heap_ok m'"
  using assms(1)
proof cases
  case (call c)
  with run_call_safe [OF assms(2), of c N] show ?thesis by auto
next
  case (caller_writes sts "is" cnts bs)
  with assms(2) show ?thesis by (simp add: heap_ok_def mem_ok_def)
next
  case (cluster_changes w)
  with assms(2) show ?thesis by (simp add: heap_ok_def)
qed

lemma session_heap_ok: "session N m m' \<Longrightarrow> heap_ok m \<Longrightarrow> heap_ok m'"
  by (induction rule: rtranclp_induct) (blast intro: session_step_heap_ok)+

end
