(* ===== verification/Hdfs_Url.thy ===== *)
theory Hdfs_Url
  imports Ffi_Session
begin

text \<open>
  URLs and entries on the C++ side (\<^verbatim>\<open>src/hdfs_filesystem.cpp\<close>, the anonymous namespace, and
  \<^verbatim>\<open>CanHandleFile\<close>). A C++ \<^verbatim>\<open>std::string\<close> is a list of bytes; a text of the source is ASCII, so its
  bytes are its characters. The results are the round trips between a URL and its authority and
  path, and between an entry of the bridge and the entry the extension hands out.
\<close>

type_synonym cpp_string = "byte list"

section \<open>URLs\<close>

text \<open>\<^verbatim>\<open>s.find(c, i)\<close>, \<open>None\<close> for \<^verbatim>\<open>npos\<close>.\<close>

definition find_from :: "byte \<Rightarrow> cpp_string \<Rightarrow> nat \<Rightarrow> nat option" where
  "find_from c s i =
     (let k = i + length (takeWhile (\<lambda>x. x \<noteq> c) (drop i s)) in if k < length s then Some k else None)"

definition scheme :: cpp_string where
  "scheme = lit ''hdfs://''"

text \<open>The result is the pair of the two out-parameters, authority and path.\<close>

definition ParseHdfsPath :: "cpp_string \<Rightarrow> cpp_string \<times> cpp_string" where
  "ParseHdfsPath path =
     (if \<not> prefix scheme path then ([], path)
      else (let authority_start = length scheme
            in case find_from ch_slash path authority_start of
                 None \<Rightarrow> (path, lit ''/'')
               | Some slash_pos \<Rightarrow>
                   if slash_pos = authority_start then ([], drop slash_pos path)
                   else (take slash_pos path, drop slash_pos path)))"

definition MakeUrl :: "cpp_string \<Rightarrow> cpp_string \<Rightarrow> cpp_string" where
  "MakeUrl authority hdfs_path =
     (let pre = (if authority = [] then lit ''hdfs://'' else authority)
      in if hdfs_path = [] then pre @ lit ''/''
         else if hd hdfs_path \<noteq> ch_slash then pre @ lit ''/'' @ hdfs_path
         else pre @ hdfs_path)"

definition CanHandleFile :: "cpp_string \<Rightarrow> bool" where
  "CanHandleFile fpath = prefix (lit ''hdfs://'') fpath"

text \<open>What \<open>ParseHdfsPath\<close> gives as the authority of a URL with a host.\<close>

definition authority_ok :: "cpp_string \<Rightarrow> bool" where
  "authority_ok a \<longleftrightarrow> a = [] \<or> (\<exists>h. a = scheme @ h \<and> h \<noteq> [] \<and> ch_slash \<notin> set h)"

lemma length_scheme [simp]: "length scheme = 7"
  by (simp add: scheme_def)

lemma scheme_not_empty [simp]: "scheme \<noteq> []"
  by (simp add: scheme_def)

lemma find_from_append:
  assumes "c \<notin> set h"
  shows "find_from c (u @ h @ c # v) (length u) = Some (length u + length h)"
    and "find_from c (u @ h) (length u) = None"
proof -
  have 1: "takeWhile (\<lambda>x. x \<noteq> c) (h @ c # v) = h" and 2: "takeWhile (\<lambda>x. x \<noteq> c) h = h"
    using assms by (induction h) auto
  show "find_from c (u @ h @ c # v) (length u) = Some (length u + length h)"
    by (simp add: find_from_def Let_def 1)
  show "find_from c (u @ h) (length u) = None"
    by (simp add: find_from_def Let_def 2)
qed

lemma parse_host:
  assumes "h \<noteq> []" "ch_slash \<notin> set h"
  shows "ParseHdfsPath (scheme @ h @ ch_slash # p) = (scheme @ h, ch_slash # p)"
    and "ParseHdfsPath (scheme @ h) = (scheme @ h, [ch_slash])"
  using find_from_append [OF assms(2), of scheme] assms(1) by (simp_all add: ParseHdfsPath_def Let_def)

lemma parse_default: "ParseHdfsPath (scheme @ ch_slash # p) = ([], ch_slash # p)"
  using find_from_append(1) [of ch_slash "[]" scheme p] by (simp add: ParseHdfsPath_def Let_def)

lemma parse_bare: "\<not> prefix scheme path \<Longrightarrow> ParseHdfsPath path = ([], path)"
  by (simp add: ParseHdfsPath_def)

text \<open>A URL of the scheme has a host and a path, a host only, or a path only.\<close>

lemma url_cases:
  assumes "prefix scheme url" and "url \<noteq> scheme"
  obtains (full) h p where "url = scheme @ h @ ch_slash # p" "h \<noteq> []" "ch_slash \<notin> set h"
  | (host) h where "url = scheme @ h" "h \<noteq> []" "ch_slash \<notin> set h"
  | (local) p where "url = scheme @ ch_slash # p"
proof -
  obtain r where r: "url = scheme @ r" "r \<noteq> []" using assms by (auto simp: prefix_def)
  show thesis
  proof (cases "ch_slash \<in> set r")
    case False
    with r show thesis by (intro host)
  next
    case True
    then obtain h p where "r = h @ ch_slash # p" "ch_slash \<notin> set h" using split_list_first by metis
    with r show thesis using full local by (cases "h = []") auto
  qed
qed

lemma parse_authority_ok: "url \<noteq> scheme \<Longrightarrow> authority_ok (fst (ParseHdfsPath url))"
  by (cases "prefix scheme url")
    (auto elim!: url_cases simp: parse_host parse_default parse_bare authority_ok_def)

section \<open>Entries\<close>

record HdfsEntry =
  e_url :: cpp_string
  e_name :: cpp_string
  e_is_dir :: bool
  e_size :: i64
  e_owner :: cpp_string
  e_group :: cpp_string
  e_permission :: u16
  e_replication :: i32
  e_block_size :: i64
  e_mtime :: u64
  e_atime :: u64

text \<open>\<^verbatim>\<open>p ? string(p) : string()\<close> for a string of the bridge.\<close>

definition string_of :: "addr \<Rightarrow> ('w, 'c, 'r, 'o, 't) mem \<Rightarrow> cpp_string option" where
  "string_of p m = (if p = null then Some [] else cstrs m p)"

text \<open>\<^verbatim>\<open>full.substr(full.find_last_of('/') + 1)\<close>, or all of it: the part after the last slash.\<close>

definition MakeHdfsEntry :: "cpp_string \<Rightarrow> DirEntry \<Rightarrow> ('w, 'c, 'r, 'o, 't) mem \<Rightarrow> HdfsEntry option" where
  "MakeHdfsEntry authority entry m =
     do {
       full \<leftarrow> string_of (de_path entry) m;
       let name = after_last ch_slash full;
       own \<leftarrow> string_of (de_owner entry) m;
       grp \<leftarrow> string_of (de_group entry) m;
       Some \<lparr>e_url = MakeUrl authority full, e_name = name, e_is_dir = de_is_dir entry, e_size = de_length entry,
         e_owner = own, e_group = grp, e_permission = de_permission entry, e_replication = de_replication entry,
         e_block_size = de_block_size entry, e_mtime = de_mtime entry, e_atime = de_atime entry\<rparr>
     }"

text \<open>The loop over the array of a batch.\<close>

fun MakeHdfsEntries :: "cpp_string \<Rightarrow> DirEntry list \<Rightarrow> ('w, 'c, 'r, 'o, 't) mem \<Rightarrow> HdfsEntry list option" where
  "MakeHdfsEntries authority [] m = Some []"
| "MakeHdfsEntries authority (e # es) m =
     do { x \<leftarrow> MakeHdfsEntry authority e m; xs \<leftarrow> MakeHdfsEntries authority es m; Some (x # xs) }"

text \<open>What an entry of the client library becomes on the C++ side.\<close>

definition entry_of :: "cpp_string \<Rightarrow> FileStatus \<Rightarrow> HdfsEntry" where
  "entry_of authority st =
     \<lparr>e_url = MakeUrl authority (c_bytes (fs_path st)), e_name = after_last ch_slash (c_bytes (fs_path st)),
      e_is_dir = fs_isdir st, e_size = fs_length st, e_owner = c_bytes (fs_owner st), e_group = c_bytes (fs_group st),
      e_permission = fs_permission st,
      e_replication = (if fs_isdir st then - 1 else case fs_replication st of Some r \<Rightarrow> r | None \<Rightarrow> - 1),
      e_block_size = (if fs_isdir st then - 1 else case fs_blocksize st of Some b \<Rightarrow> b | None \<Rightarrow> - 1),
      e_mtime = fs_modification_time st, e_atime = fs_access_time st\<rparr>"

lemma make_entry_at:
  assumes "0 < a" "cstrs m a = Some (c_bytes (fs_path st))" "cstrs m (a + 1) = Some (c_bytes (fs_owner st))"
    "cstrs m (a + 2) = Some (c_bytes (fs_group st))"
  shows "MakeHdfsEntry authority (entry_at a st) m = Some (entry_of authority st)"
  using assms by (simp add: MakeHdfsEntry_def entry_at_def string_of_def entry_of_def Let_def)

lemma make_entries_at:
  assumes "0 < a" and "\<And>i. i < length sts \<Longrightarrow>
      cstrs m (a + 3 * i) = Some (c_bytes (fs_path (sts ! i))) \<and>
      cstrs m (a + 3 * i + 1) = Some (c_bytes (fs_owner (sts ! i))) \<and>
      cstrs m (a + 3 * i + 2) = Some (c_bytes (fs_group (sts ! i)))"
  shows "MakeHdfsEntries authority (entries_at a sts) m = Some (map (entry_of authority) sts)"
  using assms
proof (induction sts arbitrary: a)
  case (Cons st sts)
  have "MakeHdfsEntry authority (entry_at a st) m = Some (entry_of authority st)"
    using Cons.prems(1) Cons.prems(2) [of 0] by (intro make_entry_at) simp_all
  moreover have "MakeHdfsEntries authority (entries_at (a + 3) sts) m = Some (map (entry_of authority) sts)"
    using Cons.prems(1) Cons.prems(2) [of "Suc i" for i] by (intro Cons.IH) (simp_all add: algebra_simps)
  ultimately show ?case by simp
qed simp

lemma make_entries_built:
  assumes "mem_ok m"
  shows "MakeHdfsEntries authority (entries_at (fresh m) sts) (entries_built sts out_count m) =
    Some (map (entry_of authority) sts)"
proof (rule make_entries_at)
  show "0 < fresh m" using assms by (simp add: mem_ok_def)
  fix i
  assume "i < length sts"
  from strs_at_nth [OF this, of "fresh m" "cstrs m"]
  show "cstrs (entries_built sts out_count m) (fresh m + 3 * i) = Some (c_bytes (fs_path (sts ! i))) \<and>
      cstrs (entries_built sts out_count m) (fresh m + 3 * i + 1) = Some (c_bytes (fs_owner (sts ! i))) \<and>
      cstrs (entries_built sts out_count m) (fresh m + 3 * i + 2) = Some (c_bytes (fs_group (sts ! i)))"
    by (simp add: entries_built_def Let_def)
qed

lemma parse_make:
  assumes "authority_ok a"
  shows "ParseHdfsPath (MakeUrl a (ch_slash # q)) = (a, ch_slash # q)"
proof (cases "a = []")
  case True
  then show ?thesis using parse_default [of q] by (simp add: MakeUrl_def scheme_def del: lit_Cons)
next
  case False
  with assms obtain h where "a = scheme @ h" "h \<noteq> []" "ch_slash \<notin> set h" by (auto simp: authority_ok_def)
  then show ?thesis using parse_host(1) [of h q] by (simp add: MakeUrl_def)
qed

lemma make_parse:
  assumes "prefix scheme url"
  shows "MakeUrl (fst (ParseHdfsPath url)) (snd (ParseHdfsPath url)) =
    (if ch_slash \<in> set (drop (length scheme) url) then url else url @ [ch_slash])"
proof (cases "url = scheme")
  case True
  then show ?thesis using find_from_append(2) [of ch_slash "[]" scheme]
    by (simp add: ParseHdfsPath_def MakeUrl_def Let_def)
next
  case False
  from url_cases [OF assms this] show ?thesis
    by cases (simp_all add: parse_host parse_default MakeUrl_def scheme_def [symmetric] del: lit_Cons)
qed

text \<open>
  C31. URLs go round. An entry found below any URL but the bare \<^verbatim>\<open>hdfs://\<close> is handed out under a URL that
  \<^verbatim>\<open>ParseHdfsPath\<close> splits into the authority it was found on and its path, so that opening it goes to
  the same connection; and splitting a URL of the scheme and building it again gives the URL back,
  with a slash added where it had no path.
\<close>

theorem url_round_trip:
  assumes "url \<noteq> scheme" and "c_bytes (fs_path st) = ch_slash # q"
  shows "ParseHdfsPath (e_url (entry_of (fst (ParseHdfsPath url)) st)) = (fst (ParseHdfsPath url), c_bytes (fs_path st)) \<and>
    (CanHandleFile url \<longrightarrow> MakeUrl (fst (ParseHdfsPath url)) (snd (ParseHdfsPath url)) =
       (if ch_slash \<in> set (drop (length scheme) url) then url else url @ [ch_slash]))"
  using parse_make [OF parse_authority_ok [OF assms(1)], of q] make_parse [of url] assms(2)
  by (simp add: entry_of_def CanHandleFile_def scheme_def [symmetric] del: lit_Cons)

theorem url_round_trip_witness:
  "ParseHdfsPath (e_url (entry_of (fst (ParseHdfsPath (lit ''hdfs://nn/d''))) (demo_entry ''/d/x'' False))) =
      (fst (ParseHdfsPath (lit ''hdfs://nn/d'')), lit ''/d/x'')"
proof -
  have "lit ''hdfs://nn/d'' \<noteq> scheme" by (simp add: scheme_def)
  moreover have "c_bytes (fs_path (demo_entry ''/d/x'' False)) = ch_slash # lit ''d/x''"
    by (simp add: demo_entry_def) code_simp
  ultimately show ?thesis
    using url_round_trip [of "lit ''hdfs://nn/d''" "demo_entry ''/d/x'' False" "lit ''d/x''"] by simp
qed

end
