(* ===== verification/Hdfs_Connection.thy ===== *)
theory Hdfs_Connection
  imports Hdfs_Url "HOL-Library.Multiset"
begin

text \<open>
  Connections on the C++ side (\<^verbatim>\<open>src/hdfs_filesystem.cpp\<close>: \<^verbatim>\<open>BridgeStatus\<close>, \<^verbatim>\<open>HdfsConnection\<close>,
  \<^verbatim>\<open>GetConnection\<close>): the cells a call needs, the lazily established client of an authority, and
  the shared pointers that keep clients alive.

  The state of the filesystem is the memory of the boundary with the clients the connections hold
  and, for every client, the number of shared pointers to it; the client is freed with the last
  of them. \<open>fs_ok H\<close> says that these counts are exact, where \<open>H\<close> are the pointers held outside
  the connections (by open files, by streams, by calls under way). \<open>view\<close> forgets pointers and
  counts; on views the operations are functions of the client library alone.
\<close>

section \<open>State\<close>

datatype exn = IOException cpp_string | NotImplementedException cpp_string

record ('w, 'c, 'r, 'o, 't) hdfs_fs =
  heap :: "('w, 'c, 'r, 'o, 't) mem"
  connections :: "cpp_string \<rightharpoonup> addr"
  refs :: "addr \<Rightarrow> nat"

section \<open>Cells\<close>

text \<open>\<^verbatim>\<open>s.c_str()\<close>, as the callee reads it: up to the first NUL.\<close>

definition c_str :: "cpp_string \<Rightarrow> byte list" where
  "c_str s = takeWhile (\<lambda>b. b \<noteq> 0) s"

definition new_arg :: "cpp_string \<Rightarrow> ('w, 'c, 'r, 'o, 't) mem \<Rightarrow> addr \<times> ('w, 'c, 'r, 'o, 't) mem" where
  "new_arg s m = (fresh m, m\<lparr>fresh := fresh m + 1, args := (args m)(fresh m \<mapsto> c_str s)\<rparr>)"

definition drop_arg :: "addr \<Rightarrow> ('w, 'c, 'r, 'o, 't) mem \<Rightarrow> ('w, 'c, 'r, 'o, 't) mem" where
  "drop_arg p m = m\<lparr>args := (args m)(p := None)\<rparr>"

text \<open>\<^verbatim>\<open>BridgeStatus\<close>: construction, \<^verbatim>\<open>Reset\<close>, destruction, \<^verbatim>\<open>Message\<close>.\<close>

abbreviation status_clear :: Status where
  "status_clear \<equiv> \<lparr>code = HDFS_OK, msg = null\<rparr>"

definition new_status :: "('w, 'c, 'r, 'o, 't) mem \<Rightarrow> addr \<times> ('w, 'c, 'r, 'o, 't) mem" where
  "new_status m = (fresh m, m\<lparr>fresh := fresh m + 1, statuses := (statuses m)(fresh m \<mapsto> status_clear)\<rparr>)"

definition reset_status :: "addr \<Rightarrow> ('w, 'c, 'r, 'o, 't) mem \<Rightarrow> ('w, 'c, 'r, 'o, 't) mem option" where
  "reset_status st m =
     do {
       t \<leftarrow> statuses m st;
       m \<leftarrow> (if msg t \<noteq> null then hdfs_bridge_free_string (msg t) m else Some m);
       Some (m\<lparr>statuses := (statuses m)(st \<mapsto> status_clear)\<rparr>)
     }"

definition drop_status :: "addr \<Rightarrow> ('w, 'c, 'r, 'o, 't) mem \<Rightarrow> ('w, 'c, 'r, 'o, 't) mem option" where
  "drop_status st m = do { m \<leftarrow> reset_status st m; Some (m\<lparr>statuses := (statuses m)(st := None)\<rparr>) }"

definition status_message :: "addr \<Rightarrow> ('w, 'c, 'r, 'o, 't) mem \<Rightarrow> cpp_string option" where
  "status_message st m =
     do { t \<leftarrow> statuses m st; if msg t = null then Some (lit ''unknown error'') else cstrs m (msg t) }"

section \<open>Shared pointers to clients\<close>

text \<open>A copy of the pointer, and the end of one: the last one frees the client.\<close>

definition retain :: "addr \<Rightarrow> ('w, 'c, 'r, 'o, 't) hdfs_fs \<Rightarrow> ('w, 'c, 'r, 'o, 't) hdfs_fs" where
  "retain p s = (if p = null then s else s\<lparr>refs := (refs s)(p := refs s p + 1)\<rparr>)"

definition release :: "addr \<Rightarrow> ('w, 'c, 'r, 'o, 't) hdfs_fs \<Rightarrow> ('w, 'c, 'r, 'o, 't) hdfs_fs option" where
  "release p s =
     (if p = null then Some s
      else if refs s p = 0 then None
      else (let s = s\<lparr>refs := (refs s)(p := refs s p - 1)\<rparr>
            in if refs s p = 0 then do { m \<leftarrow> hdfs_bridge_free_client p (heap s); Some (s\<lparr>heap := m\<rparr>) }
               else Some s))"

section \<open>Connections\<close>

definition Connect ::
  "('w, 'c, 'r, 'o, 't) hdfs_native \<Rightarrow> cpp_string \<Rightarrow> ('w, 'c, 'r, 'o, 't) hdfs_fs
     \<Rightarrow> ((exn + addr) \<times> ('w, 'c, 'r, 'o, 't) hdfs_fs) option" where
  "Connect N authority s =
     do {
       let (url, m) = (if authority = [] then (null, heap s) else new_arg authority (heap s));
       let (st, m) = new_status m;
       (raw, m) \<leftarrow> hdfs_bridge_connect N url null null st m;
       text \<leftarrow> status_message st m;
       m \<leftarrow> drop_status st m;
       let s = s\<lparr>heap := drop_arg url m\<rparr>;
       if raw = null then
         Some (Inl (IOException (lit ''Failed to connect to HDFS ('' @
           (if authority = [] then lit ''default fs'' else c_str authority) @ lit ''): '' @ text)), s)
       else Some (Inr raw, s\<lparr>refs := (refs s)(raw := 1)\<rparr>)
     }"

text \<open>\<open>None\<close> also for a connection that does not exist, as every other dangling reference.\<close>

definition Get ::
  "('w, 'c, 'r, 'o, 't) hdfs_native \<Rightarrow> cpp_string \<Rightarrow> ('w, 'c, 'r, 'o, 't) hdfs_fs
     \<Rightarrow> ((exn + addr) \<times> ('w, 'c, 'r, 'o, 't) hdfs_fs) option" where
  "Get N authority s =
     do {
       client \<leftarrow> connections s authority;
       (r, s) \<leftarrow> (if client = null then do {
            (r, s) \<leftarrow> Connect N authority s;
            Some (case r of
                Inl e \<Rightarrow> (Inl e, s)
              | Inr raw \<Rightarrow> (Inr raw, s\<lparr>connections := (connections s)(authority \<mapsto> raw)\<rparr>))
          } else Some (Inr client, s));
       Some (r, case r of Inl _ \<Rightarrow> s | Inr p \<Rightarrow> retain p s)
     }"

definition Invalidate ::
  "cpp_string \<Rightarrow> addr \<Rightarrow> ('w, 'c, 'r, 'o, 't) hdfs_fs \<Rightarrow> ('w, 'c, 'r, 'o, 't) hdfs_fs option" where
  "Invalidate authority stale s =
     do {
       client \<leftarrow> connections s authority;
       if client = stale then release client (s\<lparr>connections := (connections s)(authority \<mapsto> null)\<rparr>) else Some s
     }"

definition GetConnection :: "cpp_string \<Rightarrow> ('w, 'c, 'r, 'o, 't) hdfs_fs \<Rightarrow> ('w, 'c, 'r, 'o, 't) hdfs_fs" where
  "GetConnection authority s =
     (case connections s authority of
        Some _ \<Rightarrow> s
      | None \<Rightarrow> s\<lparr>connections := (connections s)(authority \<mapsto> null)\<rparr>)"

section \<open>Reports seen from C++\<close>

text \<open>The memory after a failure has been reported to a live status.\<close>

definition reported :: "addr \<Rightarrow> i32 \<Rightarrow> byte list \<Rightarrow> ('w, 'c, 'r, 'o, 't) mem \<Rightarrow> ('w, 'c, 'r, 'o, 't) mem" where
  "reported st c t m = m\<lparr>fresh := fresh m + 1, cstrs := (cstrs m)(fresh m \<mapsto> t),
     statuses := (statuses m)(st \<mapsto> \<lparr>code = c, msg = fresh m\<rparr>)\<rparr>"

definition error_text :: "('w, 'c, 'r, 'o, 't) hdfs_native \<Rightarrow> rstring \<Rightarrow> hdfs_error \<Rightarrow> byte list" where
  "error_text N prefix_text e = encode (cleaned (prefix_text @ lit '': '' @ n_show N e))"

lemma set_status_reported:
  "st \<noteq> null \<Longrightarrow> statuses m st \<noteq> None \<Longrightarrow> set_status st c t m = Some (reported st c (encode (cleaned t)) m)"
  by (simp add: set_status_eq reported_def)

lemma fail_with_reported:
  "st \<noteq> null \<Longrightarrow> statuses m st \<noteq> None \<Longrightarrow>
   fail_with N st t e r m = Some (r, reported st (classify e) (error_text N t e) m)"
  by (simp add: fail_with_def set_error_def set_status_reported error_text_def del: lit_Cons)

lemma reported_simps [simp]:
  "statuses (reported st c t m) = (statuses m)(st \<mapsto> \<lparr>code = c, msg = fresh m\<rparr>)"
  "cstrs (reported st c t m) = (cstrs m)(fresh m \<mapsto> t)"
  "fresh (reported st c t m) = fresh m + 1" "clients (reported st c t m) = clients m"
  "entry_arrays (reported st c t m) = entry_arrays m" "readers (reported st c t m) = readers m"
  "writers (reported st c t m) = writers m" "streams (reported st c t m) = streams m"
  "args (reported st c t m) = args m" "infos (reported st c t m) = infos m" "counts (reported st c t m) = counts m"
  "bufs (reported st c t m) = bufs m" "cluster (reported st c t m) = cluster m"
  "runtime_slot (reported st c t m) = runtime_slot m"
  by (simp_all add: reported_def)

text \<open>Reading the message of a report, and giving it back: only the counter of addresses has moved.\<close>

lemma reported_message: "0 < fresh m \<Longrightarrow> status_message st (reported st c t m) = Some t"
  by (simp add: status_message_def)

lemma reported_reset:
  assumes "mem_ok m"
  shows "reset_status st (reported st c t m) =
    Some (m\<lparr>fresh := fresh m + 1, statuses := (statuses m)(st \<mapsto> status_clear)\<rparr>)"
proof -
  have "0 < fresh m" "cstrs m (fresh m) = None"
    using assms mem_ok_above [OF assms, of "fresh m"] by (simp_all add: mem_ok_def)
  then show ?thesis
    by (simp add: reset_status_def hdfs_bridge_free_string_def) (simp add: reported_def fun_upd_idem)
qed

lemma clear_reset: "statuses m st = Some status_clear \<Longrightarrow> reset_status st m = Some m"
  by (simp add: reset_status_def fun_upd_idem)

section \<open>Well-formed filesystems\<close>

text \<open>Cells of the caller are live below the counter of addresses, too.\<close>

definition cells_ok :: "('w, 'c, 'r, 'o, 't) mem \<Rightarrow> bool" where
  "cells_ok m \<longleftrightarrow> live_below (fresh m) (statuses m) \<and> live_below (fresh m) (infos m) \<and> live_below (fresh m) (counts m)"

definition current :: "('w, 'c, 'r, 'o, 't) hdfs_fs \<Rightarrow> addr \<Rightarrow> bool" where
  "current s p \<longleftrightarrow> p \<noteq> null \<and> (\<exists>a. connections s a = Some p)"

definition fs_ok :: "addr multiset \<Rightarrow> ('w, 'c, 'r, 'o, 't) hdfs_fs \<Rightarrow> bool" where
  "fs_ok H s \<longleftrightarrow> heap_ok (heap s) \<and> cells_ok (heap s) \<and>
     (\<forall>p. clients (heap s) p \<noteq> None \<longleftrightarrow> 0 < refs s p) \<and>
     (\<forall>p. refs s p = count H p + (if current s p then 1 else 0)) \<and>
     (\<forall>a b p. connections s a = Some p \<longrightarrow> connections s b = Some p \<longrightarrow> p \<noteq> null \<longrightarrow> a = b)"

text \<open>
  The state has two parts. The \<open>view\<close> is what the operations on the cluster work with: the client of
  every authority, the cached runtime and the cluster. The cells are the rest of the memory, without
  the counter of addresses; the fields that are left out have a fixed value.
\<close>

record ('w, 'c, 't) fs_view =
  v_clients :: "cpp_string \<rightharpoonup> ('c, 't) BridgeClient"
  v_slot :: "'t option"
  v_world :: 'w

definition view :: "('w, 'c, 'r, 'o, 't) hdfs_fs \<Rightarrow> ('w, 'c, 't) fs_view" where
  "view s = \<lparr>v_clients = (\<lambda>a. case connections s a of None \<Rightarrow> None | Some p \<Rightarrow> clients (heap s) p),
     v_slot = runtime_slot (heap s), v_world = cluster (heap s)\<rparr>"

definition cells_of :: "('w, 'c, 'r, 'o, 't) mem \<Rightarrow> (unit, 'c, 'r, 'o, 't) mem" where
  "cells_of m = \<lparr>fresh = 0, cstrs = cstrs m, entry_arrays = entry_arrays m, clients = Map.empty, readers = readers m,
     writers = writers m, streams = streams m, args = args m, statuses = statuses m, infos = infos m,
     counts = counts m, bufs = bufs m, cluster = (), runtime_slot = None\<rparr>"

abbreviation cells :: "('w, 'c, 'r, 'o, 't) hdfs_fs \<Rightarrow> (unit, 'c, 'r, 'o, 't) mem" where
  "cells s \<equiv> cells_of (heap s)"

lemma cells_of_sel [simp]:
  "cstrs (cells_of m) = cstrs m" "entry_arrays (cells_of m) = entry_arrays m" "readers (cells_of m) = readers m"
  "writers (cells_of m) = writers m" "streams (cells_of m) = streams m" "args (cells_of m) = args m"
  "statuses (cells_of m) = statuses m" "infos (cells_of m) = infos m" "counts (cells_of m) = counts m"
  "bufs (cells_of m) = bufs m"
  by (simp_all add: cells_of_def)

lemma cells_of_upd [simp]:
  "cells_of (m\<lparr>fresh := n\<rparr>) = cells_of m" "cells_of (m\<lparr>clients := cl\<rparr>) = cells_of m"
  "cells_of (m\<lparr>runtime_slot := sl\<rparr>) = cells_of m"
  "cells_of (m\<lparr>cstrs := cs\<rparr>) = (cells_of m)\<lparr>cstrs := cs\<rparr>"
  "cells_of (m\<lparr>entry_arrays := ar\<rparr>) = (cells_of m)\<lparr>entry_arrays := ar\<rparr>"
  "cells_of (m\<lparr>readers := rd\<rparr>) = (cells_of m)\<lparr>readers := rd\<rparr>"
  "cells_of (m\<lparr>writers := wr\<rparr>) = (cells_of m)\<lparr>writers := wr\<rparr>"
  "cells_of (m\<lparr>streams := ss\<rparr>) = (cells_of m)\<lparr>streams := ss\<rparr>"
  "cells_of (m\<lparr>args := ag\<rparr>) = (cells_of m)\<lparr>args := ag\<rparr>"
  "cells_of (m\<lparr>statuses := st\<rparr>) = (cells_of m)\<lparr>statuses := st\<rparr>"
  "cells_of (m\<lparr>infos := i\<rparr>) = (cells_of m)\<lparr>infos := i\<rparr>"
  "cells_of (m\<lparr>counts := c\<rparr>) = (cells_of m)\<lparr>counts := c\<rparr>"
  "cells_of (m\<lparr>bufs := b\<rparr>) = (cells_of m)\<lparr>bufs := b\<rparr>"
  "cells_of (m\<lparr>cluster := w\<rparr>) = cells_of m"
  by (simp_all add: cells_of_def)

lemma view_sel [simp]:
  "v_world (view s) = cluster (heap s)" "v_slot (view s) = runtime_slot (heap s)"
  "v_clients (view s) a = (case connections s a of None \<Rightarrow> None | Some p \<Rightarrow> clients (heap s) p)"
  by (simp_all add: view_def)

lemma view_heap: "clients m = clients (heap s) \<Longrightarrow>
    view (s\<lparr>heap := m\<rparr>) = (view s)\<lparr>v_slot := runtime_slot m, v_world := cluster m\<rparr>"
  by (simp add: view_def cong: option.case_cong)

lemma fs_okD:
  assumes "fs_ok H s"
  shows "heap_ok (heap s)" "mem_ok (heap s)" "cells_ok (heap s)" "0 < fresh (heap s)"
    "clients (heap s) p \<noteq> None \<longleftrightarrow> 0 < refs s p" "refs s p = count H p + (if current s p then 1 else 0)"
    "connections s a = Some p \<Longrightarrow> connections s b = Some p \<Longrightarrow> p \<noteq> null \<Longrightarrow> a = b"
proof -
  note ok = assms [unfolded fs_ok_def]
  show heap: "heap_ok (heap s)" and "cells_ok (heap s)" using ok by blast+
  then show mem: "mem_ok (heap s)" by (simp add: heap_ok_def)
  show "0 < fresh (heap s)" using mem by (simp add: mem_ok_def)
  show "clients (heap s) p \<noteq> None \<longleftrightarrow> 0 < refs s p" "refs s p = count H p + (if current s p then 1 else 0)"
    using ok by blast+
  show "connections s a = Some p \<Longrightarrow> connections s b = Some p \<Longrightarrow> p \<noteq> null \<Longrightarrow> a = b" using ok by blast
qed

lemma fs_okI:
  assumes "heap_ok (heap s)" "cells_ok (heap s)" "\<And>p. clients (heap s) p \<noteq> None \<longleftrightarrow> 0 < refs s p"
    and "\<And>p. refs s p = count H p + (if current s p then 1 else 0)"
    and "\<And>a b p. connections s a = Some p \<Longrightarrow> connections s b = Some p \<Longrightarrow> p \<noteq> null \<Longrightarrow> a = b"
  shows "fs_ok H s"
  using assms unfolding fs_ok_def by blast

lemma fs_ok_null:
  assumes "fs_ok H s"
  shows "clients (heap s) null = None"
proof -
  have "live_below (fresh (heap s)) (clients (heap s))" using fs_okD(2) [OF assms] by (simp add: mem_ok_def)
  then show ?thesis unfolding live_below_def by (metis less_irrefl)
qed

lemma fs_ok_held:
  assumes "fs_ok (add_mset p H) s"
  shows "p \<noteq> null" and "clients (heap s) p \<noteq> None" and "0 < refs s p"
proof -
  show "0 < refs s p" using fs_okD(6) [OF assms, of p] by simp
  then show "clients (heap s) p \<noteq> None" using fs_okD(5) [OF assms] by blast
  then show "p \<noteq> null" using fs_ok_null [OF assms] by metis
qed

lemma fs_ok_current:
  assumes "fs_ok H s" and "connections s a = Some p" and "p \<noteq> null"
  shows "clients (heap s) p \<noteq> None"
  using fs_okD(5,6) [OF assms(1), of p] assms(2,3) by (auto simp: current_def)

section \<open>Copies and ends of pointers\<close>

lemma current_updates [simp]:
  "current (s\<lparr>refs := r\<rparr>) = current s" "current (s\<lparr>heap := m\<rparr>) = current s"
  "current (s\<lparr>heap := m, refs := r\<rparr>) = current s"
  by (simp_all add: current_def fun_eq_iff)

lemma view_refs [simp]: "view (s\<lparr>refs := r\<rparr>) = view s"
  by (simp add: view_def cong: option.case_cong)

lemma retain_simps [simp]:
  "heap (retain p s) = heap s" "connections (retain p s) = connections s" "view (retain p s) = view s"
  "current (retain p s) = current s"
  by (simp_all add: retain_def)

lemma retain_ok:
  assumes "fs_ok H s" and "clients (heap s) p \<noteq> None"
  shows "fs_ok (add_mset p H) (retain p s)"
proof (rule fs_okI)
  have p: "p \<noteq> null" using assms fs_ok_null by metis
  show "clients (heap (retain p s)) q \<noteq> None \<longleftrightarrow> 0 < refs (retain p s) q" for q
    using fs_okD(5) [OF assms(1), of q] assms(2) p by (cases "q = p") (simp_all add: retain_def)
  show "refs (retain p s) q = count (add_mset p H) q + (if current (retain p s) q then 1 else 0)" for q
    using fs_okD(6) [OF assms(1), of q] p by (cases "q = p") (simp_all add: retain_def)
qed (use fs_okD [OF assms(1)] in simp_all)

lemma mem_ok_without_client: "mem_ok m \<Longrightarrow> mem_ok (m\<lparr>clients := (clients m)(p := None)\<rparr>)"
  by (rule mem_ok_fewer)

text \<open>The end of a pointer held outside the connections.\<close>

lemma release_ok:
  assumes "fs_ok (add_mset p H) s"
  shows "\<exists>s'. release p s = Some s' \<and> fs_ok H s' \<and> connections s' = connections s \<and> view s' = view s \<and>
    cells s' = cells s"
proof (cases "refs s p = 1")
  case False
  let ?s = "s\<lparr>refs := (refs s)(p := refs s p - 1)\<rparr>"
  have "release p s = Some ?s" using fs_ok_held(1,3) [OF assms] False by (simp add: release_def)
  moreover have "fs_ok H ?s"
  proof (rule fs_okI)
    show "clients (heap ?s) q \<noteq> None \<longleftrightarrow> 0 < refs ?s q" for q
      using fs_okD(5) [OF assms, of q] fs_ok_held(3) [OF assms] False by simp
    show "refs ?s q = count H q + (if current ?s q then 1 else 0)" for q
      using fs_okD(6) [OF assms, of q] by (cases "q = p") simp_all
  qed (use fs_okD [OF assms] in simp_all)
  ultimately show ?thesis by simp
next
  case True
  then have zero: "count H p = 0" "\<not> current s p" using fs_okD(6) [OF assms, of p] by (auto split: if_splits)
  let ?m = "(heap s)\<lparr>clients := (clients (heap s))(p := None)\<rparr>"
  let ?s = "s\<lparr>heap := ?m, refs := (refs s)(p := 0)\<rparr>"
  obtain c where c: "clients (heap s) p = Some c" using fs_ok_held(2) [OF assms] by auto
  have "release p s = Some ?s"
    using fs_ok_held(1) [OF assms] True c by (simp add: release_def hdfs_bridge_free_client_def)
  moreover have "fs_ok H ?s"
  proof (rule fs_okI)
    show "heap_ok (heap ?s)" using fs_okD(1) [OF assms] mem_ok_fewer(1) [of "heap s" p] by (simp add: heap_ok_def)
    show "cells_ok (heap ?s)" using fs_okD(3) [OF assms] by (simp add: cells_ok_def)
    show "clients (heap ?s) q \<noteq> None \<longleftrightarrow> 0 < refs ?s q" for q
      using fs_okD(5) [OF assms, of q] by (cases "q = p") simp_all
    show "refs ?s q = count H q + (if current ?s q then 1 else 0)" for q
      using fs_okD(6) [OF assms, of q] zero by (cases "q = p") simp_all
    show "connections ?s a = Some q \<Longrightarrow> connections ?s b = Some q \<Longrightarrow> q \<noteq> null \<Longrightarrow> a = b" for a b q
      using fs_okD(7) [OF assms] by simp
  qed
  moreover have "view ?s = view s"
    using zero(2) fs_ok_held(1) [OF assms] by (auto simp: view_def current_def cells_of_def fun_eq_iff split: option.split)
  ultimately show ?thesis by auto
qed

section \<open>Getting a client\<close>

text \<open>The text a connection passes on; an empty one stands for the default file system.\<close>

definition url_text :: "cpp_string \<Rightarrow> rstring option" where
  "url_text authority = (let u = decode_lossy (c_str authority) in if u = [] then None else Some u)"

definition connect_error :: "('w, 'c, 'r, 'o, 't) hdfs_native \<Rightarrow> cpp_string \<Rightarrow> hdfs_error \<Rightarrow> exn" where
  "connect_error N authority e = IOException (lit ''Failed to connect to HDFS ('' @
     (if authority = [] then lit ''default fs'' else c_str authority) @ lit ''): '' @
     error_text N (lit ''failed to connect to HDFS'') e)"

lemma opt_str_null [simp]: "opt_str null m = Some None"
  by (simp add: opt_str_def)

lemma bridge_connect_eq:
  assumes "opt_str url m = Some u" "st \<noteq> null" "statuses m st \<noteq> None"
    and "connect N u None None (cluster m) (runtime_slot m) = (r, slot)"
  shows "hdfs_bridge_connect N url null null st m = Some (case r of
      Inr c \<Rightarrow> alloc_client c (m\<lparr>runtime_slot := slot\<rparr>)
    | Inl e \<Rightarrow> (null, reported st (classify e) (error_text N (lit ''failed to connect to HDFS'') e) (m\<lparr>runtime_slot := slot\<rparr>)))"
  using assms by (cases r) (simp_all add: hdfs_bridge_connect_def fail_with_reported del: lit_Cons)

text \<open>The cells of a connection attempt.\<close>

lemma mem_ok_cells:
  assumes "mem_ok m"
  shows "args m null = None" "args m (fresh m + k) = None" "cstrs m (fresh m + k) = None" "0 < fresh m"
    "clients m (fresh m + k) = None"
proof -
  have below: "live_below (fresh m) (args m)" "live_below (fresh m) (cstrs m)" "live_below (fresh m) (clients m)"
    and pos: "0 < fresh m"
    using assms by (simp_all add: mem_ok_def)
  show "0 < fresh m" by (rule pos)
  show "args m null = None" using below(1) by (fastforce simp: live_below_def)
  show "args m (fresh m + k) = None" "cstrs m (fresh m + k) = None" "clients m (fresh m + k) = None"
    using below by (simp_all add: live_below_fresh)
qed

lemma cells_ok_fresh: "cells_ok m \<Longrightarrow> statuses m (fresh m + k) = None"
  using live_below_fresh [of "fresh m" "statuses m" "fresh m + k"] by (simp add: cells_ok_def)

text \<open>Connecting in a memory that has the argument and a clear status, and giving the status back.\<close>

lemma connect_cell:
  assumes "mem_ok m" and "opt_str url m = Some u" and "st \<noteq> null" and "statuses m st = Some status_clear"
    and "connect N u None None (cluster m) (runtime_slot m) = (r, slot)"
  shows "\<exists>raw m1 text. hdfs_bridge_connect N url null null st m = Some (raw, m1) \<and> status_message st m1 = Some text \<and>
    (case r of
       Inr c \<Rightarrow> raw = fresh m \<and> drop_status st m1 = Some (m\<lparr>fresh := fresh m + 1, runtime_slot := slot,
           clients := (clients m)(fresh m \<mapsto> c), statuses := (statuses m)(st := None)\<rparr>)
     | Inl e \<Rightarrow> raw = null \<and> text = error_text N (lit ''failed to connect to HDFS'') e \<and>
         drop_status st m1 = Some (m\<lparr>fresh := fresh m + 1, runtime_slot := slot, statuses := (statuses m)(st := None)\<rparr>))"
proof (cases r)
  case (Inr c)
  then show ?thesis
    using bridge_connect_eq [OF assms(2,3) _ assms(5)] assms(4)
    by (auto simp: alloc_client_def drop_status_def reset_status_def status_message_def)
next
  case (Inl e)
  let ?m = "m\<lparr>runtime_slot := slot\<rparr>"
  have ok: "mem_ok ?m" "0 < fresh ?m" using assms(1) mem_ok_cells(4) by auto
  show ?thesis
    using bridge_connect_eq [OF assms(2,3) _ assms(5)] assms(4) Inl reported_reset [OF ok(1)] reported_message [OF ok(2)]
    by (auto simp: drop_status_def simp del: lit_Cons)
qed

text \<open>The argument of the call: nothing, or a cell at the next address.\<close>

lemma opt_str_cells: "cstrs m' = cstrs m \<Longrightarrow> args m' = args m \<Longrightarrow> opt_str p m' = opt_str p m"
  by (cases "p = null"; cases "cstrs m p") (simp_all add: opt_str_def read_cstr_def)

lemma url_arg:
  assumes "mem_ok m" and "cells_ok m"
    and "(if authority = [] then (null, m) else new_arg authority m) = (url, m1)"
  obtains f ag where "m1 = m\<lparr>fresh := f, args := ag\<rparr>" "ag(url := None) = args m" "fresh m \<le> f"
    "mem_ok m1" "cells_ok m1" "opt_str url m1 = Some (url_text authority)"
proof (cases "authority = []")
  case True
  with assms have m1: "url = null" "m1 = m" by simp_all
  have "url_text [] = None" by (simp add: url_text_def c_str_def decode_empty)
  moreover have "(args m)(url := None) = args m"
    using m1 mem_ok_cells(1) [OF assms(1)] by (simp add: fun_upd_idem)
  ultimately show thesis using that [of "args m" "fresh m"] True m1 assms(1,2) by simp
next
  case False
  note cells = mem_ok_cells [OF assms(1)]
  from False assms(3) have "new_arg authority m = (url, m1)" by simp
  then have m1: "url = fresh m" "m1 = m\<lparr>fresh := Suc (fresh m), args := (args m)(fresh m \<mapsto> c_str authority)\<rparr>"
    unfolding new_arg_def Suc_eq_plus1 by (metis Pair_inject)+
  have "mem_ok m1"
    using assms(1) cells(3) [of 0] unfolding m1(2) mem_ok_def
    by (simp add: live_below_upd live_below_mono [of "fresh m" _ "Suc (fresh m)"])
  moreover have "cells_ok m1"
    using assms(2) unfolding m1(2) cells_ok_def by (simp add: live_below_mono [of "fresh m" _ "Suc (fresh m)"])
  moreover have "opt_str url m1 = Some (url_text authority)"
    using cells(3) [of 0] cells(4) by (simp add: opt_str_def m1 read_cstr_def url_text_def Let_def)
  moreover have "((args m)(fresh m \<mapsto> c_str authority))(url := None) = args m"
    using cells(2) [of 0] m1(1) by (simp add: fun_upd_idem)
  ultimately show thesis using that [of "(args m)(fresh m \<mapsto> c_str authority)" "Suc (fresh m)"] m1(2) by simp
qed

lemma new_status_ok:
  assumes "mem_ok m" and "cells_ok m"
  shows "mem_ok (snd (new_status m))" "cells_ok (snd (new_status m))" "fst (new_status m) = fresh m"
    "snd (new_status m) = m\<lparr>fresh := Suc (fresh m), statuses := (statuses m)(fresh m \<mapsto> status_clear)\<rparr>"
  using assms by (simp_all add: new_status_def mem_ok_def cells_ok_def live_below_upd
      live_below_mono [of "fresh m" _ "Suc (fresh m)"])

lemma Connect_eq:
  assumes "mem_ok (heap s)" and "cells_ok (heap s)"
    and "connect N (url_text authority) None None (cluster (heap s)) (runtime_slot (heap s)) = (r, slot)"
  shows "\<exists>f raw. fresh (heap s) \<le> raw \<and> raw < f \<and> Connect N authority s = Some (case r of
      Inr c \<Rightarrow> (Inr raw, s\<lparr>heap := (heap s)\<lparr>fresh := f, runtime_slot := slot, clients := (clients (heap s))(raw \<mapsto> c)\<rparr>,
        refs := (refs s)(raw := 1)\<rparr>)
    | Inl e \<Rightarrow> (Inl (connect_error N authority e), s\<lparr>heap := (heap s)\<lparr>fresh := f, runtime_slot := slot\<rparr>\<rparr>))"
proof -
  define m where "m = heap s"
  obtain url m1 where arg: "(if authority = [] then (null, m) else new_arg authority m) = (url, m1)" by force
  have arg': "(if authority = [] then (null, heap s) else new_arg authority (heap s)) = (url, m1)"
    using arg by (simp only: m_def)
  have mem: "mem_ok m" "cells_ok m" using assms(1,2) by (simp_all add: m_def)
  from url_arg [OF mem arg] obtain f ag where m1: "m1 = m\<lparr>fresh := f, args := ag\<rparr>"
    and ag: "ag(url := None) = args m" and f: "fresh m \<le> f"
    and ok: "mem_ok m1" "cells_ok m1" "opt_str url m1 = Some (url_text authority)" .
  define m2 where "m2 = m\<lparr>fresh := Suc f, args := ag, statuses := (statuses m)(f \<mapsto> status_clear)\<rparr>"
  have new: "new_status m1 = (f, m2)" by (simp add: new_status_def m1 m2_def)
  have m2: "mem_ok m2" using new_status_ok(1) [OF ok(1,2)] new by simp
  have str: "opt_str url m2 = Some (url_text authority)"
    using ok(3) opt_str_cells [of m2 m1 url] by (simp add: m1 m2_def)
  have f0: "f \<noteq> null" using f mem_ok_cells(4) [OF mem(1)] by simp
  have clear: "statuses m2 f = Some status_clear" by (simp add: m2_def)
  have conn: "connect N (url_text authority) None None (cluster m2) (runtime_slot m2) = (r, slot)"
    using assms(3) by (simp add: m2_def m_def)
  have sts: "(statuses m2)(f := None) = statuses m"
    using cells_ok_fresh [OF mem(2), of "f - fresh m"] f by (simp add: m2_def fun_upd_idem)
  from connect_cell [OF m2 str f0 clear conn] obtain raw m3 tx where
    call: "hdfs_bridge_connect N url null null f m2 = Some (raw, m3)" "status_message f m3 = Some tx" and
    r: "case r of
       Inr c \<Rightarrow> raw = fresh m2 \<and> drop_status f m3 = Some (m2\<lparr>fresh := fresh m2 + 1, runtime_slot := slot,
           clients := (clients m2)(fresh m2 \<mapsto> c), statuses := statuses m\<rparr>)
     | Inl e \<Rightarrow> raw = null \<and> tx = error_text N (lit ''failed to connect to HDFS'') e \<and>
         drop_status f m3 = Some (m2\<lparr>fresh := fresh m2 + 1, runtime_slot := slot, statuses := statuses m\<rparr>)"
    unfolding sts by fastforce
  show ?thesis
  proof (cases r)
    case (Inl e)
    with r have raw: "raw = null" and tx: "tx = error_text N (lit ''failed to connect to HDFS'') e"
      and drop: "drop_status f m3 = Some (m2\<lparr>fresh := fresh m2 + 1, runtime_slot := slot, statuses := statuses m\<rparr>)"
      by simp_all
    have "drop_arg url (m2\<lparr>fresh := fresh m2 + 1, runtime_slot := slot, statuses := statuses m\<rparr>) =
        m\<lparr>fresh := f + 2, runtime_slot := slot\<rparr>"
      using ag by (simp add: drop_arg_def m2_def)
    then have "Connect N authority s = Some (Inl (connect_error N authority e), s\<lparr>heap := m\<lparr>fresh := f + 2, runtime_slot := slot\<rparr>\<rparr>)"
      by (simp add: Connect_def arg' new call drop raw tx connect_error_def del: lit_Cons split del: if_split)
    with Inl f show ?thesis
      by (intro exI [of _ "f + 2"] exI [of _ "f + 1"]) (simp add: m_def [symmetric])
  next
    case (Inr c)
    with r have raw: "raw = f + 1"
      and drop: "drop_status f m3 = Some (m2\<lparr>fresh := fresh m2 + 1, runtime_slot := slot,
           clients := (clients m2)(fresh m2 \<mapsto> c), statuses := statuses m\<rparr>)"
      by (simp_all add: m2_def)
    have "drop_arg url (m2\<lparr>fresh := fresh m2 + 1, runtime_slot := slot, clients := (clients m2)(fresh m2 \<mapsto> c), statuses := statuses m\<rparr>) =
        m\<lparr>fresh := f + 2, runtime_slot := slot, clients := (clients m)(f + 1 \<mapsto> c)\<rparr>"
      using ag by (simp add: drop_arg_def m2_def)
    then have "Connect N authority s = Some (Inr (f + 1),
        s\<lparr>heap := m\<lparr>fresh := f + 2, runtime_slot := slot, clients := (clients m)(f + 1 \<mapsto> c)\<rparr>, refs := (refs s)(f + 1 := 1)\<rparr>)"
      by (simp add: Connect_def arg' new call drop raw del: lit_Cons split del: if_split)
    with Inr f show ?thesis
      by (intro exI [of _ "f + 2"] exI [of _ "f + 1"]) (simp add: m_def [symmetric])
  qed
qed

text \<open>A new client is held by the pointer returned, and by no connection.\<close>

lemma connect_ok:
  assumes "fs_ok H s"
    and "connect N (url_text authority) None None (cluster (heap s)) (runtime_slot (heap s)) = (r, slot)"
  shows "\<exists>r' s'. Connect N authority s = Some (r', s') \<and> connections s' = connections s \<and>
    view s' = (view s)\<lparr>v_slot := slot\<rparr> \<and> cells s' = cells s \<and>
    (case r of
       Inl e \<Rightarrow> r' = Inl (connect_error N authority e) \<and> fs_ok H s'
     | Inr c \<Rightarrow> \<exists>p. r' = Inr p \<and> fs_ok (add_mset p H) s' \<and> \<not> current s p \<and> clients (heap s') p = Some c)"
proof -
  note ok = fs_okD [OF assms(1)]
  from Connect_eq [OF ok(2,3) assms(2)] obtain f raw where f: "fresh (heap s) \<le> raw" "raw < f" and
    eq: "Connect N authority s = Some (case r of
      Inr c \<Rightarrow> (Inr raw, s\<lparr>heap := (heap s)\<lparr>fresh := f, runtime_slot := slot, clients := (clients (heap s))(raw \<mapsto> c)\<rparr>,
        refs := (refs s)(raw := 1)\<rparr>)
    | Inl e \<Rightarrow> (Inl (connect_error N authority e), s\<lparr>heap := (heap s)\<lparr>fresh := f, runtime_slot := slot\<rparr>\<rparr>))" by blast
  have cells: "cells_ok ((heap s)\<lparr>fresh := f, runtime_slot := slot\<rparr>)"
    using ok(3) f by (simp add: cells_ok_def live_below_mono [of "fresh (heap s)" _ f])
  have heap: "heap_ok ((heap s)\<lparr>fresh := f, runtime_slot := slot\<rparr>)"
    using ok(1) f by (simp add: heap_ok_def mem_ok_def live_below_mono [of "fresh (heap s)" _ f])
  show ?thesis
  proof (cases r)
    case (Inl e)
    let ?s = "s\<lparr>heap := (heap s)\<lparr>fresh := f, runtime_slot := slot\<rparr>\<rparr>"
    have "fs_ok H ?s" using ok heap cells by (intro fs_okI) simp_all
    moreover have "view ?s = (view s)\<lparr>v_slot := slot\<rparr>" by (simp add: view_heap)
    ultimately show ?thesis using Inl eq by simp
  next
    case (Inr c)
    have new: "clients (heap s) raw = None" using mem_ok_cells(5) [OF ok(2), of "raw - fresh (heap s)"] f(1) by simp
    then have none: "refs s raw = 0" using ok(5) [of raw] by simp
    then have no: "count H raw = 0" "\<not> current s raw" using ok(6) [of raw] by (auto split: if_splits)
    let ?m = "(heap s)\<lparr>fresh := f, runtime_slot := slot, clients := (clients (heap s))(raw \<mapsto> c)\<rparr>"
    let ?s = "s\<lparr>heap := ?m, refs := (refs s)(raw := 1)\<rparr>"
    have "fs_ok (add_mset raw H) ?s"
    proof (rule fs_okI)
      have "live_below f ((clients (heap s))(raw \<mapsto> c))" using f ok(2) by (auto simp: mem_ok_def live_below_def)
      then show "heap_ok (heap ?s)" using heap by (simp add: heap_ok_def mem_ok_def)
      show "cells_ok (heap ?s)" using cells by (simp add: cells_ok_def)
      show "clients (heap ?s) q \<noteq> None \<longleftrightarrow> 0 < refs ?s q" for q using ok(5) [of q] by simp
      show "refs ?s q = count (add_mset raw H) q + (if current ?s q then 1 else 0)" for q
        using ok(6) [of q] no by simp
      show "connections ?s a = Some q \<Longrightarrow> connections ?s b = Some q \<Longrightarrow> q \<noteq> null \<Longrightarrow> a = b" for a b q
        using ok(7) by simp
    qed
    moreover have "raw \<noteq> null" using f ok(4) by linarith
    then have "connections s a \<noteq> Some raw" for a using no(2) by (auto simp: current_def)
    then have "view ?s = (view s)\<lparr>v_slot := slot\<rparr>" by (auto simp: view_def fun_eq_iff split: option.splits)
    ultimately show ?thesis using Inr eq no(2) by simp
  qed
qed

lemma current_upd:
  "current (s\<lparr>connections := (connections s)(a \<mapsto> p)\<rparr>) q \<longleftrightarrow> q \<noteq> null \<and> (q = p \<or> (\<exists>b. b \<noteq> a \<and> connections s b = Some q))"
  by (auto simp: current_def)

lemma view_connection:
  "view (s\<lparr>connections := (connections s)(a \<mapsto> p)\<rparr>) = (view s)\<lparr>v_clients := (v_clients (view s))(a := clients (heap s) p)\<rparr>"
  by (simp add: view_def fun_eq_iff cong: option.case_cong)

text \<open>A pointer moves into a connection that has none, and out of it.\<close>

lemma connection_set:
  assumes "fs_ok (add_mset p H) s" and "connections s a = Some null" and "\<not> current s p"
  shows "fs_ok H (s\<lparr>connections := (connections s)(a \<mapsto> p)\<rparr>)"
proof (rule fs_okI)
  let ?s = "s\<lparr>connections := (connections s)(a \<mapsto> p)\<rparr>"
  note ok = fs_okD [OF assms(1)]
  have p: "p \<noteq> null" by (rule fs_ok_held(1) [OF assms(1)])
  have other: "connections s b \<noteq> Some p" for b using assms(3) p by (auto simp: current_def)
  have "current ?s q \<longleftrightarrow> q = p \<or> current s q" for q
    using p assms(2) unfolding current_upd unfolding current_def by (metis option.inject)
  then show "refs ?s q = count H q + (if current ?s q then 1 else 0)" for q
    using ok(6) [of q] assms(3) by (cases "q = p") simp_all
  show "connections ?s b = Some q \<Longrightarrow> connections ?s c = Some q \<Longrightarrow> q \<noteq> null \<Longrightarrow> b = c" for b c q
    using ok(7) [of b q c] other by (auto split: if_splits)
qed (use fs_okD [OF assms(1)] in simp_all)

lemma connection_clear:
  assumes "fs_ok H s" and "connections s a = Some p" and "p \<noteq> null"
  shows "fs_ok (add_mset p H) (s\<lparr>connections := (connections s)(a \<mapsto> null)\<rparr>)"
proof (rule fs_okI)
  let ?s = "s\<lparr>connections := (connections s)(a \<mapsto> null)\<rparr>"
  note ok = fs_okD [OF assms(1)]
  have cur: "current s p" using assms(2,3) by (auto simp: current_def)
  have "current ?s q \<longleftrightarrow> q \<noteq> p \<and> current s q" for q
    using ok(7) [of a q] assms(2,3) unfolding current_upd unfolding current_def by (metis option.inject)
  then show "refs ?s q = count (add_mset p H) q + (if current ?s q then 1 else 0)" for q
    using ok(6) [of q] cur by (cases "q = p") simp_all
  show "connections ?s b = Some q \<Longrightarrow> connections ?s c = Some q \<Longrightarrow> q \<noteq> null \<Longrightarrow> b = c" for b c q
    using ok(7) [of b q c] by (auto split: if_splits)
qed (use fs_okD [OF assms(1)] in simp_all)

lemma get_connection_ok:
  assumes "fs_ok H s"
  shows "fs_ok H (GetConnection a s)" "view (GetConnection a s) = view s" "heap (GetConnection a s) = heap s"
    "connections (GetConnection a s) a \<noteq> None"
proof -
  have "fs_ok H (GetConnection a s) \<and> view (GetConnection a s) = view s \<and> heap (GetConnection a s) = heap s \<and>
      connections (GetConnection a s) a \<noteq> None"
  proof (cases "connections s a")
    case (Some p)
    then show ?thesis using assms by (simp add: GetConnection_def)
  next
    case None
    let ?s = "s\<lparr>connections := (connections s)(a \<mapsto> null)\<rparr>"
    have cur: "current ?s q = current s q" for q using None unfolding current_upd unfolding current_def by (metis option.distinct(1))
    have "fs_ok H ?s"
    proof (rule fs_okI)
      show "refs ?s q = count H q + (if current ?s q then 1 else 0)" for q using fs_okD(6) [OF assms, of q] cur by simp
      show "connections ?s b = Some q \<Longrightarrow> connections ?s c = Some q \<Longrightarrow> q \<noteq> null \<Longrightarrow> b = c" for b c q
        using fs_okD(7) [OF assms, of b q c] by (auto split: if_splits)
    qed (use fs_okD [OF assms] in simp_all)
    moreover have "view ?s = view s"
      using None fs_ok_null [OF assms] by (simp add: view_connection fun_upd_idem)
    ultimately show ?thesis using None by (simp add: GetConnection_def)
  qed
  then show "fs_ok H (GetConnection a s)" "view (GetConnection a s) = view s" "heap (GetConnection a s) = heap s"
    "connections (GetConnection a s) a \<noteq> None" by blast+
qed

text \<open>The client of an authority: the one there is, or a new one.\<close>

definition abs_get ::
  "('w, 'c, 'r, 'o, 't) hdfs_native \<Rightarrow> cpp_string \<Rightarrow> ('w, 'c, 't) fs_view
     \<Rightarrow> (exn + ('c, 't) BridgeClient) \<times> ('w, 'c, 't) fs_view" where
  "abs_get N a v =
     (case v_clients v a of
        Some c \<Rightarrow> (Inr c, v)
      | None \<Rightarrow>
          (case connect N (url_text a) None None (v_world v) (v_slot v) of
             (Inl e, slot) \<Rightarrow> (Inl (connect_error N a e), v\<lparr>v_slot := slot\<rparr>)
           | (Inr c, slot) \<Rightarrow> (Inr c, v\<lparr>v_slot := slot, v_clients := (v_clients v)(a \<mapsto> c)\<rparr>)))"

lemma get_ok:
  assumes "fs_ok H s" and "connections s a \<noteq> None" and "abs_get N a (view s) = (g, v)"
  shows "\<exists>r s'. Get N a s = Some (r, s') \<and> view s' = v \<and> cells s' = cells s \<and>
    (case g of
       Inl e \<Rightarrow> r = Inl e \<and> fs_ok H s'
     | Inr c \<Rightarrow> \<exists>p. r = Inr p \<and> fs_ok (add_mset p H) s' \<and> connections s' a = Some p \<and> clients (heap s') p = Some c)"
proof -
  obtain p where p: "connections s a = Some p" using assms(2) by auto
  show ?thesis
  proof (cases "p = null")
    case False
    obtain c where c: "clients (heap s) p = Some c" using fs_ok_current [OF assms(1) p False] by auto
    then have "g = Inr c" "v = view s" using assms(3) p by (simp_all add: abs_get_def)
    moreover have "Get N a s = Some (Inr p, retain p s)" using p False by (simp add: Get_def)
    ultimately show ?thesis using retain_ok [OF assms(1), of p] c p by simp
  next
    case True
    have none: "v_clients (view s) a = None" using p True fs_ok_null [OF assms(1)] by simp
    obtain q slot where q: "connect N (url_text a) None None (cluster (heap s)) (runtime_slot (heap s)) = (q, slot)" by force
    from connect_ok [OF assms(1) q] obtain r' s' where conn: "Connect N a s = Some (r', s')"
      "connections s' = connections s" "view s' = (view s)\<lparr>v_slot := slot\<rparr>" "cells s' = cells s" and
      r': "case q of Inl e \<Rightarrow> r' = Inl (connect_error N a e) \<and> fs_ok H s'
        | Inr c \<Rightarrow> \<exists>p. r' = Inr p \<and> fs_ok (add_mset p H) s' \<and> \<not> current s p \<and> clients (heap s') p = Some c" by blast
    show ?thesis
    proof (cases q)
      case (Inl e)
      with q none assms(3) have "g = Inl (connect_error N a e)" "v = (view s)\<lparr>v_slot := slot\<rparr>"
        by (simp_all add: abs_get_def)
      moreover have "Get N a s = Some (Inl (connect_error N a e), s')"
        using p True conn(1) r' Inl by (simp add: Get_def)
      ultimately show ?thesis using conn(3,4) r' Inl by simp
    next
      case (Inr c)
      with q none assms(3) have g: "g = Inr c" "v = (view s)\<lparr>v_slot := slot, v_clients := (v_clients (view s))(a \<mapsto> c)\<rparr>"
        by (simp_all add: abs_get_def)
      from r' Inr obtain n where n: "r' = Inr n" "fs_ok (add_mset n H) s'" "\<not> current s n" "clients (heap s') n = Some c"
        by auto
      let ?s = "s'\<lparr>connections := (connections s')(a \<mapsto> n)\<rparr>"
      have ok: "fs_ok H ?s"
        using n p True conn(2) by (intro connection_set) (simp_all add: current_def)
      moreover have "Get N a s = Some (Inr n, retain n ?s)"
        using p True conn(1) n(1) by (simp add: Get_def)
      moreover have "view ?s = v"
        using conn(3) n(4) by (simp add: view_connection g(2))
      ultimately show ?thesis using g(1) retain_ok [OF ok, of n] n(4) conn(4) by simp
    qed
  qed
qed

text \<open>Invalidating the current client forgets it; a client that is not current is left alone.\<close>

lemma invalidate_ok:
  assumes "fs_ok H s" and "connections s a = Some p" and "p \<noteq> null"
  shows "\<exists>s'. Invalidate a p s = Some s' \<and> fs_ok H s' \<and> view s' = (view s)\<lparr>v_clients := (v_clients (view s))(a := None)\<rparr> \<and>
    connections s' = (connections s)(a \<mapsto> null) \<and> cells s' = cells s"
proof -
  let ?s = "s\<lparr>connections := (connections s)(a \<mapsto> null)\<rparr>"
  from release_ok [OF connection_clear [OF assms]] obtain s' where
    "release p ?s = Some s'" "fs_ok H s'" "connections s' = connections ?s" "view s' = view ?s" "cells s' = cells ?s" by blast
  moreover have "view ?s = (view s)\<lparr>v_clients := (v_clients (view s))(a := None)\<rparr>"
    using fs_ok_null [OF assms(1)] by (simp add: view_connection)
  ultimately show ?thesis using assms(2) by (simp add: Invalidate_def)
qed

lemma invalidate_other:
  assumes "connections s a = Some q" and "q \<noteq> p"
  shows "Invalidate a p s = Some s"
  using assms by (simp add: Invalidate_def)

end
