(* ===== verification/Hdfs_Execute.thy ===== *)
theory Hdfs_Execute
  imports Hdfs_Connection
begin

text \<open>
  Calls on the C++ side (\<^verbatim>\<open>HdfsFileSystem::Execute\<close> of \<^verbatim>\<open>src/hdfs_filesystem.cpp\<close>) and the cells
  around them. \<open>Execute\<close> runs an operation on the client of an authority and, when the failure says
  that the connection is stale, once more on a new client. The result is its refinement: with the
  cells in place it is defined, it leaks no client, and on views it is \<open>abs_execute\<close>, at most
  two attempts of a function of the client library.
\<close>

section \<open>Local cells\<close>

text \<open>
  An object of the caller lives as long as the block it is declared in, also when the block ends
  with an exception: the argument of a call, the record a stat fills, the status.
\<close>

definition with_arg ::
  "cpp_string \<Rightarrow> (addr \<Rightarrow> ('w, 'c, 'r, 'o, 't) hdfs_fs \<Rightarrow> ('x \<times> ('w, 'c, 'r, 'o, 't) hdfs_fs) option)
     \<Rightarrow> ('w, 'c, 'r, 'o, 't) hdfs_fs \<Rightarrow> ('x \<times> ('w, 'c, 'r, 'o, 't) hdfs_fs) option" where
  "with_arg str body s =
     do {
       let (p, m) = new_arg str (heap s);
       (x, s) \<leftarrow> body p (s\<lparr>heap := m\<rparr>);
       Some (x, s\<lparr>heap := drop_arg p (heap s)\<rparr>)
     }"

definition with_status ::
  "(addr \<Rightarrow> ('w, 'c, 'r, 'o, 't) hdfs_fs \<Rightarrow> ('x \<times> ('w, 'c, 'r, 'o, 't) hdfs_fs) option)
     \<Rightarrow> ('w, 'c, 'r, 'o, 't) hdfs_fs \<Rightarrow> ('x \<times> ('w, 'c, 'r, 'o, 't) hdfs_fs) option" where
  "with_status body s =
     do {
       let (st, m) = new_status (heap s);
       (x, s) \<leftarrow> body st (s\<lparr>heap := m\<rparr>);
       m \<leftarrow> drop_status st (heap s);
       Some (x, s\<lparr>heap := m\<rparr>)
     }"

text \<open>\<^verbatim>\<open>hdfs_file_info_t info;\<close>: its fields are not initialised, any value will do.\<close>

abbreviation blank_info :: FileInfo where
  "blank_info \<equiv> \<lparr>fi_length = 0, fi_is_dir = False, fi_mtime = 0\<rparr>"

definition with_info ::
  "(addr \<Rightarrow> ('w, 'c, 'r, 'o, 't) hdfs_fs \<Rightarrow> ('x \<times> ('w, 'c, 'r, 'o, 't) hdfs_fs) option)
     \<Rightarrow> ('w, 'c, 'r, 'o, 't) hdfs_fs \<Rightarrow> ('x \<times> ('w, 'c, 'r, 'o, 't) hdfs_fs) option" where
  "with_info body s =
     (let p = fresh (heap s);
          m = (heap s)\<lparr>fresh := p + 1, infos := (infos (heap s))(p \<mapsto> blank_info)\<rparr>
      in do {
        (x, s) \<leftarrow> body p (s\<lparr>heap := m\<rparr>);
        Some (x, s\<lparr>heap := (heap s)\<lparr>infos := (infos (heap s))(p := None)\<rparr>\<rparr>)
      })"

definition with_count ::
  "(addr \<Rightarrow> ('w, 'c, 'r, 'o, 't) hdfs_fs \<Rightarrow> ('x \<times> ('w, 'c, 'r, 'o, 't) hdfs_fs) option)
     \<Rightarrow> ('w, 'c, 'r, 'o, 't) hdfs_fs \<Rightarrow> ('x \<times> ('w, 'c, 'r, 'o, 't) hdfs_fs) option" where
  "with_count body s =
     (let p = fresh (heap s);
          m = (heap s)\<lparr>fresh := p + 1, counts := (counts (heap s))(p \<mapsto> 0)\<rparr>
      in do {
        (x, s) \<leftarrow> body p (s\<lparr>heap := m\<rparr>);
        Some (x, s\<lparr>heap := (heap s)\<lparr>counts := (counts (heap s))(p := None)\<rparr>\<rparr>)
      })"

section \<open>The loop\<close>

text \<open>
  \<open>l\<close> are the variables the operation captures. An exception of \<open>Get\<close> leaves the loop with them.
  The pointer \<open>client\<close> of the loop body ends with the body, after \<open>Invalidate\<close>.
\<close>

function execute_from ::
  "('w, 'c, 'r, 'o, 't) hdfs_native \<Rightarrow> cpp_string \<Rightarrow> addr
     \<Rightarrow> (addr \<Rightarrow> addr \<Rightarrow> 'l \<Rightarrow> ('w, 'c, 'r, 'o, 't) hdfs_fs \<Rightarrow> ('l \<times> bool \<times> ('w, 'c, 'r, 'o, 't) hdfs_fs) option)
     \<Rightarrow> nat \<Rightarrow> 'l \<Rightarrow> ('w, 'c, 'r, 'o, 't) hdfs_fs \<Rightarrow> (exn option \<times> 'l \<times> ('w, 'c, 'r, 'o, 't) hdfs_fs) option" where
  "execute_from N authority st op attempt l s =
     do {
       m \<leftarrow> reset_status st (heap s);
       (got, s) \<leftarrow> Get N authority (s\<lparr>heap := m\<rparr>);
       case got of
         Inl e \<Rightarrow> Some (Some e, l, s)
       | Inr client \<Rightarrow> do {
           (l, good, s) \<leftarrow> op client st l s;
           if good then do { s \<leftarrow> release client s; Some (None, l, s) }
           else do {
             t \<leftarrow> statuses (heap s) st;
             if attempt = 0 \<and> code t = HDFS_ERR_CONNECTION then do {
               s \<leftarrow> Invalidate authority client s;
               s \<leftarrow> release client s;
               execute_from N authority st op (attempt + 1) l s
             }
             else do { s \<leftarrow> release client s; Some (None, l, s) }
           }
         }
     }"
  by pat_completeness auto
termination
  by (relation "measure (\<lambda>(N, a, st, op, attempt, l, s). 1 - attempt)") auto

declare execute_from.simps [simp del]

definition Execute ::
  "('w, 'c, 'r, 'o, 't) hdfs_native \<Rightarrow> cpp_string \<Rightarrow> addr
     \<Rightarrow> (addr \<Rightarrow> addr \<Rightarrow> 'l \<Rightarrow> ('w, 'c, 'r, 'o, 't) hdfs_fs \<Rightarrow> ('l \<times> bool \<times> ('w, 'c, 'r, 'o, 't) hdfs_fs) option)
     \<Rightarrow> 'l \<Rightarrow> ('w, 'c, 'r, 'o, 't) hdfs_fs \<Rightarrow> (exn option \<times> 'l \<times> ('w, 'c, 'r, 'o, 't) hdfs_fs) option" where
  "Execute N authority st op l s = execute_from N authority st op 0 l (GetConnection authority s)"

section \<open>The specification\<close>

text \<open>
  One attempt: the client of the authority, then a function of the client library, whose failure is
  a category and a message.
\<close>

type_synonym failure = "i32 \<times> byte list"

definition abs_attempt ::
  "('w, 'c, 'r, 'o, 't) hdfs_native \<Rightarrow> cpp_string \<Rightarrow> (('c, 't) BridgeClient \<Rightarrow> 'w \<Rightarrow> (failure + 'y) \<times> 'w)
     \<Rightarrow> ('w, 'c, 't) fs_view \<Rightarrow> (exn + failure + 'y) \<times> ('w, 'c, 't) fs_view" where
  "abs_attempt N a g v =
     (case abs_get N a v of
        (Inl e, v) \<Rightarrow> (Inl e, v)
      | (Inr c, v) \<Rightarrow> (case g c (v_world v) of (r, w) \<Rightarrow> (Inr r, v\<lparr>v_world := w\<rparr>)))"

definition abs_execute ::
  "('w, 'c, 'r, 'o, 't) hdfs_native \<Rightarrow> cpp_string \<Rightarrow> (('c, 't) BridgeClient \<Rightarrow> 'w \<Rightarrow> (failure + 'y) \<times> 'w)
     \<Rightarrow> ('w, 'c, 't) fs_view \<Rightarrow> (exn + failure + 'y) \<times> ('w, 'c, 't) fs_view" where
  "abs_execute N a g v =
     (case abs_attempt N a g v of
        (Inr (Inl (k, t)), v) \<Rightarrow>
          if k = HDFS_ERR_CONNECTION then abs_attempt N a g (v\<lparr>v_clients := (v_clients v)(a := None)\<rparr>)
          else (Inr (Inl (k, t)), v)
      | r \<Rightarrow> r)"

text \<open>A failure of the client library, as the status reports it.\<close>

definition reply :: "('w, 'c, 'r, 'o, 't) hdfs_native \<Rightarrow> rstring \<Rightarrow> (hdfs_error + 'y) \<Rightarrow> failure + 'y" where
  "reply N context r = (case r of Inl e \<Rightarrow> Inl (classify e, error_text N context e) | Inr y \<Rightarrow> Inr y)"

section \<open>Failures in the cells\<close>

definition told :: "addr \<Rightarrow> i32 \<Rightarrow> byte list \<Rightarrow> (unit, 'c, 'r, 'o, 't) mem \<Rightarrow> (unit, 'c, 'r, 'o, 't) mem \<Rightarrow> bool" where
  "told st k t c c' \<longleftrightarrow> (\<exists>p. p \<noteq> null \<and> cstrs c p = None \<and>
     c' = c\<lparr>cstrs := (cstrs c)(p \<mapsto> t), statuses := (statuses c)(st \<mapsto> \<lparr>code = k, msg = p\<rparr>)\<rparr>)"

lemma fs_ok_heap:
  assumes "fs_ok H s" and "heap_ok m" and "cells_ok m" and "clients m = clients (heap s)"
  shows "fs_ok H (s\<lparr>heap := m\<rparr>)"
  using fs_okD(5-7) [OF assms(1)] assms(2-4) by (intro fs_okI) simp_all

lemma live_below_known: "live_below n f \<Longrightarrow> f p \<noteq> None \<Longrightarrow> live_below n (f(p \<mapsto> x))"
  by (auto simp: live_below_def)

lemma live_below_less: "live_below n f \<Longrightarrow> live_below n (f(p := None))"
  by (auto simp: live_below_def)

lemma fs_ok_arrays: "fs_ok H s \<Longrightarrow> arrays_ok (cstrs (cells s)) (entry_arrays (cells s))"
  using fs_okD(1) by (fastforce simp: heap_ok_def)

text \<open>Reporting a failure.\<close>

lemma report_ok:
  assumes "fs_ok H s" and "st \<noteq> null" and "statuses (heap s) st \<noteq> None"
    and m_def: "m = reported st k t ((heap s)\<lparr>cluster := w\<rparr>)"
  shows "fs_ok H (s\<lparr>heap := m\<rparr>)" "told st k t (cells s) (cells_of m)" "view (s\<lparr>heap := m\<rparr>) = (view s)\<lparr>v_world := w\<rparr>"
proof -
  note ok = fs_okD [OF assms(1)]
  have cells: "0 < fresh (heap s)" "cstrs (heap s) (fresh (heap s)) = None" "args (heap s) (fresh (heap s)) = None"
    using mem_ok_cells(2,3) [OF ok(2), of 0] ok(4) by simp_all
  have "mem_ok m"
    using ok(2) cells unfolding m_def reported_def mem_ok_def
    by (simp add: live_below_upd live_below_mono [of "fresh (heap s)" _ "Suc (fresh (heap s))"])
  moreover have "arrays_ok (cstrs m) (entry_arrays m)"
    using ok(1) unfolding m_def heap_ok_def by (auto intro: arrays_ok_mono)
  moreover have "cells_ok m"
    using ok(3) assms(3) unfolding m_def cells_ok_def
    by (simp add: live_below_known live_below_mono [of "fresh (heap s)" _ "Suc (fresh (heap s))"])
  ultimately show "fs_ok H (s\<lparr>heap := m\<rparr>)"
    by (intro fs_ok_heap [OF assms(1)]) (simp_all add: heap_ok_def m_def)
  show "told st k t (cells s) (cells_of m)"
    using cells unfolding told_def by (intro exI [of _ "fresh (heap s)"]) (simp add: m_def reported_def)
  show "view (s\<lparr>heap := m\<rparr>) = (view s)\<lparr>v_world := w\<rparr>"
    by (simp add: view_heap m_def)
qed

text \<open>Reading it.\<close>

lemma told_read:
  assumes "told st k t c (cells s)"
  shows "\<exists>p. statuses (heap s) st = Some \<lparr>code = k, msg = p\<rparr>" "status_message st (heap s) = Some t"
proof -
  from assms obtain p where p: "p \<noteq> null"
    "cells s = c\<lparr>cstrs := (cstrs c)(p \<mapsto> t), statuses := (statuses c)(st \<mapsto> \<lparr>code = k, msg = p\<rparr>)\<rparr>"
    by (auto simp: told_def)
  from p(2) have "statuses (cells s) st = Some \<lparr>code = k, msg = p\<rparr>" "cstrs (cells s) p = Some t" by simp_all
  with p(1) show "\<exists>p. statuses (heap s) st = Some \<lparr>code = k, msg = p\<rparr>" "status_message st (heap s) = Some t"
    by (simp_all add: status_message_def)
qed

text \<open>Giving it back: the cells are as they were.\<close>

lemma reset_told:
  assumes "fs_ok H s" and "told st k t c (cells s)" and "statuses c st = Some status_clear"
    and "arrays_ok (cstrs c) (entry_arrays c)"
  shows "\<exists>m. reset_status st (heap s) = Some m \<and> fs_ok H (s\<lparr>heap := m\<rparr>) \<and> cells_of m = c \<and>
    view (s\<lparr>heap := m\<rparr>) = view s"
proof -
  from assms(2) obtain p where p: "p \<noteq> null" "cstrs c p = None" and
    c: "cells s = c\<lparr>cstrs := (cstrs c)(p \<mapsto> t), statuses := (statuses c)(st \<mapsto> \<lparr>code = k, msg = p\<rparr>)\<rparr>"
    by (auto simp: told_def)
  have "cstrs (cells s) = (cstrs c)(p \<mapsto> t)" "statuses (cells s) = (statuses c)(st \<mapsto> \<lparr>code = k, msg = p\<rparr>)"
    "entry_arrays (cells s) = entry_arrays c"
    unfolding c by simp_all
  then have heap: "cstrs (heap s) = (cstrs c)(p \<mapsto> t)" "statuses (heap s) = (statuses c)(st \<mapsto> \<lparr>code = k, msg = p\<rparr>)"
    "entry_arrays (heap s) = entry_arrays c"
    by simp_all
  let ?m = "(heap s)\<lparr>cstrs := cstrs c, statuses := statuses c\<rparr>"
  have "reset_status st (heap s) = Some ?m"
    using p assms(3) by (simp add: reset_status_def hdfs_bridge_free_string_def heap fun_upd_idem)
  moreover have "fs_ok H (s\<lparr>heap := ?m\<rparr>)"
  proof (rule fs_ok_heap [OF assms(1)])
    have "cstrs c = cstrs (heap s) |` (- {p})" using p(2) by (auto simp: heap restrict_map_def fun_eq_iff)
    then have "mem_ok ((heap s)\<lparr>cstrs := cstrs c\<rparr>)" using mem_ok_fewer(4) [OF fs_okD(2) [OF assms(1)]] by simp
    then have "mem_ok ?m" by (simp add: mem_ok_def)
    then show "heap_ok ?m" using assms(4) by (simp add: heap_ok_def heap)
    have "live_below (fresh (heap s)) ((statuses (heap s))(st \<mapsto> status_clear))"
      using fs_okD(3) [OF assms(1)] by (intro live_below_known) (simp_all add: cells_ok_def heap)
    then have "live_below (fresh (heap s)) (statuses c)" using assms(3) by (simp add: heap fun_upd_idem)
    then show "cells_ok ?m" using fs_okD(3) [OF assms(1)] by (simp add: cells_ok_def)
  qed simp
  moreover have "cells_of ?m = c" using c by simp
  ultimately show ?thesis by (simp add: view_heap)
qed

section \<open>The refinement\<close>

lemma same_view_heap:
  assumes "view s' = view s"
  shows "cluster (heap s') = cluster (heap s)"
  using arg_cong [OF assms, of v_world] by simp

text \<open>
  The contract of an operation that \<open>Execute\<close> runs. It is given a live client and a clear status, and
  does what \<open>g\<close> says: on a failure it reports it and returns false, otherwise \<open>post\<close> holds of its
  variables and of the cells before and after; \<open>bad\<close> holds of its variables after a failure. \<open>held\<close> are the pointers its variables hold, \<open>needs\<close>
  is what it asks of the cells.
\<close>

locale bridge_op =
  fixes op :: "addr \<Rightarrow> addr \<Rightarrow> 'l \<Rightarrow> ('w, 'c, 'r, 'o, 't) hdfs_fs \<Rightarrow> ('l \<times> bool \<times> ('w, 'c, 'r, 'o, 't) hdfs_fs) option"
    and g :: "('c, 't) BridgeClient \<Rightarrow> 'w \<Rightarrow> (failure + 'y) \<times> 'w"
    and held :: "'l \<Rightarrow> addr multiset"
    and needs :: "(unit, 'c, 'r, 'o, 't) mem \<Rightarrow> bool"
    and post :: "'y \<Rightarrow> 'l \<Rightarrow> (unit, 'c, 'r, 'o, 't) mem \<Rightarrow> (unit, 'c, 'r, 'o, 't) mem \<Rightarrow> bool"
    and bad :: "'l \<Rightarrow> bool"
  assumes runs: "fs_ok (add_mset p (held l + H)) s \<Longrightarrow> clients (heap s) p = Some c \<Longrightarrow> needs (cells s) \<Longrightarrow>
      st \<noteq> null \<Longrightarrow> statuses (cells s) st = Some status_clear \<Longrightarrow> g c (cluster (heap s)) = (r, w) \<Longrightarrow>
      \<exists>l' good s'. op p st l s = Some (l', good, s') \<and> connections s' = connections s \<and>
        fs_ok (add_mset p (held l' + H)) s' \<and> view s' = (view s)\<lparr>v_world := w\<rparr> \<and>
        (case r of
           Inl (k, t) \<Rightarrow> \<not> good \<and> k \<noteq> HDFS_OK \<and> bad l' \<and> told st k t (cells s) (cells s')
         | Inr y \<Rightarrow> good \<and> post y l' (cells s) (cells s'))"
begin

text \<open>One round of the loop, up to the end of the operation.\<close>

lemma round:
  assumes "fs_ok (held l + H) s" and "connections s a \<noteq> None" and "needs (cells s)"
    and "st \<noteq> null" and "statuses (cells s) st = Some status_clear" and "abs_attempt N a g (view s) = (r, v)"
  shows "\<exists>got s1. Get N a s = Some (got, s1) \<and>
    (case r of
       Inl e \<Rightarrow> got = Inl e \<and> fs_ok (held l + H) s1 \<and> view s1 = v \<and> cells s1 = cells s
     | Inr q \<Rightarrow> \<exists>p l' good s2. got = Inr p \<and> p \<noteq> null \<and> op p st l s1 = Some (l', good, s2) \<and> connections s2 a = Some p \<and>
         fs_ok (add_mset p (held l' + H)) s2 \<and> view s2 = v \<and>
         (case q of
            Inl (k, t) \<Rightarrow> \<not> good \<and> k \<noteq> HDFS_OK \<and> bad l' \<and> told st k t (cells s) (cells s2)
          | Inr y \<Rightarrow> good \<and> post y l' (cells s) (cells s2)))"
proof -
  obtain got v1 where got: "abs_get N a (view s) = (got, v1)" by force
  from get_ok [OF assms(1,2) got] obtain r1 s1 where get: "Get N a s = Some (r1, s1)" "view s1 = v1" "cells s1 = cells s"
    and r1: "case got of Inl e \<Rightarrow> r1 = Inl e \<and> fs_ok (held l + H) s1
      | Inr c \<Rightarrow> \<exists>p. r1 = Inr p \<and> fs_ok (add_mset p (held l + H)) s1 \<and> connections s1 a = Some p \<and> clients (heap s1) p = Some c"
    by blast
  show ?thesis
  proof (cases got)
    case (Inl e)
    with got assms(6) have "r = Inl e" "v = v1" by (simp_all add: abs_attempt_def)
    with Inl r1 get show ?thesis by simp
  next
    case (Inr c)
    with r1 obtain p where p: "r1 = Inr p" "fs_ok (add_mset p (held l + H)) s1" "connections s1 a = Some p"
      "clients (heap s1) p = Some c" by auto
    obtain q w where q: "g c (cluster (heap s1)) = (q, w)" by force
    have world: "v_world v1 = cluster (heap s1)" using get(2) by auto
    with got Inr q assms(6) have r: "r = Inr q" "v = v1\<lparr>v_world := w\<rparr>" by (simp_all add: abs_attempt_def)
    from runs [OF p(2,4) _ assms(4) _ q] assms(3,5) get(3) obtain l' good s2 where
      "op p st l s1 = Some (l', good, s2)" "connections s2 = connections s1" "fs_ok (add_mset p (held l' + H)) s2"
      "view s2 = (view s1)\<lparr>v_world := w\<rparr>"
      "case q of Inl (k, t) \<Rightarrow> \<not> good \<and> k \<noteq> HDFS_OK \<and> bad l' \<and> told st k t (cells s) (cells s2)
        | Inr y \<Rightarrow> good \<and> post y l' (cells s) (cells s2)"
      unfolding get(3) by fastforce
    with r p get fs_ok_held(1) [OF p(2)] show ?thesis by simp
  qed
qed

text \<open>The last attempt.\<close>

lemma last_attempt:
  assumes "fs_ok (held l + H) s" and "connections s a \<noteq> None" and "needs (cells s)"
    and "st \<noteq> null" and "statuses (cells s) st = Some status_clear" and "abs_attempt N a g (view s) = (r, v)"
    and "attempt \<noteq> 0 \<or> (\<forall>k t. r = Inr (Inl (k, t)) \<longrightarrow> k \<noteq> HDFS_ERR_CONNECTION)"
  shows "\<exists>x l' s'. execute_from N a st op attempt l s = Some (x, l', s') \<and> fs_ok (held l' + H) s' \<and> view s' = v \<and>
    (case r of
       Inl e \<Rightarrow> x = Some e \<and> cells s' = cells s
     | Inr (Inl (k, t)) \<Rightarrow> x = None \<and> k \<noteq> HDFS_OK \<and> bad l' \<and> told st k t (cells s) (cells s')
     | Inr (Inr y) \<Rightarrow> x = None \<and> post y l' (cells s) (cells s'))"
proof -
  have reset: "reset_status st (heap s) = Some (heap s)" using assms(5) by (intro clear_reset) simp
  from round [OF assms(1-6)] obtain got s1 where get: "Get N a s = Some (got, s1)" and
    got: "case r of
       Inl e \<Rightarrow> got = Inl e \<and> fs_ok (held l + H) s1 \<and> view s1 = v \<and> cells s1 = cells s
     | Inr q \<Rightarrow> \<exists>p l' good s2. got = Inr p \<and> p \<noteq> null \<and> op p st l s1 = Some (l', good, s2) \<and> connections s2 a = Some p \<and>
         fs_ok (add_mset p (held l' + H)) s2 \<and> view s2 = v \<and>
         (case q of
            Inl (k, t) \<Rightarrow> \<not> good \<and> k \<noteq> HDFS_OK \<and> bad l' \<and> told st k t (cells s) (cells s2)
          | Inr y \<Rightarrow> good \<and> post y l' (cells s) (cells s2))" by blast
  show ?thesis
  proof (cases r)
    case (Inl e)
    with got get reset show ?thesis by (simp add: execute_from.simps)
  next
    case (Inr q)
    with got obtain p l' good s2 where op: "got = Inr p" "op p st l s1 = Some (l', good, s2)"
      "fs_ok (add_mset p (held l' + H)) s2" "view s2 = v" and
      q: "case q of Inl (k, t) \<Rightarrow> \<not> good \<and> k \<noteq> HDFS_OK \<and> bad l' \<and> told st k t (cells s) (cells s2)
          | Inr y \<Rightarrow> good \<and> post y l' (cells s) (cells s2)" by auto
    from release_ok [OF op(3)] obtain s3 where s3: "release p s2 = Some s3" "fs_ok (held l' + H) s3"
      "view s3 = view s2" "cells s3 = cells s2" by blast
    have "execute_from N a st op attempt l s = Some (None, l', s3)"
    proof (cases q)
      case (Inl f)
      obtain k t where f: "f = (k, t)" by force
      with Inl q have bad: "\<not> good" and tell: "told st k t (cells s) (cells s2)" by simp_all
      from told_read(1) [OF tell] obtain n where "statuses (heap s2) st = Some \<lparr>code = k, msg = n\<rparr>" by blast
      moreover have "attempt \<noteq> 0 \<or> k \<noteq> HDFS_ERR_CONNECTION" using assms(7) Inr Inl f by simp
      ultimately show ?thesis
        using bad reset get op(1,2) s3(1) by (auto simp: execute_from.simps [of N a st op attempt l s])
    next
      case (Inr y)
      with q have "good" by simp
      then show ?thesis using reset get op(1,2) s3(1) by (simp add: execute_from.simps)
    qed
    with Inr q op(4) s3 show ?thesis by (auto split: sum.splits prod.splits)
  qed
qed

theorem refines:
  assumes "fs_ok (held l + H) s" and "needs (cells s)" and "st \<noteq> null"
    and "statuses (cells s) st = Some status_clear" and "abs_execute N a g (view s) = (r, v)"
  shows "\<exists>x l' s'. Execute N a st op l s = Some (x, l', s') \<and> fs_ok (held l' + H) s' \<and> view s' = v \<and>
    (case r of
       Inl e \<Rightarrow> x = Some e \<and> cells s' = cells s
     | Inr (Inl (k, t)) \<Rightarrow> x = None \<and> k \<noteq> HDFS_OK \<and> bad l' \<and> told st k t (cells s) (cells s')
     | Inr (Inr y) \<Rightarrow> x = None \<and> post y l' (cells s) (cells s'))"
proof -
  let ?s = "GetConnection a s"
  note conn = get_connection_ok [OF assms(1), of a]
  obtain r1 v1 where first: "abs_attempt N a g (view s) = (r1, v1)" by force
  have first': "abs_attempt N a g (view ?s) = (r1, v1)" using first conn(2) by simp
  have needs': "needs (cells ?s)" and st': "statuses (cells ?s) st = Some status_clear" using assms(2,4) conn(3) by simp_all
  show ?thesis
  proof (cases "\<exists>t. r1 = Inr (Inl (HDFS_ERR_CONNECTION, t))")
    case False
    then have same: "r = r1" "v = v1"
      using assms(5) first by (auto simp: abs_execute_def split: sum.splits prod.splits if_splits)
    have "0 \<noteq> (0 :: nat) \<or> (\<forall>k t. r1 = Inr (Inl (k, t)) \<longrightarrow> k \<noteq> HDFS_ERR_CONNECTION)" using False by blast
    from last_attempt [OF conn(1,4) needs' assms(3) st' first' this, folded Execute_def, unfolded conn(3)]
    show ?thesis unfolding same .
  next
    case True
    then obtain t where r1: "r1 = Inr (Inl (HDFS_ERR_CONNECTION, t))" by blast
    note one = round [OF conn(1,4) needs' assms(3) st' first', unfolded r1 conn(3) sum.case prod.case]
    from one obtain got s1 p l1 good s2 where
      got: "Get N a ?s = Some (got, s1)" "got = Inr p" and get: "p \<noteq> null" and
      op: "op p st l s1 = Some (l1, good, s2)" "connections s2 a = Some p"
      "fs_ok (add_mset p (held l1 + H)) s2" "view s2 = v1" "told st HDFS_ERR_CONNECTION t (cells s) (cells s2)"
      and bad: "\<not> good"
      by blast
    from invalidate_ok [OF op(3,2) get] obtain s3 where s3: "Invalidate a p s2 = Some s3"
      "fs_ok (add_mset p (held l1 + H)) s3" "view s3 = (view s2)\<lparr>v_clients := (v_clients (view s2))(a := None)\<rparr>"
      "connections s3 = (connections s2)(a \<mapsto> null)" "cells s3 = cells s2" by blast
    from release_ok [OF s3(2)] obtain s4 where s4: "release p s3 = Some s4" "fs_ok (held l1 + H) s4"
      "connections s4 = connections s3" "view s4 = view s3" "cells s4 = cells s3" by blast
    have tell: "told st HDFS_ERR_CONNECTION t (cells s) (cells s4)" using op(5) s3(5) s4(5) by simp
    have arrays: "arrays_ok (cstrs (cells s)) (entry_arrays (cells s))" by (rule fs_ok_arrays [OF assms(1)])
    from reset_told [OF s4(2) tell assms(4) arrays] obtain m where m: "reset_status st (heap s4) = Some m"
      "fs_ok (held l1 + H) (s4\<lparr>heap := m\<rparr>)" "cells_of m = cells s" "view (s4\<lparr>heap := m\<rparr>) = view s4" by blast
    let ?s5 = "s4\<lparr>heap := m\<rparr>"
    have again: "abs_attempt N a g (view ?s5) = (r, v)"
      using assms(5) first r1 m(4) s4(4) s3(3) op(4) by (simp add: abs_execute_def)
    have "statuses m st = Some status_clear" using assms(4) unfolding m(3) [symmetric] by simp
    then have "execute_from N a st op (Suc 0) l1 ?s5 = execute_from N a st op (Suc 0) l1 s4"
      using m(1) clear_reset [of m st]
      by (simp add: execute_from.simps [of N a st op "Suc 0"])
    moreover from told_read(1) [OF op(5)] obtain n where
      "statuses (heap s2) st = Some \<lparr>code = HDFS_ERR_CONNECTION, msg = n\<rparr>" by blast
    then have "Execute N a st op l s = execute_from N a st op (Suc 0) l1 s4"
      using got bad op(1) s3(1) s4(1) clear_reset [of "heap ?s" st] st'
      by (simp add: Execute_def execute_from.simps [of N a st op 0])
    moreover have "connections ?s5 a \<noteq> None" "needs (cells ?s5)" "statuses (cells ?s5) st = Some status_clear"
      using s4(3) s3(4) m(3) assms(2,4) by simp_all
    note last = last_attempt [OF m(2) this(1,2) assms(3) this(3) again, of "Suc 0"]
    moreover have "cells ?s5 = cells s" using m(3) by simp
    ultimately show ?thesis using last by (simp only:) simp
  qed
qed

end

section \<open>The cells around a call\<close>

lemma view_heap_same:
  "clients m = clients (heap s) \<Longrightarrow> runtime_slot m = runtime_slot (heap s) \<Longrightarrow> cluster m = cluster (heap s) \<Longrightarrow>
   view (s\<lparr>heap := m\<rparr>) = view s"
  by (simp add: view_def cong: option.case_cong)

lemma with_arg_ok:
  assumes "fs_ok H s"
    and body: "\<And>p s1. fs_ok H s1 \<Longrightarrow> p \<noteq> null \<Longrightarrow> args (cells s) p = None \<Longrightarrow> cstrs (cells s) p = None \<Longrightarrow>
      cells s1 = (cells s)\<lparr>args := (args (cells s))(p \<mapsto> c_str str)\<rparr> \<Longrightarrow> view s1 = view s \<Longrightarrow>
      clients (heap s1) = clients (heap s) \<Longrightarrow> connections s1 = connections s \<Longrightarrow>
      \<exists>x s2. body p s1 = Some (x, s2) \<and> fs_ok (H' x) s2 \<and> Q x (view s2) ((cells s2)\<lparr>args := (args (cells s2))(p := None)\<rparr>)"
  shows "\<exists>x s'. with_arg str body s = Some (x, s') \<and> fs_ok (H' x) s' \<and> Q x (view s') (cells s')"
proof -
  note ok = fs_okD [OF assms(1)]
  let ?p = "fresh (heap s)"
  let ?m = "(heap s)\<lparr>fresh := ?p + 1, args := (args (heap s))(?p \<mapsto> c_str str)\<rparr>"
  have none: "args (cells s) ?p = None" "cstrs (cells s) ?p = None" using mem_ok_cells(2,3) [OF ok(2), of 0] by simp_all
  have fs: "fs_ok H (s\<lparr>heap := ?m\<rparr>)"
  proof (rule fs_ok_heap [OF assms(1)])
    have "mem_ok ?m" using ok(2) none unfolding mem_ok_def
      by (simp add: live_below_upd live_below_mono [of ?p _ "Suc ?p"])
    then show "heap_ok ?m" using ok(1) by (simp add: heap_ok_def)
    show "cells_ok ?m" using ok(3) by (simp add: cells_ok_def live_below_mono [of ?p _ "Suc ?p"])
  qed simp
  have cells: "cells (s\<lparr>heap := ?m\<rparr>) = (cells s)\<lparr>args := (args (cells s))(?p \<mapsto> c_str str)\<rparr>"
    and same: "view (s\<lparr>heap := ?m\<rparr>) = view s" and p: "?p \<noteq> null"
    using ok(4) by (simp_all add: view_heap_same)
  have kept: "clients (heap (s\<lparr>heap := ?m\<rparr>)) = clients (heap s)" "connections (s\<lparr>heap := ?m\<rparr>) = connections s" by simp_all
  from body [OF fs p none cells same kept] obtain x s2 where
    s2: "body ?p (s\<lparr>heap := ?m\<rparr>) = Some (x, s2)" "fs_ok (H' x) s2"
    "Q x (view s2) ((cells s2)\<lparr>args := (args (cells s2))(?p := None)\<rparr>)"
    by blast
  have "fs_ok (H' x) (s2\<lparr>heap := drop_arg ?p (heap s2)\<rparr>)"
    using fs_okD(1,3) [OF s2(2)] by (intro fs_ok_heap [OF s2(2)])
      (auto simp: drop_arg_def heap_ok_def mem_ok_def cells_ok_def live_below_less)
  with s2 show ?thesis by (simp add: with_arg_def new_arg_def view_heap_same drop_arg_def)
qed

text \<open>A status may hold a failure at the end of the block; it is given back.\<close>

lemma with_status_ok:
  assumes "fs_ok H s"
    and body: "\<And>st s1. fs_ok H s1 \<Longrightarrow> st \<noteq> null \<Longrightarrow> statuses (cells s) st = None \<Longrightarrow>
      cells s1 = (cells s)\<lparr>statuses := (statuses (cells s))(st \<mapsto> status_clear)\<rparr> \<Longrightarrow> view s1 = view s \<Longrightarrow>
      clients (heap s1) = clients (heap s) \<Longrightarrow> connections s1 = connections s \<Longrightarrow>
      \<exists>x s2 c. body st s1 = Some (x, s2) \<and> fs_ok (H' x) s2 \<and> (cells s2 = c \<or> (\<exists>k t. told st k t c (cells s2))) \<and>
        statuses c st = Some status_clear \<and> arrays_ok (cstrs c) (entry_arrays c) \<and>
        Q x (view s2) (c\<lparr>statuses := (statuses c)(st := None)\<rparr>)"
  shows "\<exists>x s'. with_status body s = Some (x, s') \<and> fs_ok (H' x) s' \<and> Q x (view s') (cells s')"
proof -
  note ok = fs_okD [OF assms(1)]
  let ?st = "fresh (heap s)"
  let ?m = "(heap s)\<lparr>fresh := Suc ?st, statuses := (statuses (heap s))(?st \<mapsto> status_clear)\<rparr>"
  have none: "statuses (cells s) ?st = None" using cells_ok_fresh [OF ok(3), of 0] by simp
  have fs: "fs_ok H (s\<lparr>heap := ?m\<rparr>)"
    using new_status_ok [OF ok(2,3)] ok(1) by (intro fs_ok_heap [OF assms(1)]) (simp_all add: heap_ok_def)
  have cells: "cells (s\<lparr>heap := ?m\<rparr>) = (cells s)\<lparr>statuses := (statuses (cells s))(?st \<mapsto> status_clear)\<rparr>"
    and same: "view (s\<lparr>heap := ?m\<rparr>) = view s" and st: "?st \<noteq> null"
    using ok(4) by (simp_all add: view_heap_same)
  have kept: "clients (heap (s\<lparr>heap := ?m\<rparr>)) = clients (heap s)" "connections (s\<lparr>heap := ?m\<rparr>) = connections s" by simp_all
  from body [OF fs st none cells same kept] obtain x s2 c where
    s2: "body ?st (s\<lparr>heap := ?m\<rparr>) = Some (x, s2)" "fs_ok (H' x) s2" "cells s2 = c \<or> (\<exists>k t. told ?st k t c (cells s2))"
    "statuses c ?st = Some status_clear" "arrays_ok (cstrs c) (entry_arrays c)"
    "Q x (view s2) (c\<lparr>statuses := (statuses c)(?st := None)\<rparr>)"
    by blast
  have "\<exists>m. reset_status ?st (heap s2) = Some m \<and> fs_ok (H' x) (s2\<lparr>heap := m\<rparr>) \<and> cells_of m = c \<and>
      view (s2\<lparr>heap := m\<rparr>) = view s2"
    using s2(3)
  proof
    assume "cells s2 = c"
    then show ?thesis using clear_reset [of "heap s2" ?st] s2(2,4) by auto
  next
    assume "\<exists>k t. told ?st k t c (cells s2)"
    then show ?thesis using reset_told [OF s2(2) _ s2(4,5)] by blast
  qed
  then obtain m where m: "reset_status ?st (heap s2) = Some m" "fs_ok (H' x) (s2\<lparr>heap := m\<rparr>)" "cells_of m = c"
    "view (s2\<lparr>heap := m\<rparr>) = view s2" by blast
  let ?n = "m\<lparr>statuses := (statuses m)(?st := None)\<rparr>"
  have "fs_ok (H' x) ((s2\<lparr>heap := m\<rparr>)\<lparr>heap := ?n\<rparr>)"
    using fs_okD(1,3) [OF m(2)] by (intro fs_ok_heap [OF m(2)])
      (auto simp: heap_ok_def mem_ok_def cells_ok_def live_below_less)
  moreover have "view (s2\<lparr>heap := ?n\<rparr>) = view s2"
    using m(4) view_heap [of ?n "s2\<lparr>heap := m\<rparr>"] view_sel [of "s2\<lparr>heap := m\<rparr>"] by simp
  moreover have "cells_of ?n = c\<lparr>statuses := (statuses c)(?st := None)\<rparr>"
    using m(3) by auto
  ultimately show ?thesis
    using s2(1,6) m(1) by (simp add: with_status_def new_status_def drop_status_def)
qed

lemma with_info_ok:
  assumes "fs_ok H s"
    and body: "\<And>i s1. fs_ok H s1 \<Longrightarrow> infos (cells s) i = None \<Longrightarrow>
      cells s1 = (cells s)\<lparr>infos := (infos (cells s))(i \<mapsto> blank_info)\<rparr> \<Longrightarrow> view s1 = view s \<Longrightarrow>
      clients (heap s1) = clients (heap s) \<Longrightarrow> connections s1 = connections s \<Longrightarrow>
      \<exists>x s2. body i s1 = Some (x, s2) \<and> fs_ok (H' x) s2 \<and> Q x (view s2) ((cells s2)\<lparr>infos := (infos (cells s2))(i := None)\<rparr>)"
  shows "\<exists>x s'. with_info body s = Some (x, s') \<and> fs_ok (H' x) s' \<and> Q x (view s') (cells s')"
proof -
  note ok = fs_okD [OF assms(1)]
  let ?i = "fresh (heap s)"
  let ?m = "(heap s)\<lparr>fresh := ?i + 1, infos := (infos (heap s))(?i \<mapsto> blank_info)\<rparr>"
  have none: "infos (cells s) ?i = None"
    using ok(3) live_below_fresh [of ?i "infos (heap s)" ?i] by (simp add: cells_ok_def)
  have fs: "fs_ok H (s\<lparr>heap := ?m\<rparr>)"
  proof (rule fs_ok_heap [OF assms(1)])
    have "mem_ok ?m" using ok(2) unfolding mem_ok_def by (simp add: live_below_mono [of ?i _ "Suc ?i"])
    then show "heap_ok ?m" using ok(1) by (simp add: heap_ok_def)
    show "cells_ok ?m" using ok(3,4) by (simp add: cells_ok_def live_below_upd live_below_mono [of ?i _ "Suc ?i"])
  qed simp
  have cells: "cells (s\<lparr>heap := ?m\<rparr>) = (cells s)\<lparr>infos := (infos (cells s))(?i \<mapsto> blank_info)\<rparr>"
    and same: "view (s\<lparr>heap := ?m\<rparr>) = view s"
    by (simp_all add: view_heap_same)
  have kept: "clients (heap (s\<lparr>heap := ?m\<rparr>)) = clients (heap s)" "connections (s\<lparr>heap := ?m\<rparr>) = connections s" by simp_all
  from body [OF fs none cells same kept] obtain x s2 where
    s2: "body ?i (s\<lparr>heap := ?m\<rparr>) = Some (x, s2)" "fs_ok (H' x) s2"
    "Q x (view s2) ((cells s2)\<lparr>infos := (infos (cells s2))(?i := None)\<rparr>)"
    by blast
  have "fs_ok (H' x) (s2\<lparr>heap := (heap s2)\<lparr>infos := (infos (heap s2))(?i := None)\<rparr>\<rparr>)"
    using fs_okD(1,3) [OF s2(2)] by (intro fs_ok_heap [OF s2(2)])
      (auto simp: heap_ok_def mem_ok_def cells_ok_def live_below_less)
  with s2 show ?thesis by (simp add: with_info_def view_heap_same Let_def)
qed

lemma with_count_ok:
  assumes "fs_ok H s"
    and body: "\<And>i s1. fs_ok H s1 \<Longrightarrow> counts (cells s) i = None \<Longrightarrow>
      cells s1 = (cells s)\<lparr>counts := (counts (cells s))(i \<mapsto> 0)\<rparr> \<Longrightarrow> view s1 = view s \<Longrightarrow>
      clients (heap s1) = clients (heap s) \<Longrightarrow> connections s1 = connections s \<Longrightarrow>
      \<exists>x s2. body i s1 = Some (x, s2) \<and> fs_ok (H' x) s2 \<and> Q x (view s2) ((cells s2)\<lparr>counts := (counts (cells s2))(i := None)\<rparr>)"
  shows "\<exists>x s'. with_count body s = Some (x, s') \<and> fs_ok (H' x) s' \<and> Q x (view s') (cells s')"
proof -
  note ok = fs_okD [OF assms(1)]
  let ?i = "fresh (heap s)"
  let ?m = "(heap s)\<lparr>fresh := ?i + 1, counts := (counts (heap s))(?i \<mapsto> 0)\<rparr>"
  have none: "counts (cells s) ?i = None"
    using ok(3) live_below_fresh [of ?i "counts (heap s)" ?i] by (simp add: cells_ok_def)
  have fs: "fs_ok H (s\<lparr>heap := ?m\<rparr>)"
  proof (rule fs_ok_heap [OF assms(1)])
    have "mem_ok ?m" using ok(2) unfolding mem_ok_def by (simp add: live_below_mono [of ?i _ "Suc ?i"])
    then show "heap_ok ?m" using ok(1) by (simp add: heap_ok_def)
    show "cells_ok ?m" using ok(3,4) by (simp add: cells_ok_def live_below_upd live_below_mono [of ?i _ "Suc ?i"])
  qed simp
  have cells: "cells (s\<lparr>heap := ?m\<rparr>) = (cells s)\<lparr>counts := (counts (cells s))(?i \<mapsto> 0)\<rparr>"
    and same: "view (s\<lparr>heap := ?m\<rparr>) = view s"
    by (simp_all add: view_heap_same)
  have kept: "clients (heap (s\<lparr>heap := ?m\<rparr>)) = clients (heap s)" "connections (s\<lparr>heap := ?m\<rparr>) = connections s" by simp_all
  from body [OF fs none cells same kept] obtain x s2 where
    s2: "body ?i (s\<lparr>heap := ?m\<rparr>) = Some (x, s2)" "fs_ok (H' x) s2"
    "Q x (view s2) ((cells s2)\<lparr>counts := (counts (cells s2))(?i := None)\<rparr>)"
    by blast
  have "fs_ok (H' x) (s2\<lparr>heap := (heap s2)\<lparr>counts := (counts (heap s2))(?i := None)\<rparr>\<rparr>)"
    using fs_okD(1,3) [OF s2(2)] by (intro fs_ok_heap [OF s2(2)])
      (auto simp: heap_ok_def mem_ok_def cells_ok_def live_below_less)
  with s2 show ?thesis by (simp add: with_count_def view_heap_same Let_def)
qed

end
