(* ===== verification/Hdfs_Metadata.thy ===== *)
theory Hdfs_Metadata
  imports Hdfs_Execute
begin

text \<open>
  The operations on names of \<^verbatim>\<open>HdfsFileSystem\<close> (\<^verbatim>\<open>src/hdfs_filesystem.cpp\<close>): existence, metadata,
  directories, removal, moves. Each allocates its cells, runs one call of the bridge through
  \<open>Execute\<close>, reads the status and gives everything back. \<open>implements\<close> is the refinement: the
  operation is free of undefined behaviour, leaks nothing, and is its specification on views.
\<close>

section \<open>Calls that return a number\<close>

text \<open>The lambda \<^verbatim>\<open>[&] { return call(client.get(), ..., st) == 0; }\<close>.\<close>

definition lift_call ::
  "(addr \<Rightarrow> addr \<Rightarrow> ('w, 'c, 'r, 'o, 't) mem \<Rightarrow> (i32 \<times> ('w, 'c, 'r, 'o, 't) mem) option)
     \<Rightarrow> addr \<Rightarrow> addr \<Rightarrow> unit \<Rightarrow> ('w, 'c, 'r, 'o, 't) hdfs_fs \<Rightarrow> (unit \<times> bool \<times> ('w, 'c, 'r, 'o, 't) hdfs_fs) option" where
  "lift_call call client st l s = do { (r, m) \<leftarrow> call client st (heap s); Some (l, r = 0, s\<lparr>heap := m\<rparr>) }"

text \<open>The exception, or the code and message that are left in the status.\<close>

definition outcome :: "exn option \<Rightarrow> addr \<Rightarrow> ('w, 'c, 'r, 'o, 't) hdfs_fs \<Rightarrow> (exn + failure) option" where
  "outcome x st s =
     (case x of
        Some e \<Rightarrow> Some (Inl e)
      | None \<Rightarrow> do { t \<leftarrow> statuses (heap s) st; message \<leftarrow> status_message st (heap s); Some (Inr (code t, message)) })"

definition checked ::
  "('w, 'c, 'r, 'o, 't) hdfs_native \<Rightarrow> cpp_string
     \<Rightarrow> (addr \<Rightarrow> addr \<Rightarrow> ('w, 'c, 'r, 'o, 't) mem \<Rightarrow> (i32 \<times> ('w, 'c, 'r, 'o, 't) mem) option)
     \<Rightarrow> ('w, 'c, 'r, 'o, 't) hdfs_fs \<Rightarrow> ((exn + failure) \<times> ('w, 'c, 'r, 'o, 't) hdfs_fs) option" where
  "checked N authority call =
     with_status (\<lambda>st s. do {
       (x, _, s) \<leftarrow> Execute N authority st (lift_call call) () s;
       res \<leftarrow> outcome x st s;
       Some (res, s)
     })"

definition quote :: "cpp_string \<Rightarrow> cpp_string" where
  "quote s = lit [CHR 0x27] @ s @ lit [CHR 0x27]"

text \<open>The end of an operation without a result: \<^verbatim>\<open>if (!status.Ok()) throw IOException(...)\<close>.\<close>

definition throw_unless_ok :: "cpp_string \<Rightarrow> exn + failure \<Rightarrow> exn + unit" where
  "throw_unless_ok what res =
     (case res of
        Inl e \<Rightarrow> Inl e
      | Inr (c, message) \<Rightarrow> if c \<noteq> HDFS_OK then Inl (IOException (what @ lit '': '' @ message)) else Inr ())"

section \<open>Directories, removal, moves\<close>

definition CreateDirectory ::
  "('w, 'c, 'r, 'o, 't) hdfs_native \<Rightarrow> cpp_string
     \<Rightarrow> ('w, 'c, 'r, 'o, 't) hdfs_fs \<Rightarrow> ((exn + unit) \<times> ('w, 'c, 'r, 'o, 't) hdfs_fs) option" where
  "CreateDirectory N directory s =
     (let (authority, hdfs_path) = ParseHdfsPath directory
      in do {
        (res, s) \<leftarrow> with_arg hdfs_path (\<lambda>path. checked N authority (\<lambda>client st. hdfs_bridge_mkdirs N client path st)) s;
        Some (throw_unless_ok (lit ''Failed to create HDFS directory '' @ quote directory) res, s)
      })"

definition RemoveDirectory ::
  "('w, 'c, 'r, 'o, 't) hdfs_native \<Rightarrow> cpp_string
     \<Rightarrow> ('w, 'c, 'r, 'o, 't) hdfs_fs \<Rightarrow> ((exn + unit) \<times> ('w, 'c, 'r, 'o, 't) hdfs_fs) option" where
  "RemoveDirectory N directory s =
     (let (authority, hdfs_path) = ParseHdfsPath directory
      in do {
        (res, s) \<leftarrow> with_arg hdfs_path (\<lambda>path. checked N authority (\<lambda>client st. hdfs_bridge_delete N client path True st)) s;
        Some (throw_unless_ok (lit ''Failed to remove HDFS directory '' @ quote directory) res, s)
      })"

definition RemoveFile ::
  "('w, 'c, 'r, 'o, 't) hdfs_native \<Rightarrow> cpp_string
     \<Rightarrow> ('w, 'c, 'r, 'o, 't) hdfs_fs \<Rightarrow> ((exn + unit) \<times> ('w, 'c, 'r, 'o, 't) hdfs_fs) option" where
  "RemoveFile N filename s =
     (let (authority, hdfs_path) = ParseHdfsPath filename
      in do {
        (res, s) \<leftarrow> with_arg hdfs_path (\<lambda>path. checked N authority (\<lambda>client st. hdfs_bridge_delete N client path False st)) s;
        Some (throw_unless_ok (lit ''Failed to remove HDFS file '' @ quote filename) res, s)
      })"

definition MoveFile ::
  "('w, 'c, 'r, 'o, 't) hdfs_native \<Rightarrow> cpp_string \<Rightarrow> cpp_string
     \<Rightarrow> ('w, 'c, 'r, 'o, 't) hdfs_fs \<Rightarrow> ((exn + unit) \<times> ('w, 'c, 'r, 'o, 't) hdfs_fs) option" where
  "MoveFile N source target s =
     (let (src_authority, src_path) = ParseHdfsPath source;
          (dst_authority, dst_path) = ParseHdfsPath target
      in if src_authority \<noteq> dst_authority then
           Some (Inl (NotImplementedException (lit ''Cannot move HDFS files across different NameNodes ('' @
             quote source @ lit '' -> '' @ quote target @ lit '')'')), s)
         else do {
           (res, s) \<leftarrow> with_arg src_path (\<lambda>src. with_arg dst_path (\<lambda>dst.
             checked N src_authority (\<lambda>client st. hdfs_bridge_rename N client src dst True st))) s;
           Some (throw_unless_ok (lit ''Failed to move HDFS file '' @ quote source @ lit '' -> '' @ quote target) res, s)
         })"

section \<open>Existence and metadata\<close>

text \<open>What the four callers of \<^verbatim>\<open>hdfs_bridge_get_file_info\<close> share: the status, and the record.\<close>

definition checked_info ::
  "('w, 'c, 'r, 'o, 't) hdfs_native \<Rightarrow> cpp_string
     \<Rightarrow> ('w, 'c, 'r, 'o, 't) hdfs_fs \<Rightarrow> (((exn + failure) \<times> FileInfo) \<times> ('w, 'c, 'r, 'o, 't) hdfs_fs) option" where
  "checked_info N url s =
     (let (authority, hdfs_path) = ParseHdfsPath url
      in with_arg hdfs_path (\<lambda>path. with_info (\<lambda>info s. do {
           (res, s) \<leftarrow> checked N authority (\<lambda>client st. hdfs_bridge_get_file_info N client path info st) s;
           i \<leftarrow> infos (heap s) info;
           Some ((res, i), s)
         })) s)"

definition FileExists ::
  "('w, 'c, 'r, 'o, 't) hdfs_native \<Rightarrow> cpp_string
     \<Rightarrow> ('w, 'c, 'r, 'o, 't) hdfs_fs \<Rightarrow> ((exn + bool) \<times> ('w, 'c, 'r, 'o, 't) hdfs_fs) option" where
  "FileExists N filename s =
     do {
       ((res, info), s) \<leftarrow> checked_info N filename s;
       Some (case res of
           Inl e \<Rightarrow> Inl e
         | Inr (c, message) \<Rightarrow>
             if c = HDFS_OK then Inr (\<not> fi_is_dir info)
             else if c = HDFS_ERR_NOT_FOUND then Inr False
             else Inl (IOException (lit ''Failed to check HDFS file '' @ quote filename @ lit '': '' @ message)), s)
     }"

definition DirectoryExists ::
  "('w, 'c, 'r, 'o, 't) hdfs_native \<Rightarrow> cpp_string
     \<Rightarrow> ('w, 'c, 'r, 'o, 't) hdfs_fs \<Rightarrow> ((exn + bool) \<times> ('w, 'c, 'r, 'o, 't) hdfs_fs) option" where
  "DirectoryExists N directory s =
     do {
       ((res, info), s) \<leftarrow> checked_info N directory s;
       Some (case res of
           Inl e \<Rightarrow> Inl e
         | Inr (c, message) \<Rightarrow>
             if c = HDFS_OK then Inr (fi_is_dir info)
             else if c = HDFS_ERR_NOT_FOUND then Inr False
             else Inl (IOException (lit ''Failed to check HDFS directory '' @ quote directory @ lit '': '' @ message)), s)
     }"

definition Exists ::
  "('w, 'c, 'r, 'o, 't) hdfs_native \<Rightarrow> cpp_string
     \<Rightarrow> ('w, 'c, 'r, 'o, 't) hdfs_fs \<Rightarrow> ((exn + bool) \<times> ('w, 'c, 'r, 'o, 't) hdfs_fs) option" where
  "Exists N url s =
     do {
       ((res, info), s) \<leftarrow> checked_info N url s;
       Some (case res of
           Inl e \<Rightarrow> Inl e
         | Inr (c, message) \<Rightarrow>
             if c = HDFS_OK then Inr True
             else if c = HDFS_ERR_NOT_FOUND then Inr False
             else Inl (IOException (lit ''Failed to check HDFS path '' @ quote url @ lit '': '' @ message)), s)
     }"

text \<open>\<^verbatim>\<open>Timestamp::FromEpochMs\<close> is of DuckDB, a parameter; the cast keeps the bits.\<close>

definition GetLastModifiedTime ::
  "(i64 \<Rightarrow> 'ts) \<Rightarrow> ('w, 'c, 'r, 'o, 't) hdfs_native \<Rightarrow> cpp_string
     \<Rightarrow> ('w, 'c, 'r, 'o, 't) hdfs_fs \<Rightarrow> ((exn + 'ts) \<times> ('w, 'c, 'r, 'o, 't) hdfs_fs) option" where
  "GetLastModifiedTime from_epoch_ms N handle_path s =
     do {
       ((res, info), s) \<leftarrow> checked_info N handle_path s;
       Some (case res of
           Inl e \<Rightarrow> Inl e
         | Inr (c, message) \<Rightarrow>
             if c \<noteq> HDFS_OK then Inl (IOException (lit ''Failed to stat HDFS file '' @ quote handle_path @ lit '': '' @ message))
             else Inr (from_epoch_ms (ucast (fi_mtime info))), s)
     }"

text \<open>The variable \<^verbatim>\<open>entry\<close> is captured; the lambda tests the code of the status.\<close>

definition stat_op ::
  "('w, 'c, 'r, 'o, 't) hdfs_native \<Rightarrow> addr \<Rightarrow> addr \<Rightarrow> addr \<Rightarrow> addr
     \<Rightarrow> ('w, 'c, 'r, 'o, 't) hdfs_fs \<Rightarrow> (addr \<times> bool \<times> ('w, 'c, 'r, 'o, 't) hdfs_fs) option" where
  "stat_op N path client st entry s =
     do {
       (entry, m) \<leftarrow> hdfs_bridge_stat N client path st (heap s);
       t \<leftarrow> statuses m st;
       Some (entry, code t = HDFS_OK, s\<lparr>heap := m\<rparr>)
     }"

text \<open>What follows the call.\<close>

definition stat_end ::
  "cpp_string \<Rightarrow> cpp_string \<Rightarrow> addr \<Rightarrow> exn option \<Rightarrow> addr
     \<Rightarrow> ('w, 'c, 'r, 'o, 't) hdfs_fs \<Rightarrow> ((exn + HdfsEntry) \<times> ('w, 'c, 'r, 'o, 't) hdfs_fs) option" where
  "stat_end authority url st x entry s =
     do {
       res \<leftarrow> outcome x st s;
       case res of
         Inl e \<Rightarrow> Some (Inl e, s)
       | Inr (c, message) \<Rightarrow>
           if c \<noteq> HDFS_OK then
             Some (Inl (IOException (lit ''Failed to stat HDFS path '' @ quote url @ lit '': '' @ message)), s)
           else do {
             es \<leftarrow> entry_arrays (heap s) entry;
             result \<leftarrow> (case es of [] \<Rightarrow> None | e # _ \<Rightarrow> MakeHdfsEntry authority e (heap s));
             m \<leftarrow> hdfs_bridge_free_dir_entries entry 1 (heap s);
             Some (Inr result, s\<lparr>heap := m\<rparr>)
           }
     }"

definition Stat ::
  "('w, 'c, 'r, 'o, 't) hdfs_native \<Rightarrow> cpp_string
     \<Rightarrow> ('w, 'c, 'r, 'o, 't) hdfs_fs \<Rightarrow> ((exn + HdfsEntry) \<times> ('w, 'c, 'r, 'o, 't) hdfs_fs) option" where
  "Stat N url s =
     (let (authority, hdfs_path) = ParseHdfsPath url
      in with_arg hdfs_path (\<lambda>path. with_status (\<lambda>st s. do {
           (x, entry, s) \<leftarrow> Execute N authority st (stat_op N path) null s;
           stat_end authority url st x entry s
         })) s)"

section \<open>The refinement\<close>

text \<open>
  An operation implements a function of the view: from every well-formed state it is defined, the
  state it leaves is well-formed with the same pointers held, every cell it allocated is given
  back, and result and view are those of the function. \<open>needs\<close> is what it asks of the cells.
\<close>

definition implements_on ::
  "((unit, 'c, 'r, 'o, 't) mem \<Rightarrow> bool)
     \<Rightarrow> (('w, 'c, 'r, 'o, 't) hdfs_fs \<Rightarrow> ('x \<times> ('w, 'c, 'r, 'o, 't) hdfs_fs) option)
     \<Rightarrow> (('w, 'c, 't) fs_view \<Rightarrow> 'x \<times> ('w, 'c, 't) fs_view) \<Rightarrow> bool" where
  "implements_on needs f F \<longleftrightarrow>
     (\<forall>H s. fs_ok H s \<longrightarrow> needs (cells s) \<longrightarrow>
        (\<exists>s'. f s = Some (fst (F (view s)), s') \<and> fs_ok H s' \<and> view s' = snd (F (view s)) \<and> cells s' = cells s))"

abbreviation implements where
  "implements \<equiv> implements_on (\<lambda>_. True)"

lemma cells_own [simp]:
  "(cells_of m)\<lparr>args := args m\<rparr> = cells_of m" "(cells_of m)\<lparr>statuses := statuses m\<rparr> = cells_of m"
  "(cells_of m)\<lparr>infos := infos m\<rparr> = cells_of m" "(cells_of m)\<lparr>counts := counts m\<rparr> = cells_of m"
  "(cells_of m)\<lparr>cstrs := cstrs m\<rparr> = cells_of m" "(cells_of m)\<lparr>entry_arrays := entry_arrays m\<rparr> = cells_of m"
  "(cells_of m)\<lparr>readers := readers m\<rparr> = cells_of m" "(cells_of m)\<lparr>writers := writers m\<rparr> = cells_of m"
  "(cells_of m)\<lparr>streams := streams m\<rparr> = cells_of m" "(cells_of m)\<lparr>bufs := bufs m\<rparr> = cells_of m"
  by (simp_all add: cells_of_def)

definition arg_at :: "addr \<Rightarrow> byte list \<Rightarrow> (unit, 'c, 'r, 'o, 't) mem \<Rightarrow> bool" where
  "arg_at p bs c \<longleftrightarrow> cstrs c p = None \<and> args c p = Some bs"

lemma arg_at_read: "arg_at p bs (cells_of m) \<Longrightarrow> read_cstr p m = Some (decode_lossy bs)"
  by (simp add: arg_at_def read_cstr_def)

lemma arg_at_updates [simp]:
  "arg_at p bs (c\<lparr>statuses := x1\<rparr>) = arg_at p bs c" "arg_at p bs (c\<lparr>infos := x2\<rparr>) = arg_at p bs c"
  "arg_at p bs (c\<lparr>counts := x3\<rparr>) = arg_at p bs c"
  by (simp_all add: arg_at_def)

lemma implements_result:
  "implements_on needs f F \<Longrightarrow>
   implements_on needs (\<lambda>s. do { (x, s) \<leftarrow> f s; Some (h x, s) }) (\<lambda>v. apfst h (F v))"
  unfolding implements_on_def by fastforce

lemma implements_arg:
  fixes body :: "addr \<Rightarrow> ('w, 'c, 'r, 'o, 't) hdfs_fs \<Rightarrow> ('x \<times> ('w, 'c, 'r, 'o, 't) hdfs_fs) option"
  assumes "\<And>p. implements_on (\<lambda>c. needs c \<and> arg_at p (c_str str) c) (body p) F"
    and "\<And>c p x. needs c \<Longrightarrow> args c p = None \<Longrightarrow> needs (c\<lparr>args := (args c)(p \<mapsto> x)\<rparr>)"
  shows "implements_on needs (with_arg str body) F"
  unfolding implements_on_def
proof (intro allI impI)
  fix H and s :: "('w, 'c, 'r, 'o, 't) hdfs_fs"
  assume s: "fs_ok H s" "needs (cells s)"
  have "\<exists>x s'. with_arg str body s = Some (x, s') \<and> fs_ok H s' \<and>
      (x = fst (F (view s)) \<and> view s' = snd (F (view s)) \<and> cells s' = cells s)"
  proof (rule with_arg_ok [OF s(1)])
    fix p s1
    assume s1: "fs_ok H s1" "args (cells s) p = None" "cstrs (cells s) p = None"
      "cells s1 = (cells s)\<lparr>args := (args (cells s))(p \<mapsto> c_str str)\<rparr>" "view s1 = view s"
    have "needs (cells s1)" "arg_at p (c_str str) (cells s1)"
      unfolding s1(4) using assms(2) [OF s(2) s1(2)] s1(3) by (simp_all add: arg_at_def)
    with assms(1) [of p, unfolded implements_on_def] s1(1) obtain s2 where
      s2: "body p s1 = Some (fst (F (view s1)), s2)" "fs_ok H s2" "view s2 = snd (F (view s1))" "cells s2 = cells s1"
      by blast
    have "(cells s2)\<lparr>args := (args (cells s2))(p := None)\<rparr> = cells s"
      unfolding s2(4) s1(4) using s1(2) by (simp add: fun_upd_idem)
    with s2(1-3) show "\<exists>x s2. body p s1 = Some (x, s2) \<and> fs_ok H s2 \<and> (x = fst (F (view s)) \<and> view s2 = snd (F (view s)) \<and>
        (cells s2)\<lparr>args := (args (cells s2))(p := None)\<rparr> = cells s)"
      using s1(5) by simp
  qed
  then show "\<exists>s'. with_arg str body s = Some (fst (F (view s)), s') \<and> fs_ok H s' \<and> view s' = snd (F (view s)) \<and> cells s' = cells s"
    by blast
qed

text \<open>
  What a call that returns a number does: on success it may write to the infos, and nothing else
  but the cluster.
\<close>

definition serves ::
  "(addr \<Rightarrow> addr \<Rightarrow> ('w, 'c, 'r, 'o, 't) mem \<Rightarrow> (i32 \<times> ('w, 'c, 'r, 'o, 't) mem) option)
     \<Rightarrow> (('c, 't) BridgeClient \<Rightarrow> 'w \<Rightarrow> (failure + 'y) \<times> 'w) \<Rightarrow> ((unit, 'c, 'r, 'o, 't) mem \<Rightarrow> bool)
     \<Rightarrow> ('y \<Rightarrow> (addr \<rightharpoonup> FileInfo) \<Rightarrow> (addr \<rightharpoonup> FileInfo)) \<Rightarrow> bool" where
  "serves call g needs upd \<longleftrightarrow>
     (\<forall>m client st c r w. clients m client = Some c \<longrightarrow> needs (cells_of m) \<longrightarrow> st \<noteq> null \<longrightarrow> statuses m st \<noteq> None \<longrightarrow>
        g c (cluster m) = (r, w) \<longrightarrow>
        (case r of
           Inl (k, t) \<Rightarrow> k \<noteq> HDFS_OK \<and> call client st m = Some (- 1, reported st k t (m\<lparr>cluster := w\<rparr>))
         | Inr y \<Rightarrow> call client st m = Some (0, m\<lparr>infos := upd y (infos m), cluster := w\<rparr>))) \<and>
     (\<forall>c n y. needs c \<longrightarrow> live_below n (infos c) \<longrightarrow> live_below n (upd y (infos c)))"

lemma served:
  fixes call :: "addr \<Rightarrow> addr \<Rightarrow> ('w, 'c, 'r, 'o, 't) mem \<Rightarrow> (i32 \<times> ('w, 'c, 'r, 'o, 't) mem) option"
  assumes "serves call g needs upd"
  shows "bridge_op (lift_call call) g (\<lambda>_. {#}) needs (\<lambda>y l c c'. c' = c\<lparr>infos := upd y (infos c)\<rparr>)
    (\<lambda>_. True)"
proof
  fix p l H st c r w and s :: "('w, 'c, 'r, 'o, 't) hdfs_fs"
  assume s: "fs_ok (add_mset p ({#} + H)) s" "clients (heap s) p = Some c" "needs (cells s)"
    "st \<noteq> null" "statuses (cells s) st = Some status_clear" "g c (cluster (heap s)) = (r, w)"
  have live: "statuses (heap s) st \<noteq> None" using s(5) by simp
  note does = conjunct1 [OF assms [unfolded serves_def], rule_format, OF s(2,3,4) live s(6)]
  show "\<exists>l' good s'. lift_call call p st l s = Some (l', good, s') \<and> connections s' = connections s \<and>
      fs_ok (add_mset p ({#} + H)) s' \<and> view s' = (view s)\<lparr>v_world := w\<rparr> \<and>
      (case r of
         Inl (k, t) \<Rightarrow> \<not> good \<and> k \<noteq> HDFS_OK \<and> True \<and> told st k t (cells s) (cells s')
       | Inr y \<Rightarrow> good \<and> cells s' = (cells s)\<lparr>infos := upd y (infos (cells s))\<rparr>)"
  proof (cases r)
    case (Inl f)
    obtain k t where f: "f = (k, t)" by force
    with does Inl have call: "k \<noteq> HDFS_OK" "call p st (heap s) = Some (- 1, reported st k t ((heap s)\<lparr>cluster := w\<rparr>))" by simp_all
    show ?thesis
      using report_ok [OF s(1,4) live refl, of k t w] call Inl f by (auto simp: lift_call_def)
  next
    case (Inr y)
    let ?m = "(heap s)\<lparr>infos := upd y (infos (heap s)), cluster := w\<rparr>"
    from does Inr have call: "call p st (heap s) = Some (0, ?m)" by simp
    have "live_below (fresh (heap s)) (upd y (infos (heap s)))"
      using conjunct2 [OF assms [unfolded serves_def], rule_format, OF s(3), of "fresh (heap s)" y] fs_okD(3) [OF s(1)]
      by (simp add: cells_ok_def)
    then have "fs_ok (add_mset p ({#} + H)) (s\<lparr>heap := ?m\<rparr>)"
      using fs_okD(1,3) [OF s(1)] by (intro fs_ok_heap [OF s(1)]) (simp_all add: heap_ok_def mem_ok_def cells_ok_def)
    then show ?thesis using Inr call by (auto simp: lift_call_def view_heap)
  qed
qed

text \<open>The status at the end of a call.\<close>

definition summary :: "exn + failure + 'y \<Rightarrow> exn + failure" where
  "summary r = (case r of Inl e \<Rightarrow> Inl e | Inr (Inl f) \<Rightarrow> Inr f | Inr (Inr y) \<Rightarrow> Inr (HDFS_OK, lit ''unknown error''))"

lemma checked_ok:
  fixes s :: "('w, 'c, 'r, 'o, 't) hdfs_fs"
  assumes "serves call g needs upd" and "\<And>c x. needs c \<Longrightarrow> needs (c\<lparr>statuses := x\<rparr>)"
    and "fs_ok H s" and "needs (cells s)" and "abs_execute N a g (view s) = (r, v)"
  shows "\<exists>s'. checked N a call s = Some (summary r, s') \<and> fs_ok H s' \<and> view s' = v \<and>
    cells s' = (case r of Inr (Inr y) \<Rightarrow> (cells s)\<lparr>infos := upd y (infos (cells s))\<rparr> | _ \<Rightarrow> cells s)"
proof -
  let ?C = "case r of Inr (Inr y) \<Rightarrow> (cells s)\<lparr>infos := upd y (infos (cells s))\<rparr> | _ \<Rightarrow> cells s"
  have "\<exists>x s'. checked N a call s = Some (x, s') \<and> fs_ok H s' \<and> (x = summary r \<and> view s' = v \<and> cells s' = ?C)"
    unfolding checked_def
  proof (rule with_status_ok [OF assms(3)])
    fix st s1
    assume s1: "fs_ok H s1" "st \<noteq> null" "statuses (cells s) st = None"
      "cells s1 = (cells s)\<lparr>statuses := (statuses (cells s))(st \<mapsto> status_clear)\<rparr>" "view s1 = view s"
    have needs: "needs (cells s1)" and clear: "statuses (cells s1) st = Some status_clear"
      unfolding s1(4) using assms(2,4) by simp_all
    have ok: "fs_ok ({#} + H) s1" and abs: "abs_execute N a g (view s1) = (r, v)" using s1(1,5) assms(5) by simp_all
    from bridge_op.refines [OF served [OF assms(1)] ok needs s1(2) clear abs] obtain x s2 where
      ex: "Execute N a st (lift_call call) () s1 = Some (x, (), s2)" "fs_ok H s2" "view s2 = v" and
      r: "case r of Inl e \<Rightarrow> x = Some e \<and> cells s2 = cells s1
        | Inr (Inl (k, t)) \<Rightarrow> x = None \<and> k \<noteq> HDFS_OK \<and> True \<and> told st k t (cells s1) (cells s2)
        | Inr (Inr y) \<Rightarrow> x = None \<and> cells s2 = (cells s1)\<lparr>infos := upd y (infos (cells s1))\<rparr>"
      by auto
    let ?c = "case r of Inr (Inr y) \<Rightarrow> (cells s1)\<lparr>infos := upd y (infos (cells s1))\<rparr> | _ \<Rightarrow> cells s1"
    have arrays: "arrays_ok (cstrs (cells s1)) (entry_arrays (cells s1))" by (rule fs_ok_arrays [OF s1(1)])
    have c: "statuses ?c st = Some status_clear" "arrays_ok (cstrs ?c) (entry_arrays ?c)"
      using clear arrays by (auto split: sum.split)
    have restored: "?c\<lparr>statuses := (statuses ?c)(st := None)\<rparr> = ?C"
      using s1(3) by (auto simp: s1(4) fun_upd_idem split: sum.split)
    have "(cells s2 = ?c \<or> (\<exists>k t. told st k t ?c (cells s2))) \<and> outcome x st s2 = Some (summary r)"
    proof (cases r)
      case (Inl e)
      with r show ?thesis by (simp add: outcome_def summary_def)
    next
      case (Inr q)
      show ?thesis
      proof (cases q)
        case (Inl f)
        obtain k t where f: "f = (k, t)" by force
        with Inr Inl r have tell: "x = None" "told st k t (cells s1) (cells s2)" by simp_all
        from told_read [OF this(2)] Inr Inl f tell show ?thesis by (auto simp: outcome_def summary_def)
      next
        case (Inr y)
        with \<open>r = Inr q\<close> r have "x = None" and c2: "cells s2 = (cells s1)\<lparr>infos := upd y (infos (cells s1))\<rparr>" by simp_all
        have "statuses (cells s2) st = Some status_clear" unfolding c2 using clear by simp
        then have "statuses (heap s2) st = Some status_clear" by simp
        then show ?thesis using Inr \<open>r = Inr q\<close> c2 \<open>x = None\<close> by (simp add: outcome_def summary_def status_message_def del: lit_Cons)
      qed
    qed
    with ex c restored show "\<exists>x s2 c. (do {
         (x, _, s) \<leftarrow> Execute N a st (lift_call call) () s1;
         res \<leftarrow> outcome x st s;
         Some (res, s)
       }) = Some (x, s2) \<and> fs_ok H s2 \<and> (cells s2 = c \<or> (\<exists>k t. told st k t c (cells s2))) \<and>
        statuses c st = Some status_clear \<and> arrays_ok (cstrs c) (entry_arrays c) \<and>
        (x = summary r \<and> view s2 = v \<and> c\<lparr>statuses := (statuses c)(st := None)\<rparr> = ?C)"
      by (intro exI [of _ "summary r"] exI [of _ s2] exI [of _ ?c]) simp
  qed
  then show ?thesis by blast
qed

lemma implements_checked:
  fixes N :: "('w, 'c, 'r, 'o, 't) hdfs_native"
  assumes "serves call g needs (\<lambda>_ f. f)" and "\<And>c x. needs c \<Longrightarrow> needs (c\<lparr>statuses := x\<rparr>)"
  shows "implements_on needs (checked N a call) (\<lambda>v. apfst summary (abs_execute N a g v))"
  unfolding implements_on_def
proof (intro allI impI)
  fix H and s :: "('w, 'c, 'r, 'o, 't) hdfs_fs"
  assume s: "fs_ok H s" "needs (cells s)"
  obtain r v where r: "abs_execute N a g (view s) = (r, v)" by force
  from checked_ok [OF assms s r] r
  show "\<exists>s'. checked N a call s = Some (fst (apfst summary (abs_execute N a g (view s))), s') \<and> fs_ok H s' \<and>
      view s' = snd (apfst summary (abs_execute N a g (view s))) \<and> cells s' = cells s"
    by (auto split: sum.splits)
qed

text \<open>The record a stat fills.\<close>

definition info_at :: "addr \<Rightarrow> (unit, 'c, 'r, 'o, 't) mem \<Rightarrow> bool" where
  "info_at i c \<longleftrightarrow> infos c i \<noteq> None"

definition info_of :: "FileStatus \<Rightarrow> FileInfo" where
  "info_of st = \<lparr>fi_length = fs_length st, fi_is_dir = fs_isdir st, fi_mtime = fs_modification_time st\<rparr>"

definition filled :: "exn + failure + FileStatus \<Rightarrow> FileInfo" where
  "filled r = (case r of Inr (Inr st) \<Rightarrow> info_of st | _ \<Rightarrow> blank_info)"

lemma implements_info:
  fixes N :: "('w, 'c, 'r, 'o, 't) hdfs_native"
  assumes "\<And>info. serves (call info) g (\<lambda>c. needs c \<and> info_at info c) (\<lambda>st f. f(info \<mapsto> info_of st))"
    and "\<And>c x. needs c \<Longrightarrow> needs (c\<lparr>statuses := x\<rparr>)" and "\<And>c x. needs c \<Longrightarrow> needs (c\<lparr>infos := x\<rparr>)"
  shows "implements_on needs
      (with_info (\<lambda>info s. do { (res, s) \<leftarrow> checked N a (call info) s; i \<leftarrow> infos (heap s) info; Some ((res, i), s) }))
      (\<lambda>v. apfst (\<lambda>r. (summary r, filled r)) (abs_execute N a g v))" (is "implements_on needs (with_info ?body) ?F")
  unfolding implements_on_def
proof (intro allI impI)
  fix H and s :: "('w, 'c, 'r, 'o, 't) hdfs_fs"
  assume s: "fs_ok H s" "needs (cells s)"
  obtain r v where r: "abs_execute N a g (view s) = (r, v)" by force
  have "\<exists>x s'. with_info ?body s = Some (x, s') \<and> fs_ok H s' \<and> (x = (summary r, filled r) \<and> view s' = v \<and> cells s' = cells s)"
  proof (rule with_info_ok [OF s(1)])
    fix i s1
    assume s1: "fs_ok H s1" "infos (cells s) i = None" "cells s1 = (cells s)\<lparr>infos := (infos (cells s))(i \<mapsto> blank_info)\<rparr>"
      "view s1 = view s"
    have needs: "needs (cells s1) \<and> info_at i (cells s1)"
      unfolding s1(3) using assms(3) s(2) by (simp add: info_at_def)
    have r1: "abs_execute N a g (view s1) = (r, v)" using r s1(4) by simp
    have stable: "needs c \<and> info_at i c \<Longrightarrow> needs (c\<lparr>statuses := x\<rparr>) \<and> info_at i (c\<lparr>statuses := x\<rparr>)" for c x
      using assms(2) by (simp add: info_at_def)
    from checked_ok [OF assms(1) stable s1(1) needs r1] obtain s2 where
      s2: "checked N a (call i) s1 = Some (summary r, s2)" "fs_ok H s2" "view s2 = v" and
      c2: "cells s2 = (case r of Inr (Inr y) \<Rightarrow> (cells s1)\<lparr>infos := (infos (cells s1))(i \<mapsto> info_of y)\<rparr> | _ \<Rightarrow> cells s1)"
      by blast
    have c2': "cells s2 = (cells s)\<lparr>infos := (infos (cells s))(i \<mapsto> filled r)\<rparr>"
      unfolding c2 s1(3) by (simp add: filled_def split: sum.split)
    then have "infos (cells s2) i = Some (filled r)" by simp
    then have "?body i s1 = Some ((summary r, filled r), s2)" using s2(1) by simp
    moreover have "(cells s2)\<lparr>infos := (infos (cells s2))(i := None)\<rparr> = cells s"
      unfolding c2' using s1(2) by (simp add: fun_upd_idem)
    ultimately show "\<exists>x s2. ?body i s1 = Some (x, s2) \<and> fs_ok H s2 \<and> (x = (summary r, filled r) \<and> view s2 = v \<and>
        (cells s2)\<lparr>infos := (infos (cells s2))(i := None)\<rparr> = cells s)"
      using s2(2,3) by blast
  qed
  with r show "\<exists>s'. with_info ?body s = Some (fst (?F (view s)), s') \<and> fs_ok H s' \<and> view s' = snd (?F (view s)) \<and> cells s' = cells s"
    by simp
qed

section \<open>The calls\<close>

text \<open>The functions of the client library the calls amount to.\<close>

definition spec_mkdirs :: "('w, 'c, 'r, 'o, 't) hdfs_native \<Rightarrow> rstring \<Rightarrow> ('c, 't) BridgeClient \<Rightarrow> 'w \<Rightarrow> (failure + unit) \<times> 'w" where
  "spec_mkdirs N p c w =
     (case mkdirs N c p w of (r, w) \<Rightarrow> (reply N (lit ''mkdirs '' @ quoted p @ lit '' failed'') r, w))"

definition spec_rename ::
  "('w, 'c, 'r, 'o, 't) hdfs_native \<Rightarrow> rstring \<Rightarrow> rstring \<Rightarrow> ('c, 't) BridgeClient \<Rightarrow> 'w \<Rightarrow> (failure + unit) \<times> 'w" where
  "spec_rename N p q c w =
     (case rename N c p q True w of (r, w) \<Rightarrow>
        (reply N (lit ''rename '' @ quoted p @ lit '' -> '' @ quoted q @ lit '' failed'') r, w))"

definition spec_delete ::
  "('w, 'c, 'r, 'o, 't) hdfs_native \<Rightarrow> bool \<Rightarrow> rstring \<Rightarrow> ('c, 't) BridgeClient \<Rightarrow> 'w \<Rightarrow> (failure + unit) \<times> 'w" where
  "spec_delete N recursive p c w =
     (case delete N c p recursive w of (r, w) \<Rightarrow>
        (case reply N (lit ''delete '' @ quoted p @ lit '' failed'') r of
           Inl f \<Rightarrow> Inl f
         | Inr deleted \<Rightarrow>
             if deleted then Inr ()
             else Inl (HDFS_ERR_NOT_FOUND, encode (cleaned (lit ''delete '' @ quoted p @ lit '': path not found''))), w))"

definition spec_info ::
  "('w, 'c, 'r, 'o, 't) hdfs_native \<Rightarrow> rstring \<Rightarrow> ('c, 't) BridgeClient \<Rightarrow> 'w \<Rightarrow> (failure + FileStatus) \<times> 'w" where
  "spec_info N p c w = (reply N (lit ''stat '' @ quoted p @ lit '' failed'') (get_file_info N c p w), w)"

lemma reply_simps [simp]:
  "reply N context (Inl e) = Inl (classify e, error_text N context e)" "reply N context (Inr y) = Inr y"
  by (simp_all add: reply_def)

named_theorems call_specs

declare spec_mkdirs_def [call_specs] spec_rename_def [call_specs] spec_delete_def [call_specs] spec_info_def [call_specs]
  hdfs_bridge_mkdirs_def [call_specs] hdfs_bridge_rename_def [call_specs] hdfs_bridge_delete_def [call_specs]
  hdfs_bridge_get_file_info_def [call_specs] arg_at_read [call_specs] fail_with_reported [call_specs]
  set_status_reported [call_specs] classify_not_ok [call_specs] reply_def [call_specs]

lemma other_codes [call_specs]: "HDFS_ERR_NOT_FOUND \<noteq> HDFS_OK" "HDFS_ERR_CONNECTION \<noteq> HDFS_OK"
  by (simp_all add: category_defs)

lemma servesI:
  assumes "\<And>m client st c r w. clients m client = Some c \<Longrightarrow> needs (cells_of m) \<Longrightarrow> st \<noteq> null \<Longrightarrow> statuses m st \<noteq> None \<Longrightarrow>
      g c (cluster m) = (r, w) \<Longrightarrow>
      case r of
        Inl (k, t) \<Rightarrow> k \<noteq> HDFS_OK \<and> call client st m = Some (- 1, reported st k t (m\<lparr>cluster := w\<rparr>))
      | Inr y \<Rightarrow> call client st m = Some (0, m\<lparr>infos := upd y (infos m), cluster := w\<rparr>)"
    and "\<And>c n y. needs c \<Longrightarrow> live_below n (infos c) \<Longrightarrow> live_below n (upd y (infos c))"
  shows "serves call g needs upd"
  using assms unfolding serves_def by blast

lemma mkdirs_serves:
  fixes N :: "('w, 'c, 'r, 'o, 't) hdfs_native"
  shows "serves (\<lambda>client st. hdfs_bridge_mkdirs N client path st) (spec_mkdirs N (decode_lossy bs)) (arg_at path bs) (\<lambda>_ f. f)"
proof (rule servesI)
  fix m :: "('w, 'c, 'r, 'o, 't) mem" and client st c r w
  assume a: "clients m client = Some c" "arg_at path bs (cells_of m)" "st \<noteq> null" "statuses m st \<noteq> None"
    "spec_mkdirs N (decode_lossy bs) c (cluster m) = (r, w)"
  obtain q w' where q: "mkdirs N c (decode_lossy bs) (cluster m) = (q, w')" by force
  show "case r of
        Inl (k, t) \<Rightarrow> k \<noteq> HDFS_OK \<and> hdfs_bridge_mkdirs N client path st m = Some (- 1, reported st k t (m\<lparr>cluster := w\<rparr>))
      | Inr y \<Rightarrow> hdfs_bridge_mkdirs N client path st m = Some (0, m\<lparr>infos := infos m, cluster := w\<rparr>)"
    using a q by (cases q) (auto simp: call_specs simp del: lit_Cons)
qed simp

lemma rename_serves:
  fixes N :: "('w, 'c, 'r, 'o, 't) hdfs_native"
  shows "serves (\<lambda>client st. hdfs_bridge_rename N client src dst True st) (spec_rename N (decode_lossy bs) (decode_lossy cs))
     (\<lambda>c. arg_at src bs c \<and> arg_at dst cs c) (\<lambda>_ f. f)"
proof (rule servesI)
  fix m :: "('w, 'c, 'r, 'o, 't) mem" and client st c r w
  assume a: "clients m client = Some c" "arg_at src bs (cells_of m) \<and> arg_at dst cs (cells_of m)" "st \<noteq> null"
    "statuses m st \<noteq> None" "spec_rename N (decode_lossy bs) (decode_lossy cs) c (cluster m) = (r, w)"
  obtain q w' where q: "rename N c (decode_lossy bs) (decode_lossy cs) True (cluster m) = (q, w')" by force
  show "case r of
        Inl (k, t) \<Rightarrow> k \<noteq> HDFS_OK \<and>
          hdfs_bridge_rename N client src dst True st m = Some (- 1, reported st k t (m\<lparr>cluster := w\<rparr>))
      | Inr y \<Rightarrow> hdfs_bridge_rename N client src dst True st m = Some (0, m\<lparr>infos := infos m, cluster := w\<rparr>)"
    using a q by (cases q) (auto simp: call_specs simp del: lit_Cons)
qed simp

lemma delete_serves:
  fixes N :: "('w, 'c, 'r, 'o, 't) hdfs_native"
  shows "serves (\<lambda>client st. hdfs_bridge_delete N client path recursive st) (spec_delete N recursive (decode_lossy bs))
     (arg_at path bs) (\<lambda>_ f. f)"
proof (rule servesI)
  fix m :: "('w, 'c, 'r, 'o, 't) mem" and client st c r w
  assume a: "clients m client = Some c" "arg_at path bs (cells_of m)" "st \<noteq> null" "statuses m st \<noteq> None"
    "spec_delete N recursive (decode_lossy bs) c (cluster m) = (r, w)"
  obtain q w' where q: "delete N c (decode_lossy bs) recursive (cluster m) = (q, w')" by force
  show "case r of
        Inl (k, t) \<Rightarrow> k \<noteq> HDFS_OK \<and>
          hdfs_bridge_delete N client path recursive st m = Some (- 1, reported st k t (m\<lparr>cluster := w\<rparr>))
      | Inr y \<Rightarrow> hdfs_bridge_delete N client path recursive st m = Some (0, m\<lparr>infos := infos m, cluster := w\<rparr>)"
    using a q by (cases q) (auto simp: call_specs split: if_splits simp del: lit_Cons)
qed simp

lemma info_serves:
  fixes N :: "('w, 'c, 'r, 'o, 't) hdfs_native"
  shows "serves (\<lambda>client st. hdfs_bridge_get_file_info N client path info st) (spec_info N (decode_lossy bs))
     (\<lambda>c. arg_at path bs c \<and> info_at info c) (\<lambda>st f. f(info \<mapsto> info_of st))"
proof (rule servesI)
  fix m :: "('w, 'c, 'r, 'o, 't) mem" and client st c r w
  assume a: "clients m client = Some c" "arg_at path bs (cells_of m) \<and> info_at info (cells_of m)" "st \<noteq> null"
    "statuses m st \<noteq> None" "spec_info N (decode_lossy bs) c (cluster m) = (r, w)"
  show "case r of
        Inl (k, t) \<Rightarrow> k \<noteq> HDFS_OK \<and>
          hdfs_bridge_get_file_info N client path info st m = Some (- 1, reported st k t (m\<lparr>cluster := w\<rparr>))
      | Inr y \<Rightarrow> hdfs_bridge_get_file_info N client path info st m =
          Some (0, m\<lparr>infos := (infos m)(info \<mapsto> info_of y), cluster := w\<rparr>)"
    using a by (cases "get_file_info N c (decode_lossy bs) (cluster m)")
      (auto simp: call_specs info_at_def info_of_def simp del: lit_Cons)
next
  fix c :: "(unit, 'c, 'r, 'o, 't) mem" and n y
  assume "arg_at path bs c \<and> info_at info c" "live_below n (infos c)"
  then show "live_below n ((infos c)(info \<mapsto> info_of y))" by (auto simp: info_at_def live_below_def)
qed

section \<open>Specifications of the operations\<close>

text \<open>
  A call on the authority and path of a URL, with what its failure and its success mean; an
  exception of the connection is passed on.
\<close>

definition abs_call ::
  "('w, 'c, 'r, 'o, 't) hdfs_native \<Rightarrow> cpp_string
     \<Rightarrow> (rstring \<Rightarrow> ('c, 't) BridgeClient \<Rightarrow> 'w \<Rightarrow> (failure + 'y) \<times> 'w) \<Rightarrow> (failure \<Rightarrow> exn + 'x) \<Rightarrow> ('y \<Rightarrow> exn + 'x)
     \<Rightarrow> ('w, 'c, 't) fs_view \<Rightarrow> (exn + 'x) \<times> ('w, 'c, 't) fs_view" where
  "abs_call N url g bad good v =
     (let (a, p) = ParseHdfsPath url
      in case abs_execute N a (g (decode_lossy (c_str p))) v of
           (Inl e, v) \<Rightarrow> (Inl e, v)
         | (Inr (Inl f), v) \<Rightarrow> (bad f, v)
         | (Inr (Inr y), v) \<Rightarrow> (good y, v))"

definition failed_with :: "cpp_string \<Rightarrow> failure \<Rightarrow> exn + 'x" where
  "failed_with what f = Inl (IOException (what @ lit '': '' @ snd f))"

definition not_found_or :: "cpp_string \<Rightarrow> failure \<Rightarrow> exn + bool" where
  "not_found_or what f = (if fst f = HDFS_ERR_NOT_FOUND then Inr False else failed_with what f)"

definition abs_move ::
  "('w, 'c, 'r, 'o, 't) hdfs_native \<Rightarrow> cpp_string \<Rightarrow> cpp_string
     \<Rightarrow> ('w, 'c, 't) fs_view \<Rightarrow> (exn + unit) \<times> ('w, 'c, 't) fs_view" where
  "abs_move N source target v =
     (if fst (ParseHdfsPath source) \<noteq> fst (ParseHdfsPath target) then
        (Inl (NotImplementedException (lit ''Cannot move HDFS files across different NameNodes ('' @
           quote source @ lit '' -> '' @ quote target @ lit '')'')), v)
      else abs_call N source (\<lambda>p. spec_rename N p (decode_lossy (c_str (snd (ParseHdfsPath target)))))
        (failed_with (lit ''Failed to move HDFS file '' @ quote source @ lit '' -> '' @ quote target)) Inr v)"

text \<open>No failure has the code \<open>HDFS_OK\<close>.\<close>

definition codes_ok :: "(('c, 't) BridgeClient \<Rightarrow> 'w \<Rightarrow> (failure + 'y) \<times> 'w) \<Rightarrow> bool" where
  "codes_ok g \<longleftrightarrow> (\<forall>c w k t w'. g c w = (Inl (k, t), w') \<longrightarrow> k \<noteq> HDFS_OK)"

lemma codes [simp]:
  "codes_ok (spec_mkdirs N p)" "codes_ok (spec_rename N p q)" "codes_ok (spec_delete N rec p)" "codes_ok (spec_info N p)"
  by (auto simp: codes_ok_def call_specs split: prod.splits sum.splits if_splits simp del: lit_Cons)

lemma attempt_codes: "codes_ok g \<Longrightarrow> abs_attempt N a g v = (Inr (Inl (k, t)), v') \<Longrightarrow> k \<noteq> HDFS_OK"
  unfolding codes_ok_def by (auto simp: abs_attempt_def split: prod.splits sum.splits) blast

lemma execute_codes: "codes_ok g \<Longrightarrow> abs_execute N a g v = (Inr (Inl (k, t)), v') \<Longrightarrow> k \<noteq> HDFS_OK"
  by (auto simp: abs_execute_def split: prod.splits sum.splits if_splits dest: attempt_codes)

text \<open>An operation that reads the summary of its call.\<close>

lemma abs_call_summary:
  assumes "ParseHdfsPath url = (a, p)" and "\<And>q. codes_ok (g q)"
    and "\<And>e. h (Inl e) = Inl e" and "\<And>k t. k \<noteq> HDFS_OK \<Longrightarrow> h (Inr (Inl (k, t))) = bad (k, t)" and "\<And>y. h (Inr (Inr y)) = good y"
  shows "apfst h (abs_execute N a (g (decode_lossy (c_str p))) v) = abs_call N url g bad good v"
proof -
  obtain r v' where r: "abs_execute N a (g (decode_lossy (c_str p))) v = (r, v')" by force
  show ?thesis
  proof (cases r)
    case (Inr q)
    show ?thesis
    proof (cases q)
      case (Inl f)
      obtain k t where "f = (k, t)" by force
      with r Inr Inl assms(4) [OF execute_codes [OF assms(2)]] show ?thesis by (simp add: abs_call_def assms(1))
    qed (use r Inr assms(5) in \<open>simp add: abs_call_def assms(1)\<close>)
  qed (use r assms(3) in \<open>simp add: abs_call_def assms(1)\<close>)
qed

section \<open>The operations implement their specifications\<close>

lemma implements_eq: "implements_on needs f F \<Longrightarrow> (\<And>v. F v = G v) \<Longrightarrow> implements_on needs f G"
  by (simp add: implements_on_def)

lemma implements_unit:
  assumes "ParseHdfsPath url = (a, p)" and "\<And>q. codes_ok (g q)"
    and "implements f (\<lambda>v. apfst summary (abs_execute N a (g (decode_lossy (c_str p))) v))"
  shows "implements (\<lambda>s. do { (res, s) \<leftarrow> f s; Some (throw_unless_ok what res, s) })
      (abs_call N url g (failed_with what) Inr)"
proof (rule implements_eq [OF implements_result [OF assms(3)]])
  fix v
  have "apfst (\<lambda>r. throw_unless_ok what (summary r)) (abs_execute N a (g (decode_lossy (c_str p))) v) =
      abs_call N url g (failed_with what) Inr v"
    by (rule abs_call_summary [where g = g, OF assms(1,2)])
      (simp_all add: throw_unless_ok_def summary_def failed_with_def call_specs del: lit_Cons)
  then show "apfst (throw_unless_ok what) (apfst summary (abs_execute N a (g (decode_lossy (c_str p))) v)) =
      abs_call N url g (failed_with what) Inr v"
    by (simp add: apfst_compose comp_def)
qed

lemma create_directory_implements:
  "implements (CreateDirectory N directory)
     (abs_call N directory (spec_mkdirs N) (failed_with (lit ''Failed to create HDFS directory '' @ quote directory)) Inr)"
proof -
  obtain a p where p: "ParseHdfsPath directory = (a, p)" by force
  have "implements (with_arg p (\<lambda>path. checked N a (\<lambda>client st. hdfs_bridge_mkdirs N client path st)))
      (\<lambda>v. apfst summary (abs_execute N a (spec_mkdirs N (decode_lossy (c_str p))) v))"
    by (rule implements_arg, simp, rule implements_checked [OF mkdirs_serves]) simp_all
  from implements_unit [where g = "spec_mkdirs N", OF p codes(1) this] show ?thesis
    unfolding CreateDirectory_def by (simp add: p del: lit_Cons)
qed

lemma remove_directory_implements:
  "implements (RemoveDirectory N directory)
     (abs_call N directory (spec_delete N True) (failed_with (lit ''Failed to remove HDFS directory '' @ quote directory)) Inr)"
proof -
  obtain a p where p: "ParseHdfsPath directory = (a, p)" by force
  have "implements (with_arg p (\<lambda>path. checked N a (\<lambda>client st. hdfs_bridge_delete N client path True st)))
      (\<lambda>v. apfst summary (abs_execute N a (spec_delete N True (decode_lossy (c_str p))) v))"
    by (rule implements_arg, simp, rule implements_checked [OF delete_serves]) simp_all
  from implements_unit [where g = "spec_delete N True", OF p codes(3) this] show ?thesis
    unfolding RemoveDirectory_def by (simp add: p del: lit_Cons)
qed

lemma remove_file_implements:
  "implements (RemoveFile N filename)
     (abs_call N filename (spec_delete N False) (failed_with (lit ''Failed to remove HDFS file '' @ quote filename)) Inr)"
proof -
  obtain a p where p: "ParseHdfsPath filename = (a, p)" by force
  have "implements (with_arg p (\<lambda>path. checked N a (\<lambda>client st. hdfs_bridge_delete N client path False st)))
      (\<lambda>v. apfst summary (abs_execute N a (spec_delete N False (decode_lossy (c_str p))) v))"
    by (rule implements_arg, simp, rule implements_checked [OF delete_serves]) simp_all
  from implements_unit [where g = "spec_delete N False", OF p codes(3) this] show ?thesis
    unfolding RemoveFile_def by (simp add: p del: lit_Cons)
qed

lemma move_file_implements: "implements (MoveFile N source target) (abs_move N source target)"
proof -
  obtain a p b q where p: "ParseHdfsPath source = (a, p)" "ParseHdfsPath target = (b, q)" by (meson surj_pair)
  show ?thesis
  proof (cases "a = b")
    case False
    then show ?thesis by (simp add: implements_on_def MoveFile_def abs_move_def p del: lit_Cons)
  next
    case True
    let ?g = "\<lambda>p. spec_rename N p (decode_lossy (c_str q))"
    have two: "implements_on (\<lambda>c. arg_at src (c_str p) c) (with_arg q (\<lambda>dst. checked N a (\<lambda>client st. hdfs_bridge_rename N client src dst True st)))
        (\<lambda>v. apfst summary (abs_execute N a (?g (decode_lossy (c_str p))) v))" for src
      by (rule implements_arg, rule implements_checked [OF rename_serves]) (auto simp: arg_at_def)
    have "implements (with_arg p (\<lambda>src. with_arg q (\<lambda>dst. checked N a (\<lambda>client st. hdfs_bridge_rename N client src dst True st))))
        (\<lambda>v. apfst summary (abs_execute N a (?g (decode_lossy (c_str p))) v))"
      by (rule implements_arg, simp add: two) simp
    from implements_unit [where g = ?g, OF p(1) codes(2) this] True show ?thesis
      unfolding MoveFile_def by (simp add: p abs_move_def [abs_def] del: lit_Cons)
  qed
qed

lemma checked_info_implements:
  assumes "ParseHdfsPath url = (a, p)"
  shows "implements (checked_info N url)
    (\<lambda>v. apfst (\<lambda>r. (summary r, filled r)) (abs_execute N a (spec_info N (decode_lossy (c_str p))) v))"
  unfolding checked_info_def assms prod.case Let_def
  by (rule implements_arg, simp, rule implements_info [OF info_serves]) simp_all

text \<open>The callers of \<open>checked_info\<close>.\<close>

lemma implements_from_info:
  assumes "\<And>e i. h (Inl e) i = Inl e" and "\<And>k t i. k \<noteq> HDFS_OK \<Longrightarrow> h (Inr (k, t)) i = bad (k, t)"
    and "\<And>t st. h (Inr (HDFS_OK, t)) (info_of st) = good st"
  shows "implements (\<lambda>s. do { ((res, info), s) \<leftarrow> checked_info N url s; Some (h res info, s) })
    (abs_call N url (spec_info N) bad good)"
proof -
  obtain a p where p: "ParseHdfsPath url = (a, p)" by force
  have "apfst (\<lambda>r. h (summary r) (filled r)) (abs_execute N a (spec_info N (decode_lossy (c_str p))) v) =
      abs_call N url (spec_info N) bad good v" for v
    using assms by (intro abs_call_summary [where g = "spec_info N", OF p codes(4)]) (simp_all add: summary_def filled_def)
  then have eq: "apfst (case_prod h) (apfst (\<lambda>r. (summary r, filled r)) (abs_execute N a (spec_info N (decode_lossy (c_str p))) v)) =
      abs_call N url (spec_info N) bad good v" for v
    by (simp add: apfst_compose comp_def)
  have "implements (\<lambda>s. do { (x, s) \<leftarrow> checked_info N url s; Some (case_prod h x, s) }) (abs_call N url (spec_info N) bad good)"
    by (rule implements_eq [OF implements_result [OF checked_info_implements [OF p]] eq])
  then show ?thesis by (simp add: case_prod_beta')
qed

lemma file_exists_implements:
  "implements (FileExists N filename)
     (abs_call N filename (spec_info N) (not_found_or (lit ''Failed to check HDFS file '' @ quote filename))
       (\<lambda>st. Inr (\<not> fs_isdir st)))"
  unfolding FileExists_def
  by (rule implements_from_info) (simp_all add: not_found_or_def failed_with_def info_of_def del: lit_Cons)

lemma directory_exists_implements:
  "implements (DirectoryExists N directory)
     (abs_call N directory (spec_info N) (not_found_or (lit ''Failed to check HDFS directory '' @ quote directory))
       (\<lambda>st. Inr (fs_isdir st)))"
  unfolding DirectoryExists_def
  by (rule implements_from_info) (simp_all add: not_found_or_def failed_with_def info_of_def del: lit_Cons)

lemma exists_implements:
  "implements (Exists N url)
     (abs_call N url (spec_info N) (not_found_or (lit ''Failed to check HDFS path '' @ quote url)) (\<lambda>st. Inr True))"
  unfolding Exists_def
  by (rule implements_from_info) (simp_all add: not_found_or_def failed_with_def del: lit_Cons)

lemma last_modified_implements:
  "implements (GetLastModifiedTime from_epoch_ms N handle_path)
     (abs_call N handle_path (spec_info N) (failed_with (lit ''Failed to stat HDFS file '' @ quote handle_path))
       (\<lambda>st. Inr (from_epoch_ms (ucast (fs_modification_time st)))))"
  unfolding GetLastModifiedTime_def
  by (rule implements_from_info) (simp_all add: failed_with_def info_of_def del: lit_Cons)

section \<open>Entries in the cells\<close>

text \<open>The cells with the entries of a batch built at address \<open>f\<close>, and what must be free there.\<close>

definition built :: "addr \<Rightarrow> FileStatus list \<Rightarrow> (unit, 'c, 'r, 'o, 't) mem \<Rightarrow> (unit, 'c, 'r, 'o, 't) mem" where
  "built f sts c = c\<lparr>cstrs := strs_at f sts (cstrs c),
     entry_arrays := (entry_arrays c)(f + 3 * length sts \<mapsto> entries_at f sts)\<rparr>"

definition free_above :: "addr \<Rightarrow> (unit, 'c, 'r, 'o, 't) mem \<Rightarrow> bool" where
  "free_above f c \<longleftrightarrow> 0 < f \<and> live_below f (cstrs c) \<and> live_below f (entry_arrays c)"

lemma built_at:
  assumes "cells_of m = built f sts c"
  shows "cstrs m = strs_at f sts (cstrs c)" "entry_arrays m = (entry_arrays c)(f + 3 * length sts \<mapsto> entries_at f sts)"
proof -
  have "cstrs (cells_of m) = strs_at f sts (cstrs c)"
    "entry_arrays (cells_of m) = (entry_arrays c)(f + 3 * length sts \<mapsto> entries_at f sts)"
    unfolding assms by (simp_all add: built_def)
  then show "cstrs m = strs_at f sts (cstrs c)" "entry_arrays m = (entry_arrays c)(f + 3 * length sts \<mapsto> entries_at f sts)"
    by simp_all
qed

lemma built_ok:
  assumes "fs_ok H s" and "cells_of m = built (fresh (heap s)) sts (cells s)"
    and "fresh m = fresh (heap s) + 3 * length sts + 1" and "clients m = clients (heap s)"
  shows "fs_ok H (s\<lparr>heap := m\<rparr>)"
proof (rule fs_ok_heap [OF assms(1) _ _ assms(4)])
  let ?b = "entries_built sts null (heap s)"
  have b: "heap_ok ?b" by (rule entries_built_heap_ok [OF fs_okD(1) [OF assms(1)]])
  have eq: "cells_of m = built (fresh (heap s)) sts (cells s)" by (rule assms(2))
  have "fresh m = fresh ?b" "cstrs m = cstrs ?b" "entry_arrays m = entry_arrays ?b" "clients m = clients ?b"
    using assms(3,4) built_at [OF eq] by (simp_all add: entries_built_def Let_def)
  moreover have "readers m = readers ?b" "writers m = writers ?b" "streams m = streams ?b" "args m = args ?b"
    using arg_cong [OF eq, of readers] arg_cong [OF eq, of writers] arg_cong [OF eq, of streams] arg_cong [OF eq, of args]
    by (simp_all add: built_def entries_built_def Let_def)
  ultimately show "heap_ok m" using b unfolding heap_ok_def mem_ok_def by simp
  have "statuses m = statuses (heap s)" "infos m = infos (heap s)" "counts m = counts (heap s)"
    using arg_cong [OF eq, of statuses] arg_cong [OF eq, of infos] arg_cong [OF eq, of counts]
    by (simp_all add: built_def)
  then show "cells_ok m"
    using fs_okD(3) [OF assms(1)] by (simp add: cells_ok_def assms(3) live_below_mono [of "fresh (heap s)"])
qed

lemma built_read:
  assumes "cells_of m = built f sts c" and "free_above f c"
  shows "MakeHdfsEntries authority (entries_at f sts) m = Some (map (entry_of authority) sts)"
  using built_at(1) [OF assms(1)] assms(2) strs_at_nth [of _ sts f "cstrs c"]
  by (intro make_entries_at) (simp_all add: free_above_def)

lemma built_free:
  assumes "cells_of m = built f sts c" and "free_above f c" and "sts \<noteq> []" and "length sts < 2 ^ 31"
  shows "hdfs_bridge_free_dir_entries (f + 3 * length sts) (of_nat (length sts)) m =
    Some (m\<lparr>cstrs := cstrs c, entry_arrays := entry_arrays c\<rparr>)"
proof -
  let ?p = "f + 3 * length sts"
  note at = built_at [OF assms(1)]
  have len: "sint (of_nat (length sts) :: i32) = int (length sts)" by (rule sint_of_nat_32 [OF assms(4)])
  have f: "0 < f" "live_below f (cstrs c)" "live_below f (entry_arrays c)" using assms(2) by (auto simp: free_above_def)
  have "free_strs [f ..< ?p] m = Some (m\<lparr>cstrs := cstrs c\<rparr>)"
    using free_strs_eq [of "[f ..< ?p]" m] strs_at_dom [of f _ sts "cstrs c"] strs_at_restored [OF f(2), of sts] f(1)
    by (fastforce simp: at(1))
  moreover have "(entry_arrays m)(?p := None) = entry_arrays c"
    using live_below_fresh [OF f(3), of ?p] by (auto simp: at(2) fun_eq_iff)
  moreover have "entry_arrays m ?p = Some (entries_at f sts)" by (simp add: at(2))
  ultimately show ?thesis
    using f(1) assms(3) by (simp add: hdfs_bridge_free_dir_entries_def len entries_at_strs)
qed

lemma built_freed:
  assumes "fs_ok H s" and "cells s = built f sts c" and "free_above f c" and "arrays_ok (cstrs c) (entry_arrays c)"
  defines "m \<equiv> (heap s)\<lparr>cstrs := cstrs c, entry_arrays := entry_arrays c\<rparr>"
  shows "fs_ok H (s\<lparr>heap := m\<rparr>)" "cells_of m = c" "view (s\<lparr>heap := m\<rparr>) = view s"
proof -
  let ?A = "- set [f ..< f + 3 * length sts]" and ?p = "f + 3 * length sts"
  note at = built_at [OF assms(2)]
  have f: "0 < f" "live_below f (cstrs c)" "live_below f (entry_arrays c)" using assms(3) by (auto simp: free_above_def)
  have "cstrs c = cstrs (heap s) |` ?A" using strs_at_restored [OF f(2), of sts] at(1) by simp
  moreover have "entry_arrays c = (entry_arrays (heap s))(?p := None)"
    using live_below_fresh [OF f(3), of ?p] by (auto simp: at(2) fun_eq_iff)
  ultimately have "mem_ok m" using mem_ok_fewer(5) [OF fs_okD(2) [OF assms(1)], of ?p ?A] by (simp add: m_def)
  then show "fs_ok H (s\<lparr>heap := m\<rparr>)"
    using fs_okD(3) [OF assms(1)] assms(4) by (intro fs_ok_heap [OF assms(1)]) (simp_all add: m_def heap_ok_def cells_ok_def)
  have "cells_of m = (cells s)\<lparr>cstrs := cstrs c, entry_arrays := entry_arrays c\<rparr>" by (simp add: m_def)
  then show "cells_of m = c" unfolding assms(2) built_def by simp
  show "view (s\<lparr>heap := m\<rparr>) = view s" by (simp add: view_heap_same m_def)
qed

section \<open>The metadata of one path\<close>

lemma stat_built:
  assumes "clients m client = Some c" and "read_cstr path m = Some p" and "get_file_info N c p (cluster m) = Inr info"
  shows "\<exists>m'. hdfs_bridge_stat N client path st m = Some (fresh m + 3, m') \<and> cells_of m' = built (fresh m) [info] (cells_of m) \<and>
    fresh m' = fresh m + 4 \<and> clients m' = clients m \<and> cluster m' = cluster m \<and> runtime_slot m' = runtime_slot m"
  using assms by (simp add: hdfs_bridge_stat_def status_to_entry_eq alloc_entries_def built_def)

lemma stat_op_ok:
  fixes N :: "('w, 'c, 'r, 'o, 't) hdfs_native"
  shows "bridge_op (stat_op N path) (spec_info N (decode_lossy bs)) (\<lambda>_. {#}) (arg_at path bs)
    (\<lambda>info entry c c'. \<exists>f. free_above f c \<and> entry = f + 3 \<and> c' = built f [info] c) (\<lambda>_. True)"
proof
  fix p H st c r w and l :: addr and s :: "('w, 'c, 'r, 'o, 't) hdfs_fs"
  assume s: "fs_ok (add_mset p ({#} + H)) s" "clients (heap s) p = Some c" "arg_at path bs (cells s)"
    "st \<noteq> null" "statuses (cells s) st = Some status_clear" "spec_info N (decode_lossy bs) c (cluster (heap s)) = (r, w)"
  have live: "statuses (heap s) st \<noteq> None" using s(5) by simp
  note path = arg_at_read [OF s(3)]
  have w: "w = cluster (heap s)" using s(6) by (simp add: spec_info_def)
  show "\<exists>l' good s'. stat_op N path p st l s = Some (l', good, s') \<and> connections s' = connections s \<and>
      fs_ok (add_mset p ({#} + H)) s' \<and> view s' = (view s)\<lparr>v_world := w\<rparr> \<and>
      (case r of
         Inl (k, t) \<Rightarrow> \<not> good \<and> k \<noteq> HDFS_OK \<and> True \<and> told st k t (cells s) (cells s')
       | Inr info \<Rightarrow> good \<and> (\<exists>f. free_above f (cells s) \<and> l' = f + 3 \<and> cells s' = built f [info] (cells s)))"
  proof (cases "get_file_info N c (decode_lossy bs) (cluster (heap s))")
    case (Inl e)
    let ?t = "error_text N (lit ''stat '' @ quoted (decode_lossy bs) @ lit '' failed'') e"
    let ?m = "reported st (classify e) ?t ((heap s)\<lparr>cluster := w\<rparr>)"
    have r: "r = Inl (classify e, ?t)" using s(6) Inl by (simp add: spec_info_def)
    have "stat_op N path p st l s = Some (null, False, s\<lparr>heap := ?m\<rparr>)"
      using s(2,4) live path Inl classify_not_ok [of e]
      by (simp add: stat_op_def hdfs_bridge_stat_def fail_with_reported w del: lit_Cons)
    with r report_ok [OF s(1,4) live refl, of "classify e" ?t w] classify_not_ok [of e] show ?thesis
      by (auto simp del: lit_Cons)
  next
    case (Inr info)
    have r: "r = Inr info" using s(6) Inr by (simp add: spec_info_def)
    from stat_built [OF s(2) path Inr, of st] obtain m' where m':
      "hdfs_bridge_stat N p path st (heap s) = Some (fresh (heap s) + 3, m')" "cells_of m' = built (fresh (heap s)) [info] (cells s)"
      "fresh m' = fresh (heap s) + 4" "clients m' = clients (heap s)" "cluster m' = cluster (heap s)"
      "runtime_slot m' = runtime_slot (heap s)" by blast
    have "statuses (cells_of m') st = Some status_clear" unfolding m'(2) using s(5) by (simp add: built_def)
    then have "stat_op N path p st l s = Some (fresh (heap s) + 3, True, s\<lparr>heap := m'\<rparr>)"
      using m'(1) by (simp add: stat_op_def)
    moreover have "free_above (fresh (heap s)) (cells s)"
      using fs_okD(2) [OF s(1)] by (simp add: free_above_def mem_ok_def)
    moreover have "fs_ok (add_mset p ({#} + H)) (s\<lparr>heap := m'\<rparr>)"
      by (rule built_ok [OF s(1) m'(2)]) (simp_all add: m'(3,4))
    moreover have "view (s\<lparr>heap := m'\<rparr>) = (view s)\<lparr>v_world := w\<rparr>" using m'(4-6) w by (simp add: view_heap)
    ultimately show ?thesis using r m'(2) by auto
  qed
qed

text \<open>A block with a status, a call, and what follows it.\<close>

lemma status_execute:
  fixes s :: "('w, 'c, 'r, 'o, 't) hdfs_fs"
  assumes "bridge_op op g held needs post bad" and "\<And>c x. needs c \<Longrightarrow> needs (c\<lparr>statuses := x\<rparr>)"
    and "fs_ok (held l + H) s" and "needs (cells s)" and "abs_execute N a g (view s) = (r, v)"
    and rest: "\<And>st x l' s2 c. st \<noteq> null \<Longrightarrow> statuses (cells s) st = None \<Longrightarrow>
      c = (cells s)\<lparr>statuses := (statuses (cells s))(st \<mapsto> status_clear)\<rparr> \<Longrightarrow>
      fs_ok (held l' + H) s2 \<Longrightarrow> view s2 = v \<Longrightarrow>
      (case r of
         Inl e \<Rightarrow> x = Some e \<and> cells s2 = c
       | Inr (Inl (k, t)) \<Rightarrow> x = None \<and> k \<noteq> HDFS_OK \<and> bad l' \<and> told st k t c (cells s2)
       | Inr (Inr y) \<Rightarrow> x = None \<and> post y l' c (cells s2)) \<Longrightarrow>
      \<exists>y s3 c3. k st x l' s2 = Some (y, s3) \<and> fs_ok (H' y) s3 \<and> (cells s3 = c3 \<or> (\<exists>k t. told st k t c3 (cells s3))) \<and>
        statuses c3 st = Some status_clear \<and> arrays_ok (cstrs c3) (entry_arrays c3) \<and>
        Q y (view s3) (c3\<lparr>statuses := (statuses c3)(st := None)\<rparr>)"
  shows "\<exists>y s'. with_status (\<lambda>st s. do { (x, l, s) \<leftarrow> Execute N a st op l s; k st x l s }) s = Some (y, s') \<and>
    fs_ok (H' y) s' \<and> Q y (view s') (cells s')"
proof (rule with_status_ok [OF assms(3)])
  fix st s1
  assume s1: "fs_ok (held l + H) s1" "st \<noteq> null" "statuses (cells s) st = None"
    "cells s1 = (cells s)\<lparr>statuses := (statuses (cells s))(st \<mapsto> status_clear)\<rparr>" "view s1 = view s"
  have needs: "needs (cells s1)" and clear: "statuses (cells s1) st = Some status_clear"
    unfolding s1(4) using assms(2,4) by simp_all
  have abs: "abs_execute N a g (view s1) = (r, v)" using s1(5) assms(5) by simp
  from bridge_op.refines [OF assms(1) s1(1) needs s1(2) clear abs] obtain x l' s2 where
    ex: "Execute N a st op l s1 = Some (x, l', s2)" "fs_ok (held l' + H) s2" "view s2 = v" and
    r: "case r of Inl e \<Rightarrow> x = Some e \<and> cells s2 = cells s1
      | Inr (Inl (k, t)) \<Rightarrow> x = None \<and> k \<noteq> HDFS_OK \<and> bad l' \<and> told st k t (cells s1) (cells s2)
      | Inr (Inr y) \<Rightarrow> x = None \<and> post y l' (cells s1) (cells s2)"
    by blast
  from rest [OF s1(2,3,4) ex(2,3) r] ex(1)
  show "\<exists>y s3 c3. (do { (x, l, s) \<leftarrow> Execute N a st op l s1; k st x l s }) = Some (y, s3) \<and> fs_ok (H' y) s3 \<and>
      (cells s3 = c3 \<or> (\<exists>k t. told st k t c3 (cells s3))) \<and> statuses c3 st = Some status_clear \<and>
      arrays_ok (cstrs c3) (entry_arrays c3) \<and> Q y (view s3) (c3\<lparr>statuses := (statuses c3)(st := None)\<rparr>)"
    by simp
qed

text \<open>The cells of a block before its call.\<close>

lemma block_cells:
  assumes "fs_ok H s" and "statuses (cells s) st = None" and "c = (cells s)\<lparr>statuses := (statuses (cells s))(st \<mapsto> status_clear)\<rparr>"
  shows "statuses c st = Some status_clear" "arrays_ok (cstrs c) (entry_arrays c)"
    "c\<lparr>statuses := (statuses c)(st := None)\<rparr> = cells s"
  using fs_ok_arrays [OF assms(1)] assms(2) by (simp_all add: assms(3) fun_upd_idem)

lemma outcome_simps:
  "outcome (Some e) st s = Some (Inl e)"
  "told st k t c (cells s) \<Longrightarrow> outcome None st s = Some (Inr (k, t))"
  "statuses (cells s) st = Some status_clear \<Longrightarrow> outcome None st s = Some (Inr (HDFS_OK, lit ''unknown error''))"
  using told_read [of st k t c s] by (auto simp: outcome_def status_message_def simp del: lit_Cons)

definition abs_stat ::
  "('w, 'c, 'r, 'o, 't) hdfs_native \<Rightarrow> cpp_string \<Rightarrow> ('w, 'c, 't) fs_view \<Rightarrow> (exn + HdfsEntry) \<times> ('w, 'c, 't) fs_view" where
  "abs_stat N url =
     abs_call N url (spec_info N) (failed_with (lit ''Failed to stat HDFS path '' @ quote url))
       (\<lambda>st. Inr (entry_of (fst (ParseHdfsPath url)) st))"

lemma stat_end_ok:
  fixes s :: "('w, 'c, 'r, 'o, 't) hdfs_fs"
  assumes s: "fs_ok H s" and c: "statuses c st = Some status_clear" "arrays_ok (cstrs c) (entry_arrays c)"
    and r: "case r of
         Inl e \<Rightarrow> x = Some e \<and> cells s = c
       | Inr (Inl (k, t)) \<Rightarrow> x = None \<and> k \<noteq> HDFS_OK \<and> True \<and> told st k t c (cells s)
       | Inr (Inr info) \<Rightarrow> x = None \<and> (\<exists>f. free_above f c \<and> entry = f + 3 \<and> cells s = built f [info] c)"
  shows "\<exists>s'. stat_end a url st x entry s = Some
      (case r of Inl e \<Rightarrow> Inl e | Inr (Inl f) \<Rightarrow> failed_with (lit ''Failed to stat HDFS path '' @ quote url) f
        | Inr (Inr st) \<Rightarrow> Inr (entry_of a st), s') \<and>
    fs_ok H s' \<and> view s' = view s \<and> (cells s' = c \<or> (\<exists>k t. told st k t c (cells s')))"
proof (cases r)
  case (Inl e)
  with r s show ?thesis by (simp add: stat_end_def outcome_simps)
next
  case (Inr q)
  show ?thesis
  proof (cases q)
    case (Inl f)
    obtain k t where f: "f = (k, t)" by force
    with \<open>r = Inr q\<close> Inl r have tell: "x = None" "k \<noteq> HDFS_OK" "told st k t c (cells s)" by simp_all
    with \<open>r = Inr q\<close> Inl f s show ?thesis
      by (auto simp: stat_end_def outcome_simps(2) [OF tell(3)] failed_with_def simp del: lit_Cons)
  next
    case (Inr info)
    with \<open>r = Inr q\<close> r obtain f where f: "x = None" "free_above f c" "entry = f + 3" "cells s = built f [info] c" by auto
    have clear: "statuses (cells s) st = Some status_clear" unfolding f(4) using c(1) by (simp add: built_def)
    have es: "entry_arrays (heap s) entry = Some (entries_at f [info])" using built_at(2) [OF f(4)] f(3) by simp
    have "MakeHdfsEntry a (entry_at f info) (heap s) = Some (entry_of a info)"
      using built_read [OF f(4,2), of a] by (auto split: bind_splits)
    moreover have "hdfs_bridge_free_dir_entries entry 1 (heap s) = Some ((heap s)\<lparr>cstrs := cstrs c, entry_arrays := entry_arrays c\<rparr>)"
      using built_free [OF f(4,2)] f(3) by simp
    ultimately show ?thesis
      using \<open>r = Inr q\<close> Inr f(1) es built_freed [OF s f(4,2) c(2)] outcome_simps(3) [OF clear]
      by (simp add: stat_end_def)
  qed
qed

lemma stat_implements:
  fixes N :: "('w, 'c, 'r, 'o, 't) hdfs_native"
  shows "implements (Stat N url) (abs_stat N url)"
proof -
  obtain a p where p: "ParseHdfsPath url = (a, p)" by force
  let ?k = "\<lambda>path st s. do { (x, entry, s) \<leftarrow> Execute N a st (stat_op N path) null s; stat_end a url st x entry s }"
  let ?x = "\<lambda>r. case r of Inl e \<Rightarrow> Inl e | Inr (Inl f) \<Rightarrow> failed_with (lit ''Failed to stat HDFS path '' @ quote url) f
        | Inr (Inr st) \<Rightarrow> Inr (entry_of a st)"
  let ?F = "\<lambda>v. apfst ?x (abs_execute N a (spec_info N (decode_lossy (c_str p))) v)"
  have inner: "implements_on (\<lambda>c. True \<and> arg_at path (c_str p) c) (with_status (?k path)) ?F" for path
    unfolding implements_on_def
  proof (intro allI impI)
    fix H and s :: "('w, 'c, 'r, 'o, 't) hdfs_fs"
    assume s: "fs_ok H s" "True \<and> arg_at path (c_str p) (cells s)"
    obtain r v where r: "abs_execute N a (spec_info N (decode_lossy (c_str p))) (view s) = (r, v)" by force
    have ok: "fs_ok ({#} + H) s" "arg_at path (c_str p) (cells s)" using s by simp_all
    have "\<exists>y s'. with_status (?k path) s = Some (y, s') \<and> fs_ok H s' \<and> (y = ?x r \<and> view s' = v \<and> cells s' = cells s)"
    proof (rule status_execute [OF stat_op_ok _ ok r])
      fix st x entry s2 c
      assume c: "st \<noteq> null" "statuses (cells s) st = None" "c = (cells s)\<lparr>statuses := (statuses (cells s))(st \<mapsto> status_clear)\<rparr>"
        and s2: "fs_ok ({#} + H) s2" "view s2 = v"
        and case_r: "case r of
         Inl e \<Rightarrow> x = Some e \<and> cells s2 = c
       | Inr (Inl (k, t)) \<Rightarrow> x = None \<and> k \<noteq> HDFS_OK \<and> True \<and> told st k t c (cells s2)
       | Inr (Inr info) \<Rightarrow> x = None \<and> (\<exists>f. free_above f c \<and> entry = f + 3 \<and> cells s2 = built f [info] c)"
      note c' = block_cells [OF s(1) c(2,3)]
      have "fs_ok H s2" using s2(1) by simp
      from stat_end_ok [OF this c'(1,2) case_r, of a url] obtain s' where
        "stat_end a url st x entry s2 = Some (?x r, s')" "fs_ok H s'" "view s' = view s2"
        "cells s' = c \<or> (\<exists>k t. told st k t c (cells s'))" by blast
      with c' s2(2) show "\<exists>y s3 c3. stat_end a url st x entry s2 = Some (y, s3) \<and> fs_ok H s3 \<and>
        (cells s3 = c3 \<or> (\<exists>k t. told st k t c3 (cells s3))) \<and> statuses c3 st = Some status_clear \<and>
        arrays_ok (cstrs c3) (entry_arrays c3) \<and>
        (y = ?x r \<and> view s3 = v \<and> c3\<lparr>statuses := (statuses c3)(st := None)\<rparr> = cells s)"
        by blast
    qed simp
    with r show "\<exists>s'. with_status (?k path) s = Some (fst (?F (view s)), s') \<and> fs_ok H s' \<and>
        view s' = snd (?F (view s)) \<and> cells s' = cells s"
      by simp
  qed
  have "implements (with_arg p (\<lambda>path. with_status (?k path))) ?F"
    by (rule implements_arg [OF inner]) simp
  moreover have "?F v = abs_stat N url v" for v
    unfolding abs_stat_def by (simp add: abs_call_def p split: prod.split sum.split)
  ultimately have "implements (with_arg p (\<lambda>path. with_status (?k path))) (abs_stat N url)"
    by (rule implements_eq)
  then show ?thesis unfolding Stat_def by (simp add: p)
qed

end
