(* ===== verification/Hdfs_Files.thy ===== *)
theory Hdfs_Files
  imports Hdfs_Metadata
begin

text \<open>
  Open files of \<^verbatim>\<open>HdfsFileSystem\<close> (\<^verbatim>\<open>src/hdfs_filesystem.cpp\<close>, \<^verbatim>\<open>HdfsFileHandle\<close> of the header):
  opening, positional and streaming reads, streaming writes, the cursor, closing and the end of a
  handle. The results: an open handle holds its client, so that nothing it uses is freed before it
  ends; streaming reads deliver the bytes of the file in order; whatever is done with a handle,
  its end gives back what it holds.
\<close>

section \<open>Handles\<close>

text \<open>\<open>h_client\<close> is the shared pointer to the client; \<open>position\<close> and \<open>length\<close> are of 64 bits.\<close>

record HdfsFileHandle =
  h_path :: cpp_string
  h_client :: addr
  h_reader :: addr
  h_writer :: addr
  h_position :: u64
  h_length :: u64

text \<open>What the code asks the flags, a class of DuckDB.\<close>

record FileOpenFlags =
  OpenForWriting :: bool
  OverwriteExistingFile :: bool
  ReturnNullIfNotExists :: bool

section \<open>Opening\<close>

text \<open>
  The lambdas capture the new handle and \<^verbatim>\<open>opened_on\<close>, whose assignment retains the client and
  releases the one it held before.
\<close>

definition open_op ::
  "('w, 'c, 'r, 'o, 't) hdfs_native \<Rightarrow> addr \<Rightarrow> addr \<Rightarrow> addr \<Rightarrow> addr \<times> addr
     \<Rightarrow> ('w, 'c, 'r, 'o, 't) hdfs_fs \<Rightarrow> ((addr \<times> addr) \<times> bool \<times> ('w, 'c, 'r, 'o, 't) hdfs_fs) option" where
  "open_op N path client st l s =
     do {
       (reader, m) \<leftarrow> hdfs_bridge_open N client path st (heap s);
       s \<leftarrow> release (snd l) (retain client (s\<lparr>heap := m\<rparr>));
       Some ((reader, client), reader \<noteq> null, s)
     }"

definition create_op ::
  "('w, 'c, 'r, 'o, 't) hdfs_native \<Rightarrow> bool \<Rightarrow> addr \<Rightarrow> addr \<Rightarrow> addr \<Rightarrow> addr \<times> addr
     \<Rightarrow> ('w, 'c, 'r, 'o, 't) hdfs_fs \<Rightarrow> ((addr \<times> addr) \<times> bool \<times> ('w, 'c, 'r, 'o, 't) hdfs_fs) option" where
  "create_op N overw path client st l s =
     do {
       (writer, m) \<leftarrow> hdfs_bridge_create N client path overw st (heap s);
       s \<leftarrow> release (snd l) (retain client (s\<lparr>heap := m\<rparr>));
       Some ((writer, client), writer \<noteq> null, s)
     }"

text \<open>What follows the calls; \<^verbatim>\<open>opened_on\<close> ends with the function unless it moves into the handle.\<close>

definition create_end ::
  "cpp_string \<Rightarrow> addr \<Rightarrow> exn option \<Rightarrow> addr \<times> addr
     \<Rightarrow> ('w, 'c, 'r, 'o, 't) hdfs_fs \<Rightarrow> ((exn + HdfsFileHandle option) \<times> ('w, 'c, 'r, 'o, 't) hdfs_fs) option" where
  "create_end path st x l s =
     (let (writer, opened_on) = l
      in case x of
           Some e \<Rightarrow> do { s \<leftarrow> release opened_on s; Some (Inl e, s) }
         | None \<Rightarrow>
             if writer = null then do {
               message \<leftarrow> status_message st (heap s);
               s \<leftarrow> release opened_on s;
               Some (Inl (IOException (lit ''Failed to open HDFS file for writing '' @ quote path @ lit '': '' @ message)), s)
             }
             else Some (Inr (Some \<lparr>h_path = path, h_client = opened_on, h_reader = null, h_writer = writer,
               h_position = 0, h_length = 0\<rparr>), s))"

definition open_end ::
  "('w, 'c, 'r, 'o, 't) hdfs_native \<Rightarrow> cpp_string \<Rightarrow> bool \<Rightarrow> addr \<Rightarrow> exn option \<Rightarrow> addr \<times> addr
     \<Rightarrow> ('w, 'c, 'r, 'o, 't) hdfs_fs \<Rightarrow> ((exn + HdfsFileHandle option) \<times> ('w, 'c, 'r, 'o, 't) hdfs_fs) option" where
  "open_end N path null_if_missing st x l s =
     (let (reader, opened_on) = l
      in case x of
           Some e \<Rightarrow> do { s \<leftarrow> release opened_on s; Some (Inl e, s) }
         | None \<Rightarrow>
             if reader = null then do {
               t \<leftarrow> statuses (heap s) st;
               message \<leftarrow> status_message st (heap s);
               s \<leftarrow> release opened_on s;
               Some (if code t = HDFS_ERR_NOT_FOUND \<and> null_if_missing then Inr None
                 else Inl (IOException (lit ''Failed to open HDFS file for reading '' @ quote path @ lit '': '' @ message)), s)
             }
             else do {
               size \<leftarrow> hdfs_bridge_file_size N reader (heap s);
               Some (Inr (Some \<lparr>h_path = path, h_client = opened_on, h_reader = reader, h_writer = null,
                 h_position = 0, h_length = (if sint size < 0 then 0 else size)\<rparr>), s)
             })"

definition OpenFile ::
  "('w, 'c, 'r, 'o, 't) hdfs_native \<Rightarrow> cpp_string \<Rightarrow> FileOpenFlags
     \<Rightarrow> ('w, 'c, 'r, 'o, 't) hdfs_fs \<Rightarrow> ((exn + HdfsFileHandle option) \<times> ('w, 'c, 'r, 'o, 't) hdfs_fs) option" where
  "OpenFile N path flags s =
     (let (authority, hdfs_path) = ParseHdfsPath path
      in if OpenForWriting flags then
           with_arg hdfs_path (\<lambda>arg. with_status (\<lambda>st s. do {
             (x, l, s) \<leftarrow> Execute N authority st (create_op N (OverwriteExistingFile flags) arg) (null, null) s;
             create_end path st x l s
           })) s
         else
           with_arg hdfs_path (\<lambda>arg. with_status (\<lambda>st s. do {
             (x, l, s) \<leftarrow> Execute N authority st (open_op N arg) (null, null) s;
             open_end N path (ReturnNullIfNotExists flags) st x l s
           })) s)"

section \<open>Reading\<close>

definition show_int :: "int \<Rightarrow> cpp_string" where
  "show_int i = (if i < 0 then lit ''-'' @ show_nat (nat (- i)) else show_nat (nat i))"

text \<open>\<^verbatim>\<open>Read(handle, buffer, nr_bytes, location)\<close>; the test is on unsigned numbers.\<close>

definition ReadAt ::
  "('w, 'c, 'r, 'o, 't) hdfs_native \<Rightarrow> HdfsFileHandle \<Rightarrow> addr \<Rightarrow> i64 \<Rightarrow> u64
     \<Rightarrow> ('w, 'c, 'r, 'o, 't) hdfs_fs \<Rightarrow> ((exn + unit) \<times> ('w, 'c, 'r, 'o, 't) hdfs_fs) option" where
  "ReadAt N h buffer nr_bytes location s =
     (if h_reader h = null then Some (Inl (IOException (lit ''File not opened for reading: '' @ h_path h)), s)
      else if nr_bytes = 0 then Some (Inr (), s)
      else if location > h_length h \<or> ucast nr_bytes > h_length h - location then
        Some (Inl (IOException (lit ''Cannot read '' @ show_int (sint nr_bytes) @ lit '' bytes at offset '' @
          show_nat (unat location) @ lit '' from HDFS file '' @ quote (h_path h) @ lit '' of size '' @
          show_nat (unat (h_length h)))), s)
      else with_status (\<lambda>st s. do {
        (res, m) \<leftarrow> hdfs_bridge_read_range N (h_reader h) buffer nr_bytes location st (heap s);
        message \<leftarrow> status_message st m;
        Some (if sint res < 0 then Inl (IOException (lit ''Failed to read from HDFS file '' @ quote (h_path h) @ lit '': '' @ message))
              else Inr (), s\<lparr>heap := m\<rparr>)
      }) s)"

text \<open>\<^verbatim>\<open>Read(handle, buffer, nr_bytes)\<close>; an exception leaves the cursor alone.\<close>

definition Read ::
  "('w, 'c, 'r, 'o, 't) hdfs_native \<Rightarrow> HdfsFileHandle \<Rightarrow> addr \<Rightarrow> i64
     \<Rightarrow> ('w, 'c, 'r, 'o, 't) hdfs_fs \<Rightarrow> ((exn + i64) \<times> HdfsFileHandle \<times> ('w, 'c, 'r, 'o, 't) hdfs_fs) option" where
  "Read N h buffer nr_bytes s =
     (if h_position h \<ge> h_length h then Some (Inr 0, h, s)
      else (let to_read = nr_bytes;
                to_read = (if h_position h + ucast to_read > h_length h then ucast (h_length h - h_position h) else to_read)
            in if sint to_read \<le> 0 then Some (Inr 0, h, s)
               else do {
                 (r, s) \<leftarrow> ReadAt N h buffer to_read (h_position h) s;
                 case r of
                   Inl e \<Rightarrow> Some (Inl e, h, s)
                 | Inr _ \<Rightarrow> Some (Inr to_read, h\<lparr>h_position := h_position h + ucast to_read\<rparr>, s)
               }))"

section \<open>Writing\<close>

definition WriteAt ::
  "HdfsFileHandle \<Rightarrow> addr \<Rightarrow> i64 \<Rightarrow> u64
     \<Rightarrow> ('w, 'c, 'r, 'o, 't) hdfs_fs \<Rightarrow> ((exn + unit) \<times> ('w, 'c, 'r, 'o, 't) hdfs_fs) option" where
  "WriteAt h buffer nr_bytes location s =
     Some (Inl (NotImplementedException (lit ''Random/positional writes are not supported on HDFS (append-only)'')), s)"

definition Write ::
  "('w, 'c, 'r, 'o, 't) hdfs_native \<Rightarrow> HdfsFileHandle \<Rightarrow> addr \<Rightarrow> i64
     \<Rightarrow> ('w, 'c, 'r, 'o, 't) hdfs_fs \<Rightarrow> ((exn + i64) \<times> HdfsFileHandle \<times> ('w, 'c, 'r, 'o, 't) hdfs_fs) option" where
  "Write N h buffer nr_bytes s =
     (if h_writer h = null then Some (Inl (IOException (lit ''File not opened for writing: '' @ h_path h)), h, s)
      else do {
        (r, s) \<leftarrow> with_status (\<lambda>st s. do {
          (res, m) \<leftarrow> hdfs_bridge_write N (h_writer h) buffer nr_bytes st (heap s);
          message \<leftarrow> status_message st m;
          Some (if sint res < 0 then Inl (IOException (lit ''Failed to write to HDFS file '' @ quote (h_path h) @ lit '': '' @ message))
                else Inr res, s\<lparr>heap := m\<rparr>)
        }) s;
        case r of
          Inl e \<Rightarrow> Some (Inl e, h, s)
        | Inr res \<Rightarrow> Some (Inr res, h\<lparr>h_position := h_position h + ucast res, h_length := h_length h + ucast res\<rparr>, s)
      })"

section \<open>Cursor and end\<close>

definition Seek :: "HdfsFileHandle \<Rightarrow> u64 \<Rightarrow> HdfsFileHandle" where
  "Seek h location = h\<lparr>h_position := location\<rparr>"

definition SeekPosition :: "HdfsFileHandle \<Rightarrow> u64" where
  "SeekPosition h = h_position h"

definition Reset :: "HdfsFileHandle \<Rightarrow> HdfsFileHandle" where
  "Reset h = h\<lparr>h_position := 0\<rparr>"

definition GetFileSize :: "HdfsFileHandle \<Rightarrow> i64" where
  "GetFileSize h = ucast (h_length h)"

definition Close ::
  "('w, 'c, 'r, 'o, 't) hdfs_native \<Rightarrow> HdfsFileHandle
     \<Rightarrow> ('w, 'c, 'r, 'o, 't) hdfs_fs \<Rightarrow> ((exn + unit) \<times> HdfsFileHandle \<times> ('w, 'c, 'r, 'o, 't) hdfs_fs) option" where
  "Close N h s =
     do {
       (h, s) \<leftarrow> (if h_reader h \<noteq> null then do {
            m \<leftarrow> hdfs_bridge_close_reader (h_reader h) (heap s);
            Some (h\<lparr>h_reader := null\<rparr>, s\<lparr>heap := m\<rparr>)
          } else Some (h, s));
       if h_writer h \<noteq> null then do {
         let w = h_writer h;
         let h = h\<lparr>h_writer := null\<rparr>;
         (r, s) \<leftarrow> with_status (\<lambda>st s. do {
           (res, m) \<leftarrow> hdfs_bridge_close_writer N w st (heap s);
           message \<leftarrow> status_message st m;
           Some (if sint res < 0 then Inl (IOException (lit ''Failed to close HDFS file '' @ quote (h_path h) @ lit '': '' @ message))
                 else Inr (), s\<lparr>heap := m\<rparr>)
         }) s;
         Some (r, h, s)
       }
       else Some (Inr (), h, s)
     }"

text \<open>The destructor: an exception of \<open>Close\<close> is swallowed, then the client pointer ends.\<close>

definition end_handle ::
  "('w, 'c, 'r, 'o, 't) hdfs_native \<Rightarrow> HdfsFileHandle \<Rightarrow> ('w, 'c, 'r, 'o, 't) hdfs_fs \<Rightarrow> ('w, 'c, 'r, 'o, 't) hdfs_fs option" where
  "end_handle N h s = do { (_, h, s) \<leftarrow> Close N h s; release (h_client h) s }"

section \<open>Opening keeps the client\<close>

text \<open>The pointer a shared pointer holds.\<close>

definition holding :: "addr \<Rightarrow> addr multiset" where
  "holding p = (if p = null then {#} else {#p#})"

lemma holding_simps [simp]: "holding null = {#}" "p \<noteq> null \<Longrightarrow> holding p = {#p#}"
  by (simp_all add: holding_def)

lemma assign_ok:
  assumes "fs_ok (add_mset p (holding old + H)) s"
  shows "\<exists>s'. release old (retain p s) = Some s' \<and> fs_ok (add_mset p (holding p + H)) s' \<and> view s' = view s \<and>
    cells s' = cells s \<and> connections s' = connections s"
proof -
  have p: "p \<noteq> null" "clients (heap s) p \<noteq> None" using fs_ok_held [OF assms] by simp_all
  have r: "fs_ok (add_mset p (add_mset p (holding old + H))) (retain p s)" by (rule retain_ok [OF assms p(2)])
  show ?thesis
  proof (cases "old = null")
    case True
    with r p show ?thesis by (simp add: release_def)
  next
    case False
    with r have "fs_ok (add_mset old (add_mset p (add_mset p H))) (retain p s)" by (simp add: add_mset_commute)
    from release_ok [OF this] p show ?thesis by auto
  qed
qed

definition spec_open :: "('w, 'c, 'r, 'o, 't) hdfs_native \<Rightarrow> rstring \<Rightarrow> ('c, 't) BridgeClient \<Rightarrow> 'w
     \<Rightarrow> (failure + ('r, 't) BridgeReader) \<times> 'w" where
  "spec_open N p c w = (reply N (lit ''open '' @ quoted p @ lit '' for reading failed'') (open_reader N c p w), w)"

definition spec_create :: "('w, 'c, 'r, 'o, 't) hdfs_native \<Rightarrow> bool \<Rightarrow> rstring \<Rightarrow> ('c, 't) BridgeClient \<Rightarrow> 'w
     \<Rightarrow> (failure + ('o, 't) BridgeWriter) \<times> 'w" where
  "spec_create N ow p c w =
     (case create N c p ow w of (r, w) \<Rightarrow> (reply N (lit ''create '' @ quoted p @ lit '' for writing failed'') r, w))"

text \<open>A new reader, or writer, in the cells.\<close>

definition reader_added :: "('r, 't) BridgeReader \<Rightarrow> addr \<Rightarrow> (unit, 'c, 'r, 'o, 't) mem \<Rightarrow> (unit, 'c, 'r, 'o, 't) mem \<Rightarrow> bool" where
  "reader_added rd p c c' \<longleftrightarrow> p \<noteq> null \<and> readers c p = None \<and> c' = c\<lparr>readers := (readers c)(p \<mapsto> rd)\<rparr>"

definition writer_added :: "('o, 't) BridgeWriter \<Rightarrow> addr \<Rightarrow> (unit, 'c, 'r, 'o, 't) mem \<Rightarrow> (unit, 'c, 'r, 'o, 't) mem \<Rightarrow> bool" where
  "writer_added wr p c c' \<longleftrightarrow> p \<noteq> null \<and> writers c p = None \<and> c' = c\<lparr>writers := (writers c)(p \<mapsto> wr)\<rparr>"

lemma alloc_handle_ok:
  assumes "fs_ok H s"
  shows "fs_ok H (s\<lparr>heap := snd (alloc_reader rd ((heap s)\<lparr>cluster := w\<rparr>))\<rparr>)"
    "fs_ok H (s\<lparr>heap := snd (alloc_writer wr ((heap s)\<lparr>cluster := w\<rparr>))\<rparr>)"
    "reader_added rd (fresh (heap s)) (cells s) (cells_of (snd (alloc_reader rd ((heap s)\<lparr>cluster := w\<rparr>))))"
    "writer_added wr (fresh (heap s)) (cells s) (cells_of (snd (alloc_writer wr ((heap s)\<lparr>cluster := w\<rparr>))))"
proof -
  note ok = fs_okD [OF assms]
  have mem: "mem_ok ((heap s)\<lparr>cluster := w\<rparr>)" using ok(2) by simp
  have cells: "cells_ok ((heap s)\<lparr>fresh := Suc (fresh (heap s)), cluster := w\<rparr>)"
    using ok(3) by (simp add: cells_ok_def live_below_mono [of "fresh (heap s)" _ "Suc (fresh (heap s))"])
  show "fs_ok H (s\<lparr>heap := snd (alloc_reader rd ((heap s)\<lparr>cluster := w\<rparr>))\<rparr>)"
    using mem_ok_handles(2) [OF mem, of rd] ok(1) cells
    by (intro fs_ok_heap [OF assms]) (simp_all add: heap_ok_def alloc_reader_def cells_ok_def)
  show "fs_ok H (s\<lparr>heap := snd (alloc_writer wr ((heap s)\<lparr>cluster := w\<rparr>))\<rparr>)"
    using mem_ok_handles(3) [OF mem, of wr] ok(1) cells
    by (intro fs_ok_heap [OF assms]) (simp_all add: heap_ok_def alloc_writer_def cells_ok_def)
  have "readers (heap s) (fresh (heap s)) = None" "writers (heap s) (fresh (heap s)) = None"
    using ok(2) live_below_fresh [of "fresh (heap s)" "readers (heap s)"] live_below_fresh [of "fresh (heap s)" "writers (heap s)"]
    by (simp_all add: mem_ok_def)
  then show "reader_added rd (fresh (heap s)) (cells s) (cells_of (snd (alloc_reader rd ((heap s)\<lparr>cluster := w\<rparr>))))"
    "writer_added wr (fresh (heap s)) (cells s) (cells_of (snd (alloc_writer wr ((heap s)\<lparr>cluster := w\<rparr>))))"
    using ok(4) by (simp_all add: reader_added_def writer_added_def alloc_reader_def alloc_writer_def)
qed

lemma create_op_ok:
  fixes N :: "('w, 'c, 'r, 'o, 't) hdfs_native"
  shows "bridge_op (create_op N ow path) (spec_create N ow (decode_lossy bs)) (\<lambda>l. holding (snd l)) (arg_at path bs)
    (\<lambda>wr l c c'. writer_added wr (fst l) c c' \<and> snd l \<noteq> null) (\<lambda>l. fst l = null)"
proof
  fix p H st c r w and l :: "addr \<times> addr" and s :: "('w, 'c, 'r, 'o, 't) hdfs_fs"
  assume s: "fs_ok (add_mset p (holding (snd l) + H)) s" "clients (heap s) p = Some c" "arg_at path bs (cells s)"
    "st \<noteq> null" "statuses (cells s) st = Some status_clear" "spec_create N ow (decode_lossy bs) c (cluster (heap s)) = (r, w)"
  have live: "statuses (heap s) st \<noteq> None" using s(5) by simp
  note path = arg_at_read [OF s(3)]
  have p: "p \<noteq> null" using fs_ok_held(1) [OF s(1)] .
  obtain q where q: "create N c (decode_lossy bs) ow (cluster (heap s)) = (q, w)"
    using s(6) by (auto simp: spec_create_def split: prod.splits)
  show "\<exists>l' good s'. create_op N ow path p st l s = Some (l', good, s') \<and> connections s' = connections s \<and>
      fs_ok (add_mset p (holding (snd l') + H)) s' \<and> view s' = (view s)\<lparr>v_world := w\<rparr> \<and>
      (case r of
         Inl (k, t) \<Rightarrow> \<not> good \<and> k \<noteq> HDFS_OK \<and> fst l' = null \<and> told st k t (cells s) (cells s')
       | Inr wr \<Rightarrow> good \<and> writer_added wr (fst l') (cells s) (cells s') \<and> snd l' \<noteq> null)"
  proof (cases q)
    case (Inl e)
    let ?t = "error_text N (lit ''create '' @ quoted (decode_lossy bs) @ lit '' for writing failed'') e"
    let ?s = "s\<lparr>heap := reported st (classify e) ?t ((heap s)\<lparr>cluster := w\<rparr>)\<rparr>"
    have r: "r = Inl (classify e, ?t)" using s(6) Inl q by (simp add: spec_create_def)
    note rep = report_ok [OF s(1,4) live refl, of "classify e" ?t w]
    from assign_ok [OF rep(1)] obtain s' where s': "release (snd l) (retain p ?s) = Some s'"
      "fs_ok (add_mset p (holding p + H)) s'" "view s' = view ?s" "cells s' = cells ?s" "connections s' = connections ?s"
      by blast
    have "create_op N ow path p st l s = Some ((null, p), False, s')"
      using s(2,4) live path Inl q s'(1)
      by (simp add: create_op_def hdfs_bridge_create_def fail_with_reported del: lit_Cons)
    with r rep s' classify_not_ok [of e] show ?thesis by (auto simp del: lit_Cons)
  next
    case (Inr wr)
    let ?s = "s\<lparr>heap := snd (alloc_writer wr ((heap s)\<lparr>cluster := w\<rparr>))\<rparr>"
    have r: "r = Inr wr" using s(6) Inr q by (simp add: spec_create_def)
    note new = alloc_handle_ok(2,4) [OF s(1), of wr w]
    from assign_ok [OF new(1)] obtain s' where s': "release (snd l) (retain p ?s) = Some s'"
      "fs_ok (add_mset p (holding p + H)) s'" "view s' = view ?s" "cells s' = cells ?s" "connections s' = connections ?s"
      by blast
    have "create_op N ow path p st l s = Some ((fresh (heap s), p), True, s')"
      using s(2) path Inr q s'(1) fs_okD(4) [OF s(1)]
      by (simp add: create_op_def hdfs_bridge_create_def alloc_writer_def)
    moreover have "view ?s = (view s)\<lparr>v_world := w\<rparr>" by (simp add: view_heap alloc_writer_def)
    ultimately show ?thesis using r new(2) s' p by auto
  qed
qed

lemma open_op_ok:
  fixes N :: "('w, 'c, 'r, 'o, 't) hdfs_native"
  shows "bridge_op (open_op N path) (spec_open N (decode_lossy bs)) (\<lambda>l. holding (snd l)) (arg_at path bs)
    (\<lambda>rd l c c'. reader_added rd (fst l) c c' \<and> snd l \<noteq> null) (\<lambda>l. fst l = null)"
proof
  fix p H st c r w and l :: "addr \<times> addr" and s :: "('w, 'c, 'r, 'o, 't) hdfs_fs"
  assume s: "fs_ok (add_mset p (holding (snd l) + H)) s" "clients (heap s) p = Some c" "arg_at path bs (cells s)"
    "st \<noteq> null" "statuses (cells s) st = Some status_clear" "spec_open N (decode_lossy bs) c (cluster (heap s)) = (r, w)"
  have live: "statuses (heap s) st \<noteq> None" using s(5) by simp
  note path = arg_at_read [OF s(3)]
  have p: "p \<noteq> null" using fs_ok_held(1) [OF s(1)] .
  have w: "w = cluster (heap s)" using s(6) by (simp add: spec_open_def)
  have same: "(heap s)\<lparr>cluster := w\<rparr> = heap s" by (simp add: w)
  show "\<exists>l' good s'. open_op N path p st l s = Some (l', good, s') \<and> connections s' = connections s \<and>
      fs_ok (add_mset p (holding (snd l') + H)) s' \<and> view s' = (view s)\<lparr>v_world := w\<rparr> \<and>
      (case r of
         Inl (k, t) \<Rightarrow> \<not> good \<and> k \<noteq> HDFS_OK \<and> fst l' = null \<and> told st k t (cells s) (cells s')
       | Inr rd \<Rightarrow> good \<and> reader_added rd (fst l') (cells s) (cells s') \<and> snd l' \<noteq> null)"
  proof (cases "open_reader N c (decode_lossy bs) (cluster (heap s))")
    case (Inl e)
    let ?t = "error_text N (lit ''open '' @ quoted (decode_lossy bs) @ lit '' for reading failed'') e"
    let ?s = "s\<lparr>heap := reported st (classify e) ?t ((heap s)\<lparr>cluster := w\<rparr>)\<rparr>"
    have r: "r = Inl (classify e, ?t)" using s(6) Inl by (simp add: spec_open_def)
    note rep = report_ok [OF s(1,4) live refl, of "classify e" ?t w]
    from assign_ok [OF rep(1)] obtain s' where s': "release (snd l) (retain p ?s) = Some s'"
      "fs_ok (add_mset p (holding p + H)) s'" "view s' = view ?s" "cells s' = cells ?s" "connections s' = connections ?s"
      by blast
    have "open_op N path p st l s = Some ((null, p), False, s')"
      using s(2,4) live path Inl s'(1) unfolding same
      by (simp add: open_op_def hdfs_bridge_open_def fail_with_reported del: lit_Cons)
    with r rep s' classify_not_ok [of e] show ?thesis by (auto simp del: lit_Cons)
  next
    case (Inr rd)
    let ?s = "s\<lparr>heap := snd (alloc_reader rd ((heap s)\<lparr>cluster := w\<rparr>))\<rparr>"
    have r: "r = Inr rd" using s(6) Inr by (simp add: spec_open_def)
    note new = alloc_handle_ok(1,3) [OF s(1), of rd w]
    from assign_ok [OF new(1)] obtain s' where s': "release (snd l) (retain p ?s) = Some s'"
      "fs_ok (add_mset p (holding p + H)) s'" "view s' = view ?s" "cells s' = cells ?s" "connections s' = connections ?s"
      by blast
    have "open_op N path p st l s = Some ((fresh (heap s), p), True, s')"
      using s(2) path Inr s'(1) fs_okD(4) [OF s(1)] unfolding same
      by (simp add: open_op_def hdfs_bridge_open_def alloc_reader_def)
    moreover have "view ?s = (view s)\<lparr>v_world := w\<rparr>" by (simp add: view_heap alloc_reader_def)
    ultimately show ?thesis using r new(2) s' p by auto
  qed
qed

text \<open>The pointers that are held after an opening.\<close>

definition held_after :: "addr multiset \<Rightarrow> exn + HdfsFileHandle option \<Rightarrow> addr multiset" where
  "held_after H r = (case r of Inr (Some h) \<Rightarrow> add_mset (h_client h) H | _ \<Rightarrow> H)"

definition file_size :: "('w, 'c, 'r, 'o, 't) hdfs_native \<Rightarrow> ('r, 't) BridgeReader \<Rightarrow> u64" where
  "file_size N rd = (if sint (file_length N rd) < 0 then 0 else file_length N rd)"

text \<open>The end of a pointer, if there is one.\<close>

lemma release_failed:
  assumes "fs_ok (holding p + H) s"
  shows "\<exists>s'. release p s = Some s' \<and> fs_ok H s' \<and> view s' = view s \<and> cells s' = cells s"
proof (cases "p = null")
  case True
  with assms show ?thesis by (simp add: release_def)
next
  case False
  with assms have "fs_ok (add_mset p H) s" by simp
  from release_ok [OF this] show ?thesis by blast
qed

text \<open>
  What an opening returns, and the cells after it: \<open>bad\<close> a failure, \<open>good\<close> the handle for what was
  added to the cells at an address.
\<close>

definition opened ::
  "(failure \<Rightarrow> exn + HdfsFileHandle option) \<Rightarrow> ('y \<Rightarrow> addr \<Rightarrow> addr \<Rightarrow> HdfsFileHandle)
     \<Rightarrow> ('y \<Rightarrow> addr \<Rightarrow> (unit, 'c, 'r, 'o, 't) mem \<Rightarrow> (unit, 'c, 'r, 'o, 't) mem \<Rightarrow> bool) \<Rightarrow> exn + failure + 'y
     \<Rightarrow> exn + HdfsFileHandle option \<Rightarrow> (unit, 'c, 'r, 'o, 't) mem \<Rightarrow> (unit, 'c, 'r, 'o, 't) mem \<Rightarrow> bool" where
  "opened bad good added r y c c' \<longleftrightarrow>
     (case r of
        Inl e \<Rightarrow> y = Inl e \<and> c' = c
      | Inr (Inl f) \<Rightarrow> y = bad f \<and> c' = c
      | Inr (Inr q) \<Rightarrow> \<exists>p client. y = Inr (Some (good q p client)) \<and> added q p c c')"

text \<open>The contract of what is added: it stays when a local cell is given back.\<close>

locale added_handle =
  fixes added :: "'y \<Rightarrow> addr \<Rightarrow> (unit, 'c, 'r, 'o, 't) mem \<Rightarrow> (unit, 'c, 'r, 'o, 't) mem \<Rightarrow> bool"
  assumes keeps: "added q p c c' \<Longrightarrow> statuses c' = statuses c \<and> cstrs c' = cstrs c \<and> entry_arrays c' = entry_arrays c"
    and without_status: "statuses d st = None \<Longrightarrow> added q p (d\<lparr>statuses := (statuses d)(st \<mapsto> x)\<rparr>) c' \<Longrightarrow>
      added q p d (c'\<lparr>statuses := (statuses c')(st := None)\<rparr>)"
    and without_arg: "args d a = None \<Longrightarrow> added q p (d\<lparr>args := (args d)(a \<mapsto> bs)\<rparr>) c' \<Longrightarrow>
      added q p d (c'\<lparr>args := (args c')(a := None)\<rparr>)"
begin

text \<open>An opening in its block.\<close>

lemma open_block:
  fixes s :: "('w, 'c, 'r, 'o, 't) hdfs_fs"
  assumes "fs_ok H s" and "abs_execute N a g (view s) = (r, v)"
    and op: "\<And>arg. bridge_op (op arg) g (\<lambda>l. holding (snd l)) (arg_at arg (c_str p))
      (\<lambda>q l c c'. added q (fst l) c c' \<and> snd l \<noteq> null) (\<lambda>l. fst l = null)"
    and failing: "\<And>st x l s2 c. (case r of
         Inl e \<Rightarrow> x = Some e \<and> cells s2 = c
       | Inr (Inl (k, t)) \<Rightarrow> x = None \<and> fst l = null \<and> told st k t c (cells s2)
       | Inr (Inr q) \<Rightarrow> False) \<Longrightarrow>
       \<exists>y. fin st x l s2 = do { s2 \<leftarrow> release (snd l) (s2 :: ('w, 'c, 'r, 'o, 't) hdfs_fs); Some (y, s2) } \<and>
         (case r of Inl e \<Rightarrow> y = Inl e | Inr (Inl f) \<Rightarrow> y = bad f \<and> held_after H y = H | Inr (Inr q) \<Rightarrow> True)"
    and going: "\<And>st q l s2 c. r = Inr (Inr q) \<Longrightarrow> added q (fst l) c (cells s2) \<Longrightarrow>
       fin st None l s2 = Some (Inr (Some (good q (fst l) (snd l))), s2) \<and> h_client (good q (fst l) (snd l)) = snd l"
  shows "\<exists>y s'. with_arg p (\<lambda>arg. with_status (\<lambda>st s. do { (x, l, s) \<leftarrow> Execute N a st (op arg) (null, null) s; fin st x l s })) s =
      Some (y, s') \<and> fs_ok (held_after H y) s' \<and> (view s' = v \<and> opened bad good added r y (cells s) (cells s'))"
proof (rule with_arg_ok [OF assms(1)])
  let ?k = "\<lambda>arg st s. do { (x, l, s) \<leftarrow> Execute N a st (op arg) (null, null) s; fin st x l s }"
  let ?R = "opened bad good added r"
  fix arg s1
  assume s1: "fs_ok H s1" "arg \<noteq> null" "args (cells s) arg = None" "cstrs (cells s) arg = None"
    "cells s1 = (cells s)\<lparr>args := (args (cells s))(arg \<mapsto> c_str p)\<rparr>" "view s1 = view s"
  have arg: "arg_at arg (c_str p) (cells s1)" unfolding s1(5) using s1(4) by (simp add: arg_at_def)
  have ok: "fs_ok (holding (snd (null, null)) + H) s1" and ex: "abs_execute N a g (view s1) = (r, v)"
    using s1(1,6) assms(2) by simp_all
  have "\<exists>y s'. with_status (?k arg) s1 = Some (y, s') \<and> fs_ok (held_after H y) s' \<and> (view s' = v \<and> ?R y (cells s1) (cells s'))"
  proof (rule status_execute [OF op _ ok arg ex])
    fix st x l s2 c
    assume c: "st \<noteq> null" "statuses (cells s1) st = None" "c = (cells s1)\<lparr>statuses := (statuses (cells s1))(st \<mapsto> status_clear)\<rparr>"
      and s2: "fs_ok (holding (snd l) + H) s2" "view s2 = v"
      and r: "case r of
         Inl e \<Rightarrow> x = Some e \<and> cells s2 = c
       | Inr (Inl (k, t)) \<Rightarrow> x = None \<and> k \<noteq> HDFS_OK \<and> fst l = null \<and> told st k t c (cells s2)
       | Inr (Inr q) \<Rightarrow> x = None \<and> added q (fst l) c (cells s2) \<and> snd l \<noteq> null"
    note c' = block_cells [OF s1(1) c(2,3)]
    show "\<exists>y s3 c3. fin st x l s2 = Some (y, s3) \<and> fs_ok (held_after H y) s3 \<and>
        (cells s3 = c3 \<or> (\<exists>k t. told st k t c3 (cells s3))) \<and> statuses c3 st = Some status_clear \<and>
        arrays_ok (cstrs c3) (entry_arrays c3) \<and> (view s3 = v \<and> ?R y (cells s1) (c3\<lparr>statuses := (statuses c3)(st := None)\<rparr>))"
    proof (cases "\<exists>q. r = Inr (Inr q)")
      case True
      then obtain q where q: "r = Inr (Inr q)" by blast
      with r have x: "x = None" "added q (fst l) c (cells s2)" "snd l \<noteq> null" by simp_all
      have "added q (fst l) (cells s1) ((cells s2)\<lparr>statuses := (statuses (cells s2))(st := None)\<rparr>)"
        using without_status [OF c(2) x(2) [unfolded c(3)]] .
      then have "?R (Inr (Some (good q (fst l) (snd l)))) (cells s1) ((cells s2)\<lparr>statuses := (statuses (cells s2))(st := None)\<rparr>)"
        unfolding opened_def q by auto
      moreover have "fs_ok (add_mset (snd l) H) s2" using s2(1) x(3) by simp
      ultimately show ?thesis
        using going [OF q x(2), of st] x(1) q s2(2) keeps [OF x(2)] c'
        by (intro exI [of _ "Inr (Some (good q (fst l) (snd l)))"] exI [of _ s2] exI [of _ "cells s2"])
          (simp add: held_after_def)
    next
      case False
      with r have "case r of
         Inl e \<Rightarrow> x = Some e \<and> cells s2 = c
       | Inr (Inl (k, t)) \<Rightarrow> x = None \<and> fst l = null \<and> told st k t c (cells s2)
       | Inr (Inr q) \<Rightarrow> False"
        by (auto split: sum.splits)
      from failing [OF this] obtain y where fin: "fin st x l s2 = do { s2 \<leftarrow> release (snd l) s2; Some (y, s2) }" and
        y: "case r of Inl e \<Rightarrow> y = Inl e | Inr (Inl f) \<Rightarrow> y = bad f \<and> held_after H y = H | Inr (Inr q) \<Rightarrow> True" by blast
      from release_failed [OF s2(1)] obtain s3 where s3: "release (snd l) s2 = Some s3" "fs_ok H s3" "view s3 = view s2"
        "cells s3 = cells s2" by blast
      have "held_after H y = H" "?R y (cells s1) (cells s1)" using y False
        by (auto simp: held_after_def opened_def split: sum.splits)
      moreover have "cells s3 = c \<or> (\<exists>k t. told st k t c (cells s3))" using r s3(4) False by (auto split: sum.splits)
      ultimately show ?thesis using fin s3(1-3) s2(2) c'
        by (intro exI [of _ y] exI [of _ s3] exI [of _ c]) simp
    qed
  qed simp
  then obtain y s2 where y: "with_status (?k arg) s1 = Some (y, s2)" "fs_ok (held_after H y) s2" "view s2 = v"
    "?R y (cells s1) (cells s2)" by blast
  have "?R y (cells s) ((cells s2)\<lparr>args := (args (cells s2))(arg := None)\<rparr>)"
  proof (cases "\<exists>q. r = Inr (Inr q)")
    case True
    then obtain q where q: "r = Inr (Inr q)" by blast
    with y(4) obtain n client where n: "y = Inr (Some (good q n client))" "added q n (cells s1) (cells s2)"
      by (auto simp: opened_def)
    from without_arg [OF s1(3) n(2) [unfolded s1(5)]] n(1) show ?thesis unfolding opened_def q by auto
  next
    case False
    with y(4) have "cells s2 = cells s1" by (auto simp: opened_def split: sum.splits)
    moreover have "(cells s1)\<lparr>args := (args (cells s1))(arg := None)\<rparr> = cells s"
      unfolding s1(5) using s1(3) by (simp add: fun_upd_idem)
    ultimately show ?thesis using y(4) False by (auto simp: opened_def split: sum.splits)
  qed
  with y show "\<exists>y s2. with_status (?k arg) s1 = Some (y, s2) \<and> fs_ok (held_after H y) s2 \<and>
      (view s2 = v \<and> ?R y (cells s) ((cells s2)\<lparr>args := (args (cells s2))(arg := None)\<rparr>))"
    by blast
qed

end

interpretation new_reader: added_handle "reader_added :: ('r, 't) BridgeReader \<Rightarrow> addr \<Rightarrow> (unit, 'c, 'r, 'o, 't) mem \<Rightarrow> _"
  by unfold_locales (auto simp: reader_added_def fun_upd_idem)

interpretation new_writer: added_handle "writer_added :: ('o, 't) BridgeWriter \<Rightarrow> addr \<Rightarrow> (unit, 'c, 'r, 'o, 't) mem \<Rightarrow> _"
  by unfold_locales (auto simp: writer_added_def fun_upd_idem)

lemma failing_cases [consumes 1, case_names thrown tell]:
  assumes "case r of
         Inl e \<Rightarrow> x = Some e \<and> d = c
       | Inr (Inl (k, t)) \<Rightarrow> x = None \<and> p = null \<and> told st k t c d
       | Inr (Inr q) \<Rightarrow> False"
  obtains e where "r = Inl e" "x = Some e"
  | k t where "r = Inr (Inl (k, t))" "x = None" "p = null" "told st k t c d"
  using assms by (auto split: sum.splits)

text \<open>The handles of the two openings.\<close>

definition reading_handle :: "('w, 'c, 'r, 'o, 't) hdfs_native \<Rightarrow> cpp_string \<Rightarrow> ('r, 't) BridgeReader \<Rightarrow> addr \<Rightarrow> addr \<Rightarrow> HdfsFileHandle" where
  "reading_handle N path rd p client = \<lparr>h_path = path, h_client = client, h_reader = p, h_writer = null,
     h_position = 0, h_length = file_size N rd\<rparr>"

definition writing_handle :: "cpp_string \<Rightarrow> 'y \<Rightarrow> addr \<Rightarrow> addr \<Rightarrow> HdfsFileHandle" where
  "writing_handle path wr p client = \<lparr>h_path = path, h_client = client, h_reader = null, h_writer = p,
     h_position = 0, h_length = 0\<rparr>"

definition missing_or :: "bool \<Rightarrow> cpp_string \<Rightarrow> failure \<Rightarrow> exn + HdfsFileHandle option" where
  "missing_or missing_ok path f = (if fst f = HDFS_ERR_NOT_FOUND \<and> missing_ok then Inr None
     else failed_with (lit ''Failed to open HDFS file for reading '' @ quote path) f)"

lemma open_for_reading_ok:
  fixes s :: "('w, 'c, 'r, 'o, 't) hdfs_fs"
  assumes "fs_ok H s" and "\<not> OpenForWriting flags" and "ParseHdfsPath path = (a, p)"
    and "abs_execute N a (spec_open N (decode_lossy (c_str p))) (view s) = (r, v)"
  shows "\<exists>y s'. OpenFile N path flags s = Some (y, s') \<and> fs_ok (held_after H y) s' \<and> (view s' = v \<and>
    opened (missing_or (ReturnNullIfNotExists flags) path) (reading_handle N path) reader_added r y (cells s) (cells s'))"
proof -
  have "\<exists>y s'. with_arg p (\<lambda>arg. with_status (\<lambda>st s. do {
        (x, l, s) \<leftarrow> Execute N a st (open_op N arg) (null, null) s;
        open_end N path (ReturnNullIfNotExists flags) st x l s })) s = Some (y, s') \<and> fs_ok (held_after H y) s' \<and> (view s' = v \<and>
    opened (missing_or (ReturnNullIfNotExists flags) path) (reading_handle N path) reader_added r y (cells s) (cells s'))"
  proof (rule new_reader.open_block [OF assms(1,4) open_op_ok])
    fix st x c and l :: "addr \<times> addr" and s2 :: "('w, 'c, 'r, 'o, 't) hdfs_fs"
    assume "case r of
         Inl e \<Rightarrow> x = Some e \<and> cells s2 = c
       | Inr (Inl (k, t)) \<Rightarrow> x = None \<and> fst l = null \<and> told st k t c (cells s2)
       | Inr (Inr q) \<Rightarrow> False"
    then show "\<exists>y. open_end N path (ReturnNullIfNotExists flags) st x l s2 = do { s2 \<leftarrow> release (snd l) s2; Some (y, s2) } \<and>
         (case r of Inl e \<Rightarrow> y = Inl e | Inr (Inl f) \<Rightarrow> y = missing_or (ReturnNullIfNotExists flags) path f \<and> held_after H y = H
          | Inr (Inr q) \<Rightarrow> True)"
    proof (cases rule: failing_cases)
      case (tell k t)
      with told_read [OF tell(4)] show ?thesis
        by (cases l) (auto simp: open_end_def missing_or_def failed_with_def held_after_def simp del: lit_Cons)
    qed (cases l, simp add: open_end_def)
  next
    fix st q c and l :: "addr \<times> addr" and s2 :: "('w, 'c, 'r, 'o, 't) hdfs_fs"
    assume "reader_added q (fst l) c (cells s2)"
    moreover from this have "readers (cells s2) (fst l) = Some q" by (simp add: reader_added_def)
    then have "readers (heap s2) (fst l) = Some q" by simp
    ultimately show "open_end N path (ReturnNullIfNotExists flags) st None l s2 =
        Some (Inr (Some (reading_handle N path q (fst l) (snd l))), s2) \<and> h_client (reading_handle N path q (fst l) (snd l)) = snd l"
      by (simp add: open_end_def reading_handle_def reader_added_def hdfs_bridge_file_size_def file_size_def Let_def case_prod_beta)
  qed
  with assms(2,3) show ?thesis by (simp add: OpenFile_def)
qed

lemma open_for_writing_ok:
  fixes s :: "('w, 'c, 'r, 'o, 't) hdfs_fs"
  assumes "fs_ok H s" and "OpenForWriting flags" and "ParseHdfsPath path = (a, p)"
    and "abs_execute N a (spec_create N (OverwriteExistingFile flags) (decode_lossy (c_str p))) (view s) = (r, v)"
  shows "\<exists>y s'. OpenFile N path flags s = Some (y, s') \<and> fs_ok (held_after H y) s' \<and> (view s' = v \<and>
    opened (failed_with (lit ''Failed to open HDFS file for writing '' @ quote path)) (writing_handle path) writer_added
      r y (cells s) (cells s'))"
proof -
  have "\<exists>y s'. with_arg p (\<lambda>arg. with_status (\<lambda>st s. do {
        (x, l, s) \<leftarrow> Execute N a st (create_op N (OverwriteExistingFile flags) arg) (null, null) s;
        create_end path st x l s })) s = Some (y, s') \<and> fs_ok (held_after H y) s' \<and> (view s' = v \<and>
    opened (failed_with (lit ''Failed to open HDFS file for writing '' @ quote path)) (writing_handle path) writer_added
      r y (cells s) (cells s'))"
  proof (rule new_writer.open_block [OF assms(1,4) create_op_ok])
    fix st x c and l :: "addr \<times> addr" and s2 :: "('w, 'c, 'r, 'o, 't) hdfs_fs"
    assume "case r of
         Inl e \<Rightarrow> x = Some e \<and> cells s2 = c
       | Inr (Inl (k, t)) \<Rightarrow> x = None \<and> fst l = null \<and> told st k t c (cells s2)
       | Inr (Inr q) \<Rightarrow> False"
    then show "\<exists>y. create_end path st x l s2 = do { s2 \<leftarrow> release (snd l) s2; Some (y, s2) } \<and>
         (case r of Inl e \<Rightarrow> y = Inl e
          | Inr (Inl f) \<Rightarrow> y = failed_with (lit ''Failed to open HDFS file for writing '' @ quote path) f \<and> held_after H y = H
          | Inr (Inr q) \<Rightarrow> True)"
    proof (cases rule: failing_cases)
      case (tell k t)
      with told_read(2) [OF tell(4)] show ?thesis
        by (cases l) (auto simp: create_end_def failed_with_def held_after_def simp del: lit_Cons)
    qed (cases l, simp add: create_end_def)
  next
    fix st q c and l :: "addr \<times> addr" and s2 :: "('w, 'c, 'r, 'o, 't) hdfs_fs"
    assume "writer_added q (fst l) c (cells s2)"
    then show "create_end path st None l s2 =
        Some (Inr (Some (writing_handle path q (fst l) (snd l))), s2) \<and> h_client (writing_handle path q (fst l) (snd l)) = snd l"
      by (simp add: create_end_def writing_handle_def writer_added_def Let_def case_prod_beta)
  qed
  with assms(2,3) show ?thesis by (simp add: OpenFile_def)
qed

section \<open>Streaming reads\<close>

lemma nonneg_word:
  assumes "0 \<le> sint (n :: i64)"
  shows "unat n < 2 ^ 63" "sint n = int (unat n)"
proof -
  have "uint n = sint n" using assms sint_lt [of n] by (simp add: uint_sint take_bit_int_eq_self)
  then show eq: "sint n = int (unat n)" by simp
  have "uint n < 2 ^ 63" using \<open>uint n = sint n\<close> sint_lt [of n] by simp
  then have "int (unat n) < int (2 ^ 63)" by simp
  then show "unat n < 2 ^ 63" by (simp only: of_nat_less_iff)
qed

text \<open>The casts between numbers of 64 bits keep the bits.\<close>

lemma cast_same: "(ucast (w :: 64 word) :: 64 word) = w"
  by simp

lemmas Read_plain = Read_def [unfolded cast_same Let_def]

lemma small_word: "k < 2 ^ 63 \<Longrightarrow> unat (of_nat k :: i64) = k \<and> sint (of_nat k :: i64) = int k"
  using sint_small [of "of_nat k :: i64"] by (simp add: unsigned_of_nat take_bit_nat_eq_self)

text \<open>The count a streaming read asks for, for a length that is not negative.\<close>

lemma Read_eq:
  assumes "0 \<le> sint nr" and "unat (h_length h) < 2 ^ 63"
    and k: "k = min (unat nr) (unat (h_length h) - unat (h_position h))"
  shows "Read N h buf nr s =
    (if k = 0 then Some (Inr 0, h, s)
     else do {
       (r, s) \<leftarrow> ReadAt N h buf (of_nat k) (h_position h) s;
       case r of
         Inl e \<Rightarrow> Some (Inl e, h, s)
       | Inr _ \<Rightarrow> Some (Inr (of_nat k), h\<lparr>h_position := h_position h + of_nat k\<rparr>, s)
     })"
proof (cases "h_position h \<ge> h_length h")
  case True
  then have "unat (h_length h) \<le> unat (h_position h)" by (simp add: word_le_nat_alt)
  with True k show ?thesis by (simp add: Read_plain)
next
  case False
  then have lt: "unat (h_position h) < unat (h_length h)" by (simp add: word_le_nat_alt not_le)
  note nr = nonneg_word [OF assms(1)]
  have plus: "unat (h_position h + nr) = unat (h_position h) + unat nr"
    using lt assms(2) nr(1) by (intro unat_plus_simple [THEN iffD1] no_olen_add_nat [THEN iffD2]) simp
  have minus: "h_length h - h_position h = of_nat (unat (h_length h) - unat (h_position h))"
    using lt by (simp add: of_nat_diff)
  let ?t = "if h_length h < h_position h + nr then h_length h - h_position h else nr"
  have t: "?t = of_nat k"
  proof (cases "h_length h < h_position h + nr")
    case True
    then have "unat (h_length h) < unat (h_position h) + unat nr" by (simp add: word_less_nat_alt plus)
    with lt have "k = unat (h_length h) - unat (h_position h)" unfolding k by simp
    with True minus show ?thesis by simp
  next
    case False
    then have "unat (h_position h) + unat nr \<le> unat (h_length h)" by (simp add: word_less_nat_alt plus not_less)
    with lt have "k = unat nr" unfolding k by simp
    with False show ?thesis by simp
  qed
  have "k < 2 ^ 63" using nr(1) unfolding k by simp
  then have sk: "sint (of_nat k :: i64) = int k" using small_word by blast
  have "Read N h buf nr s = (if sint ?t \<le> 0 then Some (Inr 0, h, s)
     else do {
       (r, s) \<leftarrow> ReadAt N h buf ?t (h_position h) s;
       case r of
         Inl e \<Rightarrow> Some (Inl e, h, s)
       | Inr _ \<Rightarrow> Some (Inr ?t, h\<lparr>h_position := h_position h + ?t\<rparr>, s)
     })"
    using False by (simp add: Read_plain)
  then show ?thesis unfolding t sk by simp
qed

text \<open>
  A block with a status and one call on a handle: \<open>m'\<close> is the memory the call leaves, before the
  report if it fails; \<open>f\<close> is what it does to the cells, \<open>e\<close> and \<open>ok\<close> what the block returns.
\<close>

definition call_block ::
  "(addr \<Rightarrow> ('w, 'c, 'r, 'o, 't) mem \<Rightarrow> ('n::len word \<times> ('w, 'c, 'r, 'o, 't) mem) option) \<Rightarrow> (cpp_string \<Rightarrow> exn)
     \<Rightarrow> ('n word \<Rightarrow> 'x) \<Rightarrow> ('w, 'c, 'r, 'o, 't) hdfs_fs \<Rightarrow> ((exn + 'x) \<times> ('w, 'c, 'r, 'o, 't) hdfs_fs) option" where
  "call_block call e ok =
     with_status (\<lambda>st s. do {
       (res, m) \<leftarrow> call st (heap s);
       message \<leftarrow> status_message st m;
       Some (if sint res < 0 then Inl (e message) else Inr (ok res), s\<lparr>heap := m\<rparr>)
     })"

lemma call_block_ok:
  fixes s :: "('w, 'c, 'r, 'o, 't) hdfs_fs"
  assumes "fs_ok H s" and "0 \<le> sint good"
    and f: "\<And>c x. f (c\<lparr>statuses := x\<rparr>) = (f c)\<lparr>statuses := x\<rparr>"
      "\<And>c. statuses (f c) = statuses c \<and> cstrs (f c) = cstrs c \<and> entry_arrays (f c) = entry_arrays c"
    and call: "\<And>st s1. fs_ok H s1 \<Longrightarrow> st \<noteq> null \<Longrightarrow> statuses (heap s1) st \<noteq> None \<Longrightarrow>
      cells s1 = (cells s)\<lparr>statuses := statuses (cells s1)\<rparr> \<Longrightarrow> view s1 = view s \<Longrightarrow>
      \<exists>m'. call st (heap s1) = Some (if fails then (- 1, reported st k t m') else (good, m')) \<and>
        fs_ok H (s1\<lparr>heap := m'\<rparr>) \<and> cells_of m' = f (cells s1) \<and> view (s1\<lparr>heap := m'\<rparr>) = v"
  shows "\<exists>s'. call_block call e ok s = Some (if fails then Inl (e t) else Inr (ok good), s') \<and> fs_ok H s' \<and>
    view s' = v \<and> cells s' = f (cells s)"
proof -
  let ?y = "if fails then Inl (e t) else Inr (ok good)"
  let ?body = "\<lambda>st s. do {
       (res, m) \<leftarrow> call st (heap s);
       message \<leftarrow> status_message st m;
       Some (if sint res < 0 then Inl (e message) else Inr (ok res), s\<lparr>heap := m\<rparr>)
     }"
  have "\<exists>y s'. with_status ?body s = Some (y, s') \<and> fs_ok H s' \<and> (y = ?y \<and> view s' = v \<and> cells s' = f (cells s))"
  proof (rule with_status_ok [OF assms(1)])
    fix st s1
    assume s1: "fs_ok H s1" "st \<noteq> null" "statuses (cells s) st = None"
      "cells s1 = (cells s)\<lparr>statuses := (statuses (cells s))(st \<mapsto> status_clear)\<rparr>" "view s1 = view s"
    note c = block_cells [OF assms(1) s1(3,4)]
    have live: "statuses (heap s1) st = Some status_clear" using c(1) by simp
    have shape: "cells s1 = (cells s)\<lparr>statuses := statuses (cells s1)\<rparr>" unfolding s1(4) by simp
    from call [OF s1(1,2) _ shape s1(5)] live obtain m' where
      m': "call st (heap s1) = Some (if fails then (- 1, reported st k t m') else (good, m'))"
        "fs_ok H (s1\<lparr>heap := m'\<rparr>)" "cells_of m' = f (cells s1)" "view (s1\<lparr>heap := m'\<rparr>) = v" by auto
    let ?c = "f (cells s1)"
    have "statuses (cells_of m') st = Some status_clear" unfolding m'(3) using f(2) c(1) by simp
    then have live': "statuses m' st = Some status_clear" by simp
    have c3: "statuses ?c st = Some status_clear" "arrays_ok (cstrs ?c) (entry_arrays ?c)"
      using f(2) [of "cells s1"] c(1,2) by simp_all
    have "?c\<lparr>statuses := (statuses ?c)(st := None)\<rparr> = f ((cells s1)\<lparr>statuses := (statuses (cells s1))(st := None)\<rparr>)"
      using f(2) [of "cells s1"] by (simp add: f(1))
    then have out: "?c\<lparr>statuses := (statuses ?c)(st := None)\<rparr> = f (cells s)" unfolding c(3) .
    show "\<exists>y s2 c. ?body st s1 = Some (y, s2) \<and> fs_ok H s2 \<and> (cells s2 = c \<or> (\<exists>k t. told st k t c (cells s2))) \<and>
        statuses c st = Some status_clear \<and> arrays_ok (cstrs c) (entry_arrays c) \<and>
        (y = ?y \<and> view s2 = v \<and> c\<lparr>statuses := (statuses c)(st := None)\<rparr> = f (cells s))"
    proof (cases fails)
      case False
      then have "?body st s1 = Some (?y, s1\<lparr>heap := m'\<rparr>)"
        using m'(1) live' assms(2) by (simp add: status_message_def)
      moreover have "cells (s1\<lparr>heap := m'\<rparr>) = ?c" using m'(3) by simp
      ultimately show ?thesis using m'(2,4) c3 out by blast
    next
      case True
      let ?n = "reported st k t m'"
      have n: "?n = reported st k t ((heap (s1\<lparr>heap := m'\<rparr>))\<lparr>cluster := cluster m'\<rparr>)" by simp
      have "statuses (heap (s1\<lparr>heap := m'\<rparr>)) st \<noteq> None" using live' by simp
      note rep = report_ok [OF m'(2) s1(2) this n]
      have "status_message st ?n = Some t" using fs_okD(4) [OF m'(2)] by (intro reported_message) simp
      then have "?body st s1 = Some (?y, s1\<lparr>heap := ?n\<rparr>)" using m'(1) True by simp
      moreover have "told st k t ?c (cells (s1\<lparr>heap := ?n\<rparr>))" using rep(2) m'(3) by simp
      moreover have "view (s1\<lparr>heap := ?n\<rparr>) = v" using view_heap_same [of ?n "s1\<lparr>heap := m'\<rparr>"] m'(4) by simp
      moreover have "fs_ok H (s1\<lparr>heap := ?n\<rparr>)" using rep(1) by simp
      ultimately show ?thesis using c3 out by blast
    qed
  qed
  then show ?thesis by (simp add: call_block_def)
qed

text \<open>One positional read inside the file.\<close>

lemma view_world:
  "clients m = clients (heap s) \<Longrightarrow> runtime_slot m = runtime_slot (heap s) \<Longrightarrow>
   view (s\<lparr>heap := m\<rparr>) = (view s)\<lparr>v_world := cluster m\<rparr>"
  by (simp add: view_def cong: option.case_cong)

lemma block_view: "view s1 = view s \<Longrightarrow> cluster (heap s1) = v_world (view s)"
  using same_view_heap [of s1 s] by simp

lemma ReadAt_ok:
  fixes s :: "('w, 'c, 'r, 'o, 't) hdfs_fs"
  assumes "fs_ok H s" and "h_reader h \<noteq> null" and "readers (cells s) (h_reader h) = Some rd"
    and "bufs (cells s) buf = Some bs" and "0 \<le> sint nr" and "nr \<noteq> 0" and "unat nr \<le> length bs"
    and "unat location + unat nr \<le> unat (h_length h)"
    and "read_range_buf N rd (take (unat nr) bs) location (v_world (view s)) = (r, now_there)"
  shows "\<exists>e s'. ReadAt N h buf nr location s = Some (case r of Inr _ \<Rightarrow> Inr () | Inl _ \<Rightarrow> Inl e, s') \<and> fs_ok H s' \<and>
    view s' = view s \<and> cells s' = (cells s)\<lparr>bufs := (bufs (cells s))(buf \<mapsto> now_there @ drop (unat nr) bs)\<rparr>"
proof -
  let ?call = "\<lambda>st. hdfs_bridge_read_range N (h_reader h) buf nr location st"
  let ?e = "\<lambda>message. IOException (lit ''Failed to read from HDFS file '' @ quote (h_path h) @ lit '': '' @ message)"
  let ?f = "\<lambda>c. c\<lparr>bufs := (bufs c)(buf \<mapsto> now_there @ drop (unat nr) bs)\<rparr>"
  let ?fails = "\<exists>err. r = Inl err"
  let ?err = "SOME err. r = Inl err"
  let ?t = "error_text N (lit ''read at offset '' @ show_nat (unat location) @ lit '' failed'') ?err"
  have le: "location \<le> h_length h" using assms(8) by (simp add: word_le_nat_alt)
  then have "unat (h_length h - location) = unat (h_length h) - unat location" by (rule unat_sub)
  with assms(8) have "\<not> nr > h_length h - location" by (simp add: word_less_nat_alt not_less)
  moreover have "\<not> h_length h < location" using le by simp
  ultimately have run: "ReadAt N h buf nr location s = call_block ?call ?e (\<lambda>_. ()) s"
    using assms(2,6) by (simp add: ReadAt_def call_block_def cast_same del: lit_Cons)
  have "\<exists>s'. call_block ?call ?e (\<lambda>_. ()) s = Some (if ?fails then Inl (?e ?t) else Inr (), s') \<and> fs_ok H s' \<and>
      view s' = view s \<and> cells s' = ?f (cells s)"
  proof (rule call_block_ok [OF assms(1,5)])
    fix st and s1 :: "('w, 'c, 'r, 'o, 't) hdfs_fs"
    assume s1: "fs_ok H s1" "st \<noteq> null" "statuses (heap s1) st \<noteq> None"
      "cells s1 = (cells s)\<lparr>statuses := statuses (cells s1)\<rparr>" "view s1 = view s"
    have "readers (cells s1) (h_reader h) = Some rd" "bufs (cells s1) buf = Some bs"
      by (subst s1(4), use assms(3,4) in simp)+
    then have cells1: "readers (heap s1) (h_reader h) = Some rd" "bufs (heap s1) buf = Some bs" by simp_all
    let ?m = "(heap s1)\<lparr>bufs := (bufs (heap s1))(buf \<mapsto> now_there @ drop (unat nr) bs)\<rparr>"
    have st': "statuses ?m st \<noteq> None" using s1(3) by simp
    have "?call st (heap s1) = Some (if ?fails then (- 1, reported st (classify ?err) ?t ?m) else (nr, ?m))"
      using assms(5,7,9) cells1 block_view [OF s1(5)] fail_with_reported [OF s1(2) st']
      by (cases r) (simp_all add: hdfs_bridge_read_range_def Let_def del: lit_Cons)
    moreover have "fs_ok H (s1\<lparr>heap := ?m\<rparr>)"
      using fs_okD(1,3) [OF s1(1)] by (intro fs_ok_heap [OF s1(1)]) (simp_all add: heap_ok_def mem_ok_def cells_ok_def)
    moreover have "view (s1\<lparr>heap := ?m\<rparr>) = view s" using s1(5) by (simp add: view_heap_same)
    ultimately show "\<exists>m'. ?call st (heap s1) = Some (if ?fails then (- 1, reported st (classify ?err) ?t m') else (nr, m')) \<and>
        fs_ok H (s1\<lparr>heap := m'\<rparr>) \<and> cells_of m' = ?f (cells s1) \<and> view (s1\<lparr>heap := m'\<rparr>) = view s"
      by (intro exI [of _ ?m]) simp
  qed simp_all
  with run show ?thesis by (cases r) auto
qed

text \<open>
  The driver of a reader: streaming reads of the given sizes into one buffer, whose contents are
  collected. It stops at an error.
\<close>

fun read_chunks ::
  "('w, 'c, 'r, 'o, 't) hdfs_native \<Rightarrow> HdfsFileHandle \<Rightarrow> addr \<Rightarrow> i64 list
     \<Rightarrow> ('w, 'c, 'r, 'o, 't) hdfs_fs \<Rightarrow> ((exn + byte list) \<times> HdfsFileHandle \<times> ('w, 'c, 'r, 'o, 't) hdfs_fs) option" where
  "read_chunks N h buf [] s = Some (Inr [], h, s)"
| "read_chunks N h buf (n # ns) s =
     do {
       (r, h, s) \<leftarrow> Read N h buf n s;
       case r of
         Inl e \<Rightarrow> Some (Inl e, h, s)
       | Inr k \<Rightarrow> do {
           bytes \<leftarrow> bufs (heap s) buf;
           (r, h, s) \<leftarrow> read_chunks N h buf ns s;
           Some (case r of Inl e \<Rightarrow> Inl e | Inr rest \<Rightarrow> Inr (take (unat k) bytes @ rest), h, s)
         }
     }"

text \<open>
  What the documentation of the client library says of a reader: inside the file, a read fills the
  buffer with the bytes at the offset.
\<close>

definition reads_file :: "('w, 'c, 'r, 'o, 't) hdfs_native \<Rightarrow> 'r \<Rightarrow> byte list \<Rightarrow> 'w \<Rightarrow> bool" where
  "reads_file N r data w \<longleftrightarrow> (\<forall>buf off. unat off + length buf \<le> length data \<longrightarrow>
     n_read_range_buf N r buf off w = (Inr (), take (length buf) (drop (unat off) data)))"

text \<open>An open handle on a file of the given bytes, and a buffer for it.\<close>

definition reading ::
  "('w, 'c, 'r, 'o, 't) hdfs_native \<Rightarrow> byte list \<Rightarrow> HdfsFileHandle \<Rightarrow> addr \<Rightarrow> nat \<Rightarrow> ('w, 'c, 'r, 'o, 't) hdfs_fs \<Rightarrow> bool" where
  "reading N data h buf cap s \<longleftrightarrow> h_reader h \<noteq> null \<and> length data < 2 ^ 63 \<and> unat (h_length h) = length data \<and>
     (\<exists>rd bs. readers (cells s) (h_reader h) = Some rd \<and> reads_file N (rd_inner rd) data (v_world (view s)) \<and>
        bufs (cells s) buf = Some bs \<and> length bs = cap)"

lemma Read_ok:
  fixes s :: "('w, 'c, 'r, 'o, 't) hdfs_fs"
  assumes "fs_ok H s" and "reading N data h buf cap s" and "0 \<le> sint nr" and "unat nr \<le> cap"
    and k: "k = min (unat nr) (length data - unat (h_position h))"
  shows "\<exists>h' s' bs. Read N h buf nr s = Some (Inr (of_nat k), h', s') \<and> h' = h\<lparr>h_position := h_position h + of_nat k\<rparr> \<and>
    fs_ok H s' \<and> view s' = view s \<and> bufs (cells s') buf = Some bs \<and> reading N data h' buf cap s' \<and>
    take k bs = take k (drop (unat (h_position h)) data) \<and> unat (of_nat k :: i64) = k"
proof -
  from assms(2) obtain rd bs where h: "h_reader h \<noteq> null" "length data < 2 ^ 63" "unat (h_length h) = length data"
    and rd: "readers (cells s) (h_reader h) = Some rd" "reads_file N (rd_inner rd) data (v_world (view s))"
    and bs: "bufs (cells s) buf = Some bs" "length bs = cap"
    unfolding reading_def by blast
  have k': "k = min (unat nr) (unat (h_length h) - unat (h_position h))" using k h(3) by simp
  have "k < 2 ^ 63" using k h(2) by simp
  then have uk: "unat (of_nat k :: i64) = k" "sint (of_nat k :: i64) = int k" using small_word by blast+
  have read: "Read N h buf nr s = (if k = 0 then Some (Inr 0, h, s)
     else do {
       (r, s) \<leftarrow> ReadAt N h buf (of_nat k) (h_position h) s;
       case r of
         Inl e \<Rightarrow> Some (Inl e, h, s)
       | Inr _ \<Rightarrow> Some (Inr (of_nat k), h\<lparr>h_position := h_position h + of_nat k\<rparr>, s)
     })"
    using h by (intro Read_eq [OF assms(3) _ k']) simp
  show ?thesis
  proof (cases "k = 0")
    case True
    with read assms(1,2) bs show ?thesis by simp
  next
    case False
    then have "(of_nat k :: i64) \<noteq> 0" using uk(1) by auto
    have "k \<le> unat nr" using k by simp
    then have cap: "unat (of_nat k :: i64) \<le> length bs" using uk(1) assms(4) bs(2) by simp
    have "k \<le> length data - unat (h_position h)" using k by simp
    with False have fit: "unat (h_position h) + k \<le> length data" by simp
    let ?filled = "take k (drop (unat (h_position h)) data)"
    have "read_range_buf N rd (take (unat (of_nat k :: i64)) bs) (h_position h) (v_world (view s)) = (Inr (), ?filled)"
      using rd(2) fit cap uk(1) by (simp add: reads_file_def read_range_buf_def min_def)
    from ReadAt_ok [OF assms(1) h(1) rd(1) bs(1) _ \<open>of_nat k \<noteq> 0\<close> cap _ this] fit uk h(3) obtain s' where
      s': "ReadAt N h buf (of_nat k) (h_position h) s = Some (Inr (), s')" "fs_ok H s'" "view s' = view s"
      "cells s' = (cells s)\<lparr>bufs := (bufs (cells s))(buf \<mapsto> ?filled @ drop k bs)\<rparr>"
      by auto
    let ?h = "h\<lparr>h_position := h_position h + of_nat k\<rparr>"
    have b: "bufs (cells s') buf = Some (?filled @ drop k bs)" "readers (cells s') = readers (cells s)"
      unfolding s'(4) by simp_all
    have len: "length ?filled = k" using fit by simp
    then have "length (?filled @ drop k bs) = cap" using cap uk(1) bs(2) by simp
    then have "reading N data ?h buf cap s'"
      using h rd b s'(3) by (simp add: reading_def)
    moreover have "take k (?filled @ drop k bs) = ?filled" using len by simp
    moreover have "Read N h buf nr s = Some (Inr (of_nat k), ?h, s')" using read False s'(1) by simp
    ultimately show ?thesis using s'(2,3) b(1) uk(1) by blast
  qed
qed

lemma read_chunks_ok:
  fixes s :: "('w, 'c, 'r, 'o, 't) hdfs_fs"
  assumes "fs_ok H s" and "reading N data h buf cap s" and "\<forall>n \<in> set ns. 0 \<le> sint n \<and> unat n \<le> cap"
  shows "\<exists>h' s'. read_chunks N h buf ns s = Some (Inr (take (sum_list (map unat ns)) (drop (unat (h_position h)) data)), h', s') \<and>
    fs_ok H s' \<and> view s' = view s \<and> reading N data h' buf cap s' \<and>
    unat (h_position h') = unat (h_position h) + min (sum_list (map unat ns)) (length data - unat (h_position h))"
  using assms
proof (induction ns arbitrary: h s)
  case Nil
  then show ?case by simp
next
  case (Cons n ns)
  define k where "k = min (unat n) (length data - unat (h_position h))"
  from Cons.prems(3) have n: "0 \<le> sint n" "unat n \<le> cap" by simp_all
  from Read_ok [OF Cons.prems(1,2) n k_def] obtain s1 bs where
    one: "Read N h buf n s = Some (Inr (of_nat k), h\<lparr>h_position := h_position h + of_nat k\<rparr>, s1)" "fs_ok H s1" "view s1 = view s"
      "bufs (cells s1) buf = Some bs" "reading N data (h\<lparr>h_position := h_position h + of_nat k\<rparr>) buf cap s1"
      "take k bs = take k (drop (unat (h_position h)) data)" "unat (of_nat k :: i64) = k" by blast
  let ?h = "h\<lparr>h_position := h_position h + of_nat k\<rparr>"
  have "length data < 2 ^ 63" using Cons.prems(2) by (simp add: reading_def)
  have pos: "unat (h_position ?h) = unat (h_position h) + k"
  proof (cases "k = 0")
    case False
    moreover have "k \<le> length data - unat (h_position h)" using k_def by simp
    ultimately have "unat (h_position h) + k < 2 ^ 64" using \<open>length data < 2 ^ 63\<close> by simp
    then show ?thesis using one(7) by (simp add: unat_word_ariths)
  qed simp
  from Cons.IH [OF one(2,5)] Cons.prems(3) obtain h' s' where
    rest: "read_chunks N ?h buf ns s1 = Some (Inr (take (sum_list (map unat ns)) (drop (unat (h_position ?h)) data)), h', s')"
      "fs_ok H s'" "view s' = view s1" "reading N data h' buf cap s'"
      "unat (h_position h') = unat (h_position ?h) + min (sum_list (map unat ns)) (length data - unat (h_position ?h))" by auto
  have bufs1: "bufs (heap s1) buf = Some bs" using one(4) by simp
  have all: "take k (drop (unat (h_position h)) data) @ take (sum_list (map unat ns)) (drop (unat (h_position h) + k) data) =
      take (sum_list (map unat (n # ns))) (drop (unat (h_position h)) data)"
  proof (cases "unat n \<le> length data - unat (h_position h)")
    case True
    then have "k = unat n" by (simp add: k_def)
    then show ?thesis by (simp add: take_add add.commute)
  next
    case False
    then have "k = length data - unat (h_position h)" by (simp add: k_def)
    then show ?thesis using False by simp
  qed
  have "read_chunks N h buf (n # ns) s = Some (Inr (take k bs @ take (sum_list (map unat ns)) (drop (unat (h_position h) + k) data)), h', s')"
    using one(1,7) bufs1 rest(1) pos by simp
  then have "read_chunks N h buf (n # ns) s = Some (Inr (take (sum_list (map unat (n # ns))) (drop (unat (h_position h)) data)), h', s')"
    unfolding one(6) all .
  moreover have "unat (h_position h') = unat (h_position h) + min (sum_list (map unat (n # ns))) (length data - unat (h_position h))"
    unfolding rest(5) pos by (simp add: k_def)
  ultimately show ?case using rest(2-4) one(3) by simp
qed

section \<open>The life of a handle\<close>

text \<open>Writing forwards the bytes; closing ends the writer whatever the result.\<close>

lemma Write_ok:
  fixes s :: "('w, 'c, 'r, 'o, 't) hdfs_fs"
  assumes "fs_ok H s" and "h_writer h \<noteq> null" and "writers (cells s) (h_writer h) = Some wr"
    and "bufs (cells s) buf = Some bs" and "0 \<le> sint nr" and "unat nr \<le> length bs"
    and "write_data N wr (take (unat nr) bs) (v_world (view s)) = (r, wr', w)"
  shows "\<exists>e s'. Write N h buf nr s = Some (case r of
        Inr _ \<Rightarrow> (Inr nr, h\<lparr>h_position := h_position h + nr, h_length := h_length h + nr\<rparr>, s')
      | Inl _ \<Rightarrow> (Inl e, h, s')) \<and> fs_ok H s' \<and>
    view s' = (view s)\<lparr>v_world := w\<rparr> \<and> cells s' = (cells s)\<lparr>writers := (writers (cells s))(h_writer h \<mapsto> wr')\<rparr>"
proof -
  let ?call = "\<lambda>st. hdfs_bridge_write N (h_writer h) buf nr st"
  let ?e = "\<lambda>message. IOException (lit ''Failed to write to HDFS file '' @ quote (h_path h) @ lit '': '' @ message)"
  let ?f = "\<lambda>c. c\<lparr>writers := (writers c)(h_writer h \<mapsto> wr')\<rparr>"
  let ?fails = "\<exists>err. r = Inl err"
  let ?err = "SOME err. r = Inl err"
  let ?t = "error_text N (lit ''write failed'') ?err"
  have "\<exists>s'. call_block ?call ?e (\<lambda>x. x) s = Some (if ?fails then Inl (?e ?t) else Inr nr, s') \<and> fs_ok H s' \<and>
      view s' = (view s)\<lparr>v_world := w\<rparr> \<and> cells s' = ?f (cells s)"
  proof (rule call_block_ok [OF assms(1,5)])
    fix st and s1 :: "('w, 'c, 'r, 'o, 't) hdfs_fs"
    assume s1: "fs_ok H s1" "st \<noteq> null" "statuses (heap s1) st \<noteq> None"
      "cells s1 = (cells s)\<lparr>statuses := statuses (cells s1)\<rparr>" "view s1 = view s"
    have "writers (cells s1) (h_writer h) = Some wr" "bufs (cells s1) buf = Some bs"
      by (subst s1(4), use assms(3,4) in simp)+
    then have cells1: "writers (heap s1) (h_writer h) = Some wr" "bufs (heap s1) buf = Some bs" by simp_all
    let ?m = "(heap s1)\<lparr>writers := (writers (heap s1))(h_writer h \<mapsto> wr'), cluster := w\<rparr>"
    have st': "statuses ?m st \<noteq> None" using s1(3) by simp
    have "?call st (heap s1) = Some (if ?fails then (- 1, reported st (classify ?err) ?t ?m) else (nr, ?m))"
      using assms(5,6,7) cells1 block_view [OF s1(5)] fail_with_reported [OF s1(2) st']
      by (cases r) (simp_all add: hdfs_bridge_write_def Let_def del: lit_Cons)
    moreover have "fs_ok H (s1\<lparr>heap := ?m\<rparr>)"
      using fs_okD(1,3) [OF s1(1)] mem_ok_writers [OF fs_okD(2) [OF s1(1)], where p = "h_writer h" and x = "Some wr'" and w = w] cells1(1)
      by (intro fs_ok_heap [OF s1(1)]) (simp_all add: heap_ok_def cells_ok_def)
    moreover have "view (s1\<lparr>heap := ?m\<rparr>) = (view s)\<lparr>v_world := w\<rparr>" using s1(5) by (simp add: view_world)
    ultimately show "\<exists>m'. ?call st (heap s1) = Some (if ?fails then (- 1, reported st (classify ?err) ?t m') else (nr, m')) \<and>
        fs_ok H (s1\<lparr>heap := m'\<rparr>) \<and> cells_of m' = ?f (cells s1) \<and> view (s1\<lparr>heap := m'\<rparr>) = (view s)\<lparr>v_world := w\<rparr>"
      by (intro exI [of _ ?m]) simp
  qed simp_all
  then obtain s' where s': "call_block ?call ?e (\<lambda>x. x) s = Some (if ?fails then Inl (?e ?t) else Inr nr, s')" "fs_ok H s'"
    "view s' = (view s)\<lparr>v_world := w\<rparr>" "cells s' = ?f (cells s)" by blast
  have "Write N h buf nr s = do {
      (r, s) \<leftarrow> call_block ?call ?e (\<lambda>x. x) s;
      case r of
        Inl e \<Rightarrow> Some (Inl e, h, s)
      | Inr res \<Rightarrow> Some (Inr res, h\<lparr>h_position := h_position h + res, h_length := h_length h + res\<rparr>, s)
    }"
    using assms(2) unfolding Write_def cast_same by (simp add: call_block_def del: lit_Cons)
  with s' show ?thesis by (cases r) (auto simp del: lit_Cons)
qed

text \<open>A handle without a reader, and one without a writer.\<close>

lemma close_writer_block:
  fixes s :: "('w, 'c, 'r, 'o, 't) hdfs_fs"
  assumes "fs_ok H s" and "wp \<noteq> null" and "writers (cells s) wp = Some wr"
  shows "\<exists>y w s'. call_block (\<lambda>st. hdfs_bridge_close_writer N wp st) e (\<lambda>_. ()) s = Some (y, s') \<and> fs_ok H s' \<and>
    view s' = (view s)\<lparr>v_world := w\<rparr> \<and> cells s' = (cells s)\<lparr>writers := (writers (cells s))(wp := None)\<rparr>"
proof -
  let ?call = "\<lambda>st. hdfs_bridge_close_writer N wp st"
  let ?f = "\<lambda>c. c\<lparr>writers := (writers c)(wp := None)\<rparr>"
  obtain r w where r: "close_writer N wr (v_world (view s)) = (r, w)" by force
  let ?fails = "\<exists>err. r = Inl err"
  let ?err = "SOME err. r = Inl err"
  let ?t = "error_text N (lit ''close writer failed'') ?err"
  have zero: "0 \<le> sint (0 :: i32)" by simp
  have "\<exists>s'. call_block ?call e (\<lambda>_. ()) s = Some (if ?fails then Inl (e ?t) else Inr (), s') \<and> fs_ok H s' \<and>
      view s' = (view s)\<lparr>v_world := w\<rparr> \<and> cells s' = ?f (cells s)"
  proof (rule call_block_ok [OF assms(1) zero])
    fix st and s1 :: "('w, 'c, 'r, 'o, 't) hdfs_fs"
    assume s1: "fs_ok H s1" "st \<noteq> null" "statuses (heap s1) st \<noteq> None"
      "cells s1 = (cells s)\<lparr>statuses := statuses (cells s1)\<rparr>" "view s1 = view s"
    have "writers (cells s1) wp = Some wr" by (subst s1(4), use assms(3) in simp)
    then have cells1: "writers (heap s1) wp = Some wr" by simp
    let ?m = "(heap s1)\<lparr>writers := (writers (heap s1))(wp := None), cluster := w\<rparr>"
    have st': "statuses ?m st \<noteq> None" using s1(3) by simp
    have "?call st (heap s1) = Some (if ?fails then (- 1, reported st (classify ?err) ?t ?m) else (0, ?m))"
      using assms(2) r cells1 block_view [OF s1(5)] fail_with_reported [OF s1(2) st']
      by (cases r) (simp_all add: hdfs_bridge_close_writer_def Let_def del: lit_Cons)
    moreover have "fs_ok H (s1\<lparr>heap := ?m\<rparr>)"
      using fs_okD(1,3) [OF s1(1)] mem_ok_writers [OF fs_okD(2) [OF s1(1)], where p = wp and x = None and w = w] cells1
      by (intro fs_ok_heap [OF s1(1)]) (simp_all add: heap_ok_def cells_ok_def)
    moreover have "view (s1\<lparr>heap := ?m\<rparr>) = (view s)\<lparr>v_world := w\<rparr>" using s1(5) by (simp add: view_world)
    ultimately show "\<exists>m'. ?call st (heap s1) = Some (if ?fails then (- 1, reported st (classify ?err) ?t m') else (0, m')) \<and>
        fs_ok H (s1\<lparr>heap := m'\<rparr>) \<and> cells_of m' = ?f (cells s1) \<and> view (s1\<lparr>heap := m'\<rparr>) = (view s)\<lparr>v_world := w\<rparr>"
      by (intro exI [of _ ?m]) simp
  qed simp_all
  then show ?thesis by blast
qed

text \<open>
  What a handle owns on top of the cells \<open>c0\<close> before it was opened: its reader, its writer. Buffers
  may have changed, but not in size.
\<close>

definition owns :: "HdfsFileHandle \<Rightarrow> (unit, 'c, 'r, 'o, 't) mem \<Rightarrow> (unit, 'c, 'r, 'o, 't) mem \<Rightarrow> bool" where
  "owns h c0 c \<longleftrightarrow>
     c\<lparr>readers := (readers c)(h_reader h := None), writers := (writers c)(h_writer h := None), bufs := bufs c0\<rparr> = c0 \<and>
     (h_reader h \<noteq> null \<longrightarrow> readers c (h_reader h) \<noteq> None \<and> unat (h_length h) < 2 ^ 63 \<and> h_writer h = null) \<and>
     (h_writer h \<noteq> null \<longrightarrow> writers c (h_writer h) \<noteq> None) \<and>
     (\<forall>b. map_option length (bufs c b) = map_option length (bufs c0 b))"

lemma ownsD:
  assumes "owns h c0 c"
  shows "c\<lparr>readers := (readers c)(h_reader h := None), writers := (writers c)(h_writer h := None), bufs := bufs c0\<rparr> = c0"
    "h_reader h \<noteq> null \<Longrightarrow> readers c (h_reader h) \<noteq> None \<and> unat (h_length h) < 2 ^ 63 \<and> h_writer h = null"
    "h_writer h \<noteq> null \<Longrightarrow> writers c (h_writer h) \<noteq> None"
    "map_option length (bufs c b) = map_option length (bufs c0 b)"
  using assms by (simp_all add: owns_def)

lemma handles_null:
  assumes "fs_ok H s"
  shows "readers (cells s) null = None" "writers (cells s) null = None"
  using fs_okD(2) [OF assms] by (auto simp: mem_ok_def live_below_def)

lemma Close_ok:
  fixes s :: "('w, 'c, 'r, 'o, 't) hdfs_fs"
  assumes "fs_ok H s" and "owns h c0 (cells s)"
  shows "\<exists>r s' w. Close N h s = Some (r, h\<lparr>h_reader := null, h_writer := null\<rparr>, s') \<and> fs_ok H s' \<and>
    view s' = (view s)\<lparr>v_world := w\<rparr> \<and> owns (h\<lparr>h_reader := null, h_writer := null\<rparr>) c0 (cells s')"
proof -
  let ?f = "\<lambda>c. c\<lparr>readers := (readers c)(h_reader h := None)\<rparr>"
  let ?m = "(heap s)\<lparr>readers := (readers (heap s))(h_reader h := None)\<rparr>"
  let ?s1 = "s\<lparr>heap := ?m\<rparr>"
  let ?h1 = "h\<lparr>h_reader := null\<rparr>"
  note own = ownsD [OF assms(2)]
  have s1: "fs_ok H ?s1" "view ?s1 = view s"
    using fs_okD(1,3) [OF assms(1)] heap_ok_fewer(2) by (intro fs_ok_heap [OF assms(1)])
      (simp_all add: cells_ok_def view_heap_same)
  have one: "(if h_reader h \<noteq> null then do {
            m \<leftarrow> hdfs_bridge_close_reader (h_reader h) (heap s);
            Some (h\<lparr>h_reader := null\<rparr>, s\<lparr>heap := m\<rparr>)
          } else Some (h, s)) = Some (?h1, ?s1)"
  proof (cases "h_reader h = null")
    case True
    have "(readers (heap s))(null := None) = readers (heap s)" using handles_null(1) [OF assms(1)] by (simp add: fun_upd_idem)
    with True show ?thesis by simp
  next
    case False
    with own(2) show ?thesis by (auto simp: hdfs_bridge_close_reader_def)
  qed
  let ?c1 = "?f (cells s)"
  let ?e = "\<lambda>message. IOException (lit ''Failed to close HDFS file '' @ quote (h_path h) @ lit '': '' @ message)"
  have c1: "cells ?s1 = ?c1" by simp
  show ?thesis
  proof (cases "h_writer h = null")
    case True
    have "(writers (cells s))(null := None) = writers (cells s)" using handles_null(2) [OF assms(1)] by (simp add: fun_upd_idem)
    then have "owns (h\<lparr>h_reader := null, h_writer := null\<rparr>) c0 (cells ?s1)"
      using own(1,4) True handles_null [OF s1(1)] by (simp add: owns_def fun_upd_idem)
    moreover have "Close N h s = Some (Inr (), h\<lparr>h_reader := null, h_writer := null\<rparr>, ?s1)"
      unfolding Close_def one using True by simp
    ultimately show ?thesis using s1 by (intro exI [of _ "Inr ()"] exI [of _ ?s1] exI [of _ "v_world (view s)"]) simp
  next
    case False
    with own(3) obtain wr where "writers (cells ?s1) (h_writer h) = Some wr" by auto
    from close_writer_block [OF s1(1) False this, of N ?e] obtain y w s2 where
      s2: "call_block (\<lambda>st. hdfs_bridge_close_writer N (h_writer h) st) ?e (\<lambda>_. ()) ?s1 = Some (y, s2)" "fs_ok H s2"
        "view s2 = (view ?s1)\<lparr>v_world := w\<rparr>" "cells s2 = (cells ?s1)\<lparr>writers := (writers (cells ?s1))(h_writer h := None)\<rparr>"
      by blast
    have "Close N h s = Some (y, h\<lparr>h_reader := null, h_writer := null\<rparr>, s2)"
      unfolding Close_def one using False s2(1) by (simp add: call_block_def Let_def del: lit_Cons cong: if_cong)
    moreover have "owns (h\<lparr>h_reader := null, h_writer := null\<rparr>) c0 (cells s2)"
    proof -
      have rw: "(readers (cells s2))(null := None) = readers (cells s2)" "(writers (cells s2))(null := None) = writers (cells s2)"
        using handles_null [OF s2(2)] by (simp_all add: fun_upd_idem)
      have "(cells s2)\<lparr>bufs := bufs c0\<rparr> = c0" unfolding s2(4) c1 using own(1) by simp
      moreover have "(cells s2)\<lparr>readers := (readers (cells s2))(null := None), writers := (writers (cells s2))(null := None), bufs := bufs c0\<rparr>
          = (cells s2)\<lparr>bufs := bufs c0\<rparr>" unfolding rw by simp
      moreover have "bufs (cells s2) = bufs (cells s)" unfolding s2(4) c1 by simp
      ultimately show ?thesis using own(4) by (simp add: owns_def)
    qed
    ultimately show ?thesis using s2(2,3) s1(2) by auto
  qed
qed

text \<open>What can be done with a handle; an exception leaves it to the caller.\<close>

datatype file_op = OpRead addr i64 | OpReadAt addr i64 u64 | OpWrite addr i64 | OpSeek u64 | OpReset | OpClose

fun use_handle ::
  "('w, 'c, 'r, 'o, 't) hdfs_native \<Rightarrow> file_op \<Rightarrow> HdfsFileHandle \<Rightarrow> ('w, 'c, 'r, 'o, 't) hdfs_fs
     \<Rightarrow> (HdfsFileHandle \<times> ('w, 'c, 'r, 'o, 't) hdfs_fs) option" where
  "use_handle N (OpRead buf n) h s = map_option snd (Read N h buf n s)"
| "use_handle N (OpReadAt buf n loc) h s = map_option (\<lambda>(_, s). (h, s)) (ReadAt N h buf n loc s)"
| "use_handle N (OpWrite buf n) h s = map_option snd (Write N h buf n s)"
| "use_handle N (OpSeek loc) h s = Some (Seek h loc, s)"
| "use_handle N OpReset h s = Some (Reset h, s)"
| "use_handle N OpClose h s = map_option snd (Close N h s)"

fun uses ::
  "('w, 'c, 'r, 'o, 't) hdfs_native \<Rightarrow> file_op list \<Rightarrow> HdfsFileHandle \<Rightarrow> ('w, 'c, 'r, 'o, 't) hdfs_fs
     \<Rightarrow> (HdfsFileHandle \<times> ('w, 'c, 'r, 'o, 't) hdfs_fs) option" where
  "uses N [] h s = Some (h, s)"
| "uses N (x # xs) h s = do { (h, s) \<leftarrow> use_handle N x h s; uses N xs h s }"

text \<open>The caller passes buffers that are large enough, and no negative sizes.\<close>

fun sized :: "(unit, 'c, 'r, 'o, 't) mem \<Rightarrow> file_op \<Rightarrow> bool" where
  "sized c (OpRead buf n) \<longleftrightarrow> 0 \<le> sint n \<and> (\<exists>bs. bufs c buf = Some bs \<and> unat n \<le> length bs)"
| "sized c (OpReadAt buf n loc) \<longleftrightarrow> 0 \<le> sint n \<and> (\<exists>bs. bufs c buf = Some bs \<and> unat n \<le> length bs)"
| "sized c (OpWrite buf n) \<longleftrightarrow> 0 \<le> sint n \<and> (\<exists>bs. bufs c buf = Some bs \<and> unat n \<le> length bs)"
| "sized c _ \<longleftrightarrow> True"

text \<open>A read of the client library leaves the slice it was given at its length.\<close>

definition keeps_length :: "('w, 'c, 'r, 'o, 't) hdfs_native \<Rightarrow> bool" where
  "keeps_length N \<longleftrightarrow> (\<forall>r buf off w. length (snd (n_read_range_buf N r buf off w)) = length buf)"

lemma sized_cong:
  assumes "\<And>b. map_option length (bufs c' b) = map_option length (bufs c b)" and "sized c x"
  shows "sized c' x"
proof -
  have "\<exists>bs'. bufs c' b = Some bs' \<and> length bs' = length bs" if "bufs c b = Some bs" for b bs
    using assms(1) [of b] that by (cases "bufs c' b") simp_all
  with assms(2) show ?thesis by (cases x) force+
qed

text \<open>A positional read, whatever the handle is open for.\<close>

lemma ReadAt_safe:
  fixes s :: "('w, 'c, 'r, 'o, 't) hdfs_fs"
  assumes "keeps_length N" and "fs_ok H s" and "owns h c0 (cells s)" and "sized (cells s) (OpReadAt buf n loc)"
  shows "\<exists>r s'. ReadAt N h buf n loc s = Some (r, s') \<and> fs_ok H s' \<and> view s' = view s \<and> owns h c0 (cells s')"
proof -
  note own = ownsD [OF assms(3)]
  obtain bs where bs: "0 \<le> sint n" "bufs (cells s) buf = Some bs" "unat n \<le> length bs" using assms(4) by auto
  show ?thesis
  proof (cases "h_reader h = null \<or> n = 0 \<or> loc > h_length h \<or> n > h_length h - loc")
    case True
    then show ?thesis using assms(2,3) by (auto simp: ReadAt_def cast_same simp del: lit_Cons)
  next
    case False
    then have ok: "h_reader h \<noteq> null" "n \<noteq> 0" "loc \<le> h_length h" "n \<le> h_length h - loc" by auto
    from own(2) [OF ok(1)] obtain rd where rd: "readers (cells s) (h_reader h) = Some rd" by auto
    have "unat n \<le> unat (h_length h) - unat loc" "unat loc \<le> unat (h_length h)"
      using ok(3,4) unat_sub [OF ok(3)] by (simp_all add: word_le_nat_alt)
    then have fit: "unat loc + unat n \<le> unat (h_length h)" by linarith
    obtain r now where r: "read_range_buf N rd (take (unat n) bs) loc (v_world (view s)) = (r, now)" by force
    from ReadAt_ok [OF assms(2) ok(1) rd bs(2,1) ok(2) bs(3) fit r] obtain y s' where
      s': "ReadAt N h buf n loc s = Some (y, s')" "fs_ok H s'" "view s' = view s"
        "cells s' = (cells s)\<lparr>bufs := (bufs (cells s))(buf \<mapsto> now @ drop (unat n) bs)\<rparr>" by blast
    have "length now = min (length bs) (unat n)" using assms(1) arg_cong [OF r, of snd]
      unfolding keeps_length_def read_range_buf_def by (metis length_take snd_conv)
    then have len: "length (now @ drop (unat n) bs) = length bs" using bs(3) by simp
    have "map_option length (bufs c0 buf) = Some (length bs)" using own(4) [of buf] bs(2) by simp
    then obtain z where "bufs c0 buf = Some z" "length z = length bs" by auto
    then have "owns h c0 (cells s')"
      unfolding s'(4) owns_def using own len bs(2) by simp
    with s' show ?thesis by blast
  qed
qed

lemma use_handle_safe:
  fixes s :: "('w, 'c, 'r, 'o, 't) hdfs_fs"
  assumes "keeps_length N" and "fs_ok H s" and "owns h c0 (cells s)" and "sized (cells s) x"
  shows "\<exists>h' s'. use_handle N x h s = Some (h', s') \<and> fs_ok H s' \<and> owns h' c0 (cells s') \<and> h_client h' = h_client h"
proof (cases x)
  case (OpRead buf n)
  note own = ownsD [OF assms(3)]
  from OpRead assms(4) obtain bs where bs: "0 \<le> sint n" "bufs (cells s) buf = Some bs" "unat n \<le> length bs" by auto
  have move: "owns (h\<lparr>h_position := p\<rparr>) c0 c = owns h c0 c" for p c by (simp add: owns_def)
  have "\<exists>r h' s'. Read N h buf n s = Some (r, h', s') \<and> fs_ok H s' \<and> owns h' c0 (cells s') \<and> h_client h' = h_client h"
  proof (cases "h_reader h = null")
    case True
    then have "ReadAt N h buf k p s = Some (Inl (IOException (lit ''File not opened for reading: '' @ h_path h)), s)" for k p
      by (simp add: ReadAt_def)
    then show ?thesis using assms(2,3) by (auto simp: Read_plain simp del: lit_Cons)
  next
    case False
    define k where "k = min (unat n) (unat (h_length h) - unat (h_position h))"
    note read = Read_eq [OF bs(1) conjunct1 [OF conjunct2 [OF own(2) [OF False]]] k_def, of N buf s]
    have "k < 2 ^ 63" using nonneg_word(1) [OF bs(1)] by (simp add: k_def)
    then have uk: "unat (of_nat k :: i64) = k" "sint (of_nat k :: i64) = int k" using small_word by blast+
    have "k \<le> unat n" by (simp add: k_def)
    then have "sized (cells s) (OpReadAt buf (of_nat k) (h_position h))" using bs uk by simp
    from ReadAt_safe [OF assms(1-3) this] obtain r s' where
      "ReadAt N h buf (of_nat k) (h_position h) s = Some (r, s')" "fs_ok H s'" "owns h c0 (cells s')" by blast
    with read assms(2,3) move show ?thesis by (cases r) auto
  qed
  with OpRead show ?thesis by auto
next
  case (OpReadAt buf n loc)
  with ReadAt_safe [OF assms(1-3), of buf n loc] assms(4) show ?thesis by auto
next
  case (OpWrite buf n)
  note own = ownsD [OF assms(3)]
  from OpWrite assms(4) obtain bs where bs: "0 \<le> sint n" "bufs (cells s) buf = Some bs" "unat n \<le> length bs" by auto
  show ?thesis
  proof (cases "h_writer h = null")
    case True
    with OpWrite assms(2,3) show ?thesis by (simp add: Write_def)
  next
    case False
    from own(3) [OF this] obtain wr where wr: "writers (cells s) (h_writer h) = Some wr" by auto
    obtain r wr' w where r: "write_data N wr (take (unat n) bs) (v_world (view s)) = (r, wr', w)" using prod_cases3 by blast
    from Write_ok [OF assms(2) False wr bs(2,1,3) r] obtain e s' where
      s': "Write N h buf n s = Some (case r of
        Inr _ \<Rightarrow> (Inr n, h\<lparr>h_position := h_position h + n, h_length := h_length h + n\<rparr>, s')
      | Inl _ \<Rightarrow> (Inl e, h, s'))" "fs_ok H s'" "cells s' = (cells s)\<lparr>writers := (writers (cells s))(h_writer h \<mapsto> wr')\<rparr>"
      by blast
    have "owns h c0 (cells s')" "h_reader h = null" unfolding s'(3) using assms(3) False by (auto simp: owns_def)
    moreover from this(2) have "owns (h\<lparr>h_position := p, h_length := q\<rparr>) c0 c = owns h c0 c" for p q c by (simp add: owns_def)
    ultimately show ?thesis using s'(1,2) OpWrite by (cases r) simp_all
  qed
next
  case OpClose
  with Close_ok [OF assms(2,3), of N] show ?thesis by auto
qed (use assms(2,3) in \<open>simp_all add: Seek_def Reset_def owns_def\<close>)

lemma uses_safe:
  fixes s :: "('w, 'c, 'r, 'o, 't) hdfs_fs"
  assumes "keeps_length N" and "fs_ok H s" and "owns h c0 (cells s)" and "\<forall>x \<in> set xs. sized (cells s) x"
  shows "\<exists>h' s'. uses N xs h s = Some (h', s') \<and> fs_ok H s' \<and> owns h' c0 (cells s') \<and> h_client h' = h_client h"
  using assms(2-4)
proof (induction xs arbitrary: h s)
  case (Cons x xs)
  from use_handle_safe [OF assms(1) Cons.prems(1,2), of x] Cons.prems(3) obtain h1 s1 where
    one: "use_handle N x h s = Some (h1, s1)" "fs_ok H s1" "owns h1 c0 (cells s1)" "h_client h1 = h_client h" by auto
  have "sized (cells s1) y" if "y \<in> set xs" for y
  proof (rule sized_cong)
    show "map_option length (bufs (cells s1) b) = map_option length (bufs (cells s) b)" for b
      using ownsD(4) [OF one(3)] ownsD(4) [OF Cons.prems(2)] by simp
    show "sized (cells s) y" using Cons.prems(3) that by simp
  qed
  with Cons.IH [OF one(2,3)] one show ?case by auto
qed simp

lemma opened_owns:
  assumes "fs_ok H s" and "reader_added rd p (cells s) c \<and> h = reading_handle N path rd p client
    \<or> writer_added wr p (cells s) c \<and> h = writing_handle path wr p client"
  shows "owns h (cells s) c"
proof -
  have "unat (file_size N rd) < 2 ^ 63"
    using nonneg_word(1) [of "file_length N rd"] by (auto simp: file_size_def)
  then show ?thesis
    using assms(2) handles_null [OF assms(1)]
    by (auto simp: owns_def reader_added_def writer_added_def reading_handle_def writing_handle_def fun_upd_idem)
qed

lemma end_handle_ok:
  fixes s :: "('w, 'c, 'r, 'o, 't) hdfs_fs"
  assumes "fs_ok (add_mset (h_client h) H) s" and "owns h c0 (cells s)"
  shows "\<exists>s'. end_handle N h s = Some s' \<and> fs_ok H s' \<and> cells s' = c0\<lparr>bufs := bufs (cells s')\<rparr>"
proof -
  let ?h = "h\<lparr>h_reader := null, h_writer := null\<rparr>"
  from Close_ok [OF assms, of N] obtain r s1 where s1: "Close N h s = Some (r, ?h, s1)"
    "fs_ok (add_mset (h_client h) H) s1" "owns ?h c0 (cells s1)" by blast
  from release_ok [OF s1(2)] obtain s2 where s2: "release (h_client h) s1 = Some s2" "fs_ok H s2" "cells s2 = cells s1" by blast
  have "(cells s1)\<lparr>bufs := bufs c0\<rparr> = c0"
    using ownsD(1) [OF s1(3)] handles_null [OF s1(2)] by (simp add: fun_upd_idem)
  then have "cells s1 = c0\<lparr>bufs := bufs (cells s1)\<rparr>" by (metis mem.surjective mem.update_convs(12))
  moreover have "bufs (heap s2) = bufs (heap s1)" using arg_cong [OF s2(3), of bufs] by simp
  ultimately show ?thesis using s1(1) s2 by (simp add: end_handle_def)
qed

end
