(* ===== verification/Hdfs_Listing.thy ===== *)
theory Hdfs_Listing
  imports Hdfs_Files
begin

text \<open>
  Streaming listings and globs of \<^verbatim>\<open>HdfsFileSystem\<close> (\<^verbatim>\<open>src/hdfs_filesystem.cpp\<close>): \<^verbatim>\<open>HdfsListStream\<close> with
  \<^verbatim>\<open>Open\<close>, \<^verbatim>\<open>Next\<close> and its end, \<^verbatim>\<open>OpenListStream\<close>, \<^verbatim>\<open>OpenGlobStream\<close>, and their callers
  \<^verbatim>\<open>ListFilesExtended\<close> and \<^verbatim>\<open>Glob\<close>. The results: what a stream hands out are the entries of one walk
  of the bridge, in order and each once, also across the transparent retry; the stream gives back
  its walk, its client and every batch.

  As for the bridge, the walk that an opening starts has a schedule and the text of its panic if it
  dies, and every call has its timing; they are parameters and universally quantified.
\<close>

section \<open>Streams\<close>

record HdfsWalkOptions =
  o_skip_permission_errors :: bool
  o_include_hidden :: bool

definition default_options :: HdfsWalkOptions where
  "default_options = \<lparr>o_skip_permission_errors = False, o_include_hidden = False\<rparr>"

text \<open>The connection of a stream is the one of its authority.\<close>

record HdfsListStream =
  ls_url :: cpp_string
  ls_authority :: cpp_string
  ls_path :: cpp_string
  ls_glob :: bool
  ls_parallelism :: i32
  ls_options :: HdfsWalkOptions
  ls_client :: addr
  ls_handle :: addr
  ls_emitted_any :: bool
  ls_retried :: bool

type_synonym walk_timing = "rstring \<times> nat list"

text \<open>The call of the bridge: the exception if it fails, and the handle.\<close>

definition start_glob ::
  "('w, 'c, 'r, 'o, 't) hdfs_native \<Rightarrow> walk_timing \<Rightarrow> addr \<Rightarrow> HdfsListStream \<Rightarrow> addr \<Rightarrow> addr
     \<Rightarrow> ('w, 'c, 'r, 'o, 't) hdfs_fs \<Rightarrow> (((exn + unit) \<times> addr) \<times> ('w, 'c, 'r, 'o, 't) hdfs_fs) option" where
  "start_glob N timing client h path st s =
     do {
       (p, m) \<leftarrow> hdfs_bridge_glob_stream_open N client path (ls_parallelism h)
         (o_skip_permission_errors (ls_options h)) (o_include_hidden (ls_options h)) st (fst timing) (snd timing) (heap s);
       message \<leftarrow> status_message st m;
       Some ((if p = null then Inl (IOException (lit ''Failed to glob HDFS pattern '' @ quote (ls_url h) @ lit '': '' @ message))
              else Inr (), p), s\<lparr>heap := m\<rparr>)
     }"

definition start_listing ::
  "('w, 'c, 'r, 'o, 't) hdfs_native \<Rightarrow> walk_timing \<Rightarrow> addr \<Rightarrow> HdfsListStream \<Rightarrow> addr
     \<Rightarrow> ('w, 'c, 'r, 'o, 't) hdfs_fs \<Rightarrow> (((exn + unit) \<times> addr) \<times> ('w, 'c, 'r, 'o, 't) hdfs_fs) option" where
  "start_listing N timing client h path s =
     do {
       (p, m) \<leftarrow> hdfs_bridge_list_stream_open N client path False (ls_parallelism h)
         (o_skip_permission_errors (ls_options h)) (o_include_hidden (ls_options h)) (fst timing) (snd timing) (heap s);
       Some ((Inr (), p), s\<lparr>heap := m\<rparr>)
     }"

definition open_walk ::
  "('w, 'c, 'r, 'o, 't) hdfs_native \<Rightarrow> walk_timing \<Rightarrow> addr \<Rightarrow> HdfsListStream
     \<Rightarrow> ('w, 'c, 'r, 'o, 't) hdfs_fs \<Rightarrow> (((exn + unit) \<times> addr) \<times> ('w, 'c, 'r, 'o, 't) hdfs_fs) option" where
  "open_walk N timing client h =
     with_arg (ls_path h) (\<lambda>path.
       if ls_glob h then with_status (start_glob N timing client h path) else start_listing N timing client h path)"

definition Open ::
  "('w, 'c, 'r, 'o, 't) hdfs_native \<Rightarrow> walk_timing \<Rightarrow> HdfsListStream
     \<Rightarrow> ('w, 'c, 'r, 'o, 't) hdfs_fs \<Rightarrow> ((exn + unit) \<times> HdfsListStream \<times> ('w, 'c, 'r, 'o, 't) hdfs_fs) option" where
  "Open N timing h s =
     do {
       (got, s) \<leftarrow> Get N (ls_authority h) s;
       case got of
         Inl e \<Rightarrow> Some (Inl e, h, s)
       | Inr client \<Rightarrow> do {
           s \<leftarrow> release (ls_client h) s;
           let h = h\<lparr>ls_client := client\<rparr>;
           ((r, p), s) \<leftarrow> open_walk N timing client h s;
           Some (r, h\<lparr>ls_handle := p\<rparr>, s)
         }
     }"

text \<open>
  One round of the loop of \<^verbatim>\<open>Next\<close>: it returns a batch, which is empty at the end, throws, or goes
  round again.
\<close>

datatype round = Return "HdfsEntry list" | Throw exn | Again

definition list_error :: "HdfsListStream \<Rightarrow> cpp_string \<Rightarrow> exn" where
  "list_error h message =
     IOException ((if ls_glob h then lit ''Failed to glob HDFS pattern '' else lit ''Failed to list HDFS path '') @
       quote (ls_url h) @ lit '': '' @ message)"

definition round_body ::
  "('w, 'c, 'r, 'o, 't) hdfs_native \<Rightarrow> u64 \<Rightarrow> nat \<Rightarrow> walk_timing \<Rightarrow> HdfsListStream \<Rightarrow> addr \<Rightarrow> addr
     \<Rightarrow> ('w, 'c, 'r, 'o, 't) hdfs_fs \<Rightarrow> ((round \<times> HdfsListStream) \<times> ('w, 'c, 'r, 'o, 't) hdfs_fs) option" where
  "round_body N max_entries ready timing h cnt st s =
     do {
       (entries, m) \<leftarrow> hdfs_bridge_list_stream_next N (ls_handle h) (ucast max_entries) ready cnt st (heap s);
       t \<leftarrow> statuses m st;
       if code t = HDFS_OK then do {
         c \<leftarrow> counts m cnt;
         let n = nat (sint c);
         es \<leftarrow> (if n = 0 then Some [] else entry_arrays m entries);
         out \<leftarrow> (if n \<le> length es then MakeHdfsEntries (ls_authority h) (take n es) m else None);
         m \<leftarrow> (if entries \<noteq> null then hdfs_bridge_free_dir_entries entries c m else Some m);
         Some ((Return out, h\<lparr>ls_emitted_any := ls_emitted_any h \<or> 0 < sint c\<rparr>), s\<lparr>heap := m\<rparr>)
       }
       else if code t = HDFS_ERR_CONNECTION \<and> \<not> ls_emitted_any h \<and> \<not> ls_retried h then do {
         m \<leftarrow> hdfs_bridge_list_stream_free (ls_handle h) m;
         let h = h\<lparr>ls_retried := True, ls_handle := null\<rparr>;
         s \<leftarrow> Invalidate (ls_authority h) (ls_client h) (s\<lparr>heap := m\<rparr>);
         (r, h, s) \<leftarrow> Open N timing h s;
         Some ((case r of Inl e \<Rightarrow> Throw e | Inr _ \<Rightarrow> Again, h), s)
       }
       else do {
         message \<leftarrow> status_message st m;
         Some ((Throw (list_error h message), h), s\<lparr>heap := m\<rparr>)
       }
     }"

definition next_round ::
  "('w, 'c, 'r, 'o, 't) hdfs_native \<Rightarrow> u64 \<Rightarrow> nat \<Rightarrow> walk_timing \<Rightarrow> HdfsListStream
     \<Rightarrow> ('w, 'c, 'r, 'o, 't) hdfs_fs \<Rightarrow> ((round \<times> HdfsListStream) \<times> ('w, 'c, 'r, 'o, 't) hdfs_fs) option" where
  "next_round N max_entries ready timing h =
     with_count (\<lambda>cnt. with_status (round_body N max_entries ready timing h cnt))"

text \<open>Timing of a call: its first round, the walk it may start, and the round after that.\<close>

type_synonym next_timing = "nat \<times> walk_timing \<times> nat"

lemma Open_flags:
  assumes "Open N timing h s = Some (r, h', s')"
  shows "ls_retried h' = ls_retried h"
  using assms by (auto simp: Open_def Let_def split: prod.splits sum.splits bind_splits if_splits)

lemma next_round_again:
  assumes "next_round N max_entries ready timing h s = Some ((Again, h'), s')"
  shows "\<not> ls_retried h \<and> ls_retried h'"
  using assms unfolding next_round_def with_count_def with_status_def round_body_def
  by (auto simp: Let_def split: prod.splits sum.splits bind_splits if_splits dest!: Open_flags)

function Next ::
  "('w, 'c, 'r, 'o, 't) hdfs_native \<Rightarrow> u64 \<Rightarrow> next_timing \<Rightarrow> HdfsListStream
     \<Rightarrow> ('w, 'c, 'r, 'o, 't) hdfs_fs \<Rightarrow> ((exn + bool \<times> HdfsEntry list) \<times> HdfsListStream \<times> ('w, 'c, 'r, 'o, 't) hdfs_fs) option" where
  "Next N max_entries (ready, timing, ready_again) h s =
     do {
       ((r, h), s) \<leftarrow> next_round N max_entries ready timing h s;
       case r of
         Return out \<Rightarrow> Some (Inr (out \<noteq> [], out), h, s)
       | Throw e \<Rightarrow> Some (Inl e, h, s)
       | Again \<Rightarrow> Next N max_entries (ready_again, timing, ready_again) h s
     }"
  by pat_completeness auto
termination
  by (relation "measure (\<lambda>(N, max_entries, timing, h, s). if ls_retried h then 0 else 1)") (auto dest: next_round_again)

declare Next.simps [simp del]

text \<open>The destructor: the walk, then the pointer to the client.\<close>

definition end_stream :: "HdfsListStream \<Rightarrow> ('w, 'c, 'r, 'o, 't) hdfs_fs \<Rightarrow> ('w, 'c, 'r, 'o, 't) hdfs_fs option" where
  "end_stream h s =
     do {
       m \<leftarrow> (if ls_handle h \<noteq> null then hdfs_bridge_list_stream_free (ls_handle h) (heap s) else Some (heap s));
       release (ls_client h) (s\<lparr>heap := m\<rparr>)
     }"

text \<open>An exception of \<^verbatim>\<open>Open\<close> ends the new stream.\<close>

definition new_stream :: "bool \<Rightarrow> cpp_string \<Rightarrow> i32 \<Rightarrow> HdfsWalkOptions \<Rightarrow> HdfsListStream" where
  "new_stream glob url max_parallelism options =
     (let (authority, hdfs_path) = ParseHdfsPath url
      in \<lparr>ls_url = url, ls_authority = authority, ls_path = hdfs_path, ls_glob = glob, ls_parallelism = max_parallelism,
           ls_options = options, ls_client = null, ls_handle = null, ls_emitted_any = False, ls_retried = False\<rparr>)"

definition open_stream ::
  "('w, 'c, 'r, 'o, 't) hdfs_native \<Rightarrow> bool \<Rightarrow> walk_timing \<Rightarrow> cpp_string \<Rightarrow> i32 \<Rightarrow> HdfsWalkOptions
     \<Rightarrow> ('w, 'c, 'r, 'o, 't) hdfs_fs \<Rightarrow> ((exn + HdfsListStream) \<times> ('w, 'c, 'r, 'o, 't) hdfs_fs) option" where
  "open_stream N glob timing url max_parallelism options s =
     (let stream = new_stream glob url max_parallelism options
      in do {
        (r, stream, s) \<leftarrow> Open N timing stream (GetConnection (ls_authority stream) s);
        case r of
          Inl e \<Rightarrow> do { s \<leftarrow> end_stream stream s; Some (Inl e, s) }
        | Inr _ \<Rightarrow> Some (Inr stream, s)
      })"

definition OpenListStream where
  "OpenListStream N timing url max_parallelism options s = open_stream N False timing url max_parallelism options s"

definition OpenGlobStream where
  "OpenGlobStream N timing url max_parallelism options s = open_stream N True timing url max_parallelism options s"

section \<open>Callers\<close>

text \<open>What DuckDB is told of a file: name, type, size and time of modification.\<close>

record 'ts OpenFileInfo =
  i_path :: cpp_string
  i_type :: cpp_string
  i_file_size :: i64
  i_last_modified :: 'ts

definition MakeExtendedInfo :: "(i64 \<Rightarrow> 'ts) \<Rightarrow> cpp_string \<Rightarrow> HdfsEntry \<Rightarrow> 'ts OpenFileInfo" where
  "MakeExtendedInfo from_epoch_ms path entry =
     \<lparr>i_path = path, i_type = (if e_is_dir entry then lit ''directory'' else lit ''file''), i_file_size = e_size entry,
      i_last_modified = from_epoch_ms (ucast (e_mtime entry))\<rparr>"

text \<open>
  \<^verbatim>\<open>STANDARD_VECTOR_SIZE\<close> is of DuckDB, the parameter \<open>vsize\<close>.
  \<^verbatim>\<open>while (stream->Next(batch, STANDARD_VECTOR_SIZE)) ...\<close>: the entries in the order they are handled,
  and how the loop ended, \<open>None\<close> when the given calls do not suffice. An exception leaves the loop.
\<close>

fun drain ::
  "('w, 'c, 'r, 'o, 't) hdfs_native \<Rightarrow> u64 \<Rightarrow> next_timing list \<Rightarrow> HdfsListStream \<Rightarrow> ('w, 'c, 'r, 'o, 't) hdfs_fs
     \<Rightarrow> (((exn + unit) option \<times> HdfsEntry list) \<times> HdfsListStream \<times> ('w, 'c, 'r, 'o, 't) hdfs_fs) option" where
  "drain N vsize [] h s = Some ((None, []), h, s)"
| "drain N vsize (t # ts) h s =
     do {
       (r, h, s) \<leftarrow> Next N vsize t h s;
       case r of
         Inl e \<Rightarrow> Some ((Some (Inl e), []), h, s)
       | Inr (any, batch) \<Rightarrow>
           if any then do { ((r, es), h, s) \<leftarrow> drain N vsize ts h s; Some ((r, batch @ es), h, s) }
           else Some ((Some (Inr ()), []), h, s)
     }"

text \<open>The stream in its scope; \<open>None\<close> as a result when the given calls do not suffice.\<close>

definition with_stream ::
  "('w, 'c, 'r, 'o, 't) hdfs_native \<Rightarrow> u64 \<Rightarrow> next_timing list \<Rightarrow> (exn + HdfsListStream) \<times> ('w, 'c, 'r, 'o, 't) hdfs_fs
     \<Rightarrow> (((exn + unit) option \<times> HdfsEntry list) \<times> ('w, 'c, 'r, 'o, 't) hdfs_fs) option" where
  "with_stream N vsize ts x =
     (case x of
        (Inl e, s) \<Rightarrow> Some ((Some (Inl e), []), s)
      | (Inr stream, s) \<Rightarrow> do {
          (r, stream, s) \<leftarrow> drain N vsize ts stream s;
          s \<leftarrow> end_stream stream s;
          Some (r, s)
        })"

text \<open>
  \<^verbatim>\<open>ListFilesExtended\<close>: the calls of the callback, in order, beside the result; they have been made also
  when the listing ends with an exception.
\<close>

definition ListFilesExtended ::
  "(i64 \<Rightarrow> 'ts) \<Rightarrow> ('w, 'c, 'r, 'o, 't) hdfs_native \<Rightarrow> u64 \<Rightarrow> walk_timing \<Rightarrow> next_timing list \<Rightarrow> cpp_string
     \<Rightarrow> ('w, 'c, 'r, 'o, 't) hdfs_fs \<Rightarrow> (((exn + bool) option \<times> 'ts OpenFileInfo list) \<times> ('w, 'c, 'r, 'o, 't) hdfs_fs) option" where
  "ListFilesExtended from_epoch_ms N vsize timing ts directory s =
     do {
       let options = default_options\<lparr>o_include_hidden := True\<rparr>;
       x \<leftarrow> OpenListStream N timing directory 1 options s;
       ((r, es), s) \<leftarrow> with_stream N vsize ts x;
       Some ((map_option (map_sum id (\<lambda>_. es \<noteq> [])) r, map (\<lambda>entry. MakeExtendedInfo from_epoch_ms (e_name entry) entry) es), s)
     }"

text \<open>The settings DuckDB has for a query, where they are set.\<close>

record settings =
  hdfs_list_parallelism :: "u64 option"
  hdfs_skip_permission_errors :: "bool option"
  hdfs_include_hidden :: "bool option"

definition DEFAULT_HDFS_LIST_PARALLELISM :: u64 where
  "DEFAULT_HDFS_LIST_PARALLELISM = 16"

definition list_parallelism :: "u64 option \<Rightarrow> i32" where
  "list_parallelism setting =
     (case setting of Some n \<Rightarrow> ucast (min n (2 ^ 31 - 1)) | None \<Rightarrow> ucast DEFAULT_HDFS_LIST_PARALLELISM)"

definition glob_options :: "settings \<Rightarrow> HdfsWalkOptions" where
  "glob_options cfg =
     (let options = default_options;
          options = (case hdfs_skip_permission_errors cfg of Some b \<Rightarrow> options\<lparr>o_skip_permission_errors := b\<rparr> | None \<Rightarrow> options)
      in (case hdfs_include_hidden cfg of Some b \<Rightarrow> options\<lparr>o_include_hidden := b\<rparr> | None \<Rightarrow> options))"

definition Glob ::
  "(i64 \<Rightarrow> 'ts) \<Rightarrow> ('w, 'c, 'r, 'o, 't) hdfs_native \<Rightarrow> u64 \<Rightarrow> walk_timing \<Rightarrow> next_timing list \<Rightarrow> settings \<Rightarrow> cpp_string
     \<Rightarrow> ('w, 'c, 'r, 'o, 't) hdfs_fs \<Rightarrow> ((exn + 'ts OpenFileInfo list) option \<times> ('w, 'c, 'r, 'o, 't) hdfs_fs) option" where
  "Glob from_epoch_ms N vsize timing ts cfg path s =
     do {
       x \<leftarrow> OpenGlobStream N timing path (list_parallelism (hdfs_list_parallelism cfg)) (glob_options cfg) s;
       ((r, es), s) \<leftarrow> with_stream N vsize ts x;
       let result = map (\<lambda>entry. MakeExtendedInfo from_epoch_ms (e_url entry) entry) (filter (\<lambda>entry. \<not> e_is_dir entry) es);
       Some (map_option (map_sum id (\<lambda>_. result)) r, s)
     }"

section \<open>The walk of a stream\<close>

text \<open>What an opening starts: the stream of the bridge, or the error of the pattern.\<close>

definition walk_of ::
  "('w, 'c, 'r, 'o, 't) hdfs_native \<Rightarrow> HdfsListStream \<Rightarrow> ('c, 't) BridgeClient \<Rightarrow> 'w \<Rightarrow> walk_timing
     \<Rightarrow> hdfs_error + BridgeListStream" where
  "walk_of N h c w timing =
     (let path = decode_lossy (c_str (ls_path h)); n = at_least_1 (ls_parallelism h);
          opts = \<lparr>skip_permission_errors = o_skip_permission_errors (ls_options h), include_hidden = o_include_hidden (ls_options h)\<rparr>
      in if ls_glob h then
           (case client_glob_stream N c path n opts w (fst timing) (snd timing) of Some r \<Rightarrow> r | None \<Rightarrow> Inl (OtherError []))
         else Inr (client_list_stream N c path False n opts w (fst timing) (snd timing)))"

lemma glob_walk_of:
  assumes "ls_glob h"
  shows "client_glob_stream N c (decode_lossy (c_str (ls_path h))) (at_least_1 (ls_parallelism h))
      \<lparr>skip_permission_errors = o_skip_permission_errors (ls_options h), include_hidden = o_include_hidden (ls_options h)\<rparr>
      w (fst timing) (snd timing) = Some (walk_of N h c w timing)"
  using assms parse_total [of "decode_lossy (c_str (ls_path h))" "o_include_hidden (ls_options h)"]
  by (auto simp: walk_of_def client_glob_stream_def glob_stream_def Let_def split: option.splits)

definition walk_failed :: "('w, 'c, 'r, 'o, 't) hdfs_native \<Rightarrow> HdfsListStream \<Rightarrow> hdfs_error \<Rightarrow> exn" where
  "walk_failed N h e = list_error h (error_text N (lit ''invalid glob pattern'') e)"

text \<open>The cells with the walk at its handle.\<close>

definition attached :: "addr \<Rightarrow> BridgeListStream option \<Rightarrow> (unit, 'c, 'r, 'o, 't) mem \<Rightarrow> (unit, 'c, 'r, 'o, 't) mem \<Rightarrow> bool" where
  "attached p os c c' \<longleftrightarrow>
     (case os of
        None \<Rightarrow> p = null \<and> c' = c
      | Some b \<Rightarrow> p \<noteq> null \<and> streams c p = None \<and> c' = c\<lparr>streams := (streams c)(p \<mapsto> b)\<rparr>)"

lemma alloc_stream_ok:
  assumes "fs_ok H s"
  shows "fs_ok H (s\<lparr>heap := snd (alloc_stream b (heap s))\<rparr>)"
    "attached (fresh (heap s)) (Some b) (cells s) (cells_of (snd (alloc_stream b (heap s))))"
    "view (s\<lparr>heap := snd (alloc_stream b (heap s))\<rparr>) = view s"
proof -
  note ok = fs_okD [OF assms]
  have cells: "cells_ok ((heap s)\<lparr>fresh := Suc (fresh (heap s))\<rparr>)"
    using ok(3) by (simp add: cells_ok_def live_below_mono [of "fresh (heap s)" _ "Suc (fresh (heap s))"])
  show "fs_ok H (s\<lparr>heap := snd (alloc_stream b (heap s))\<rparr>)"
    using mem_ok_handles(4) [OF ok(2), of b] ok(1) cells
    by (intro fs_ok_heap [OF assms]) (simp_all add: heap_ok_def alloc_stream_def cells_ok_def)
  have "streams (heap s) (fresh (heap s)) = None"
    using ok(2) live_below_fresh [of "fresh (heap s)" "streams (heap s)"] by (simp add: mem_ok_def)
  then show "attached (fresh (heap s)) (Some b) (cells s) (cells_of (snd (alloc_stream b (heap s))))"
    using ok(4) by (simp add: attached_def alloc_stream_def)
  show "view (s\<lparr>heap := snd (alloc_stream b (heap s))\<rparr>) = view s"
    by (simp add: view_heap_same alloc_stream_def)
qed

lemma attached_same:
  assumes "attached p os c c'"
  shows "statuses c' = statuses c" "counts c' = counts c" "args c' = args c" "cstrs c' = cstrs c" "entry_arrays c' = entry_arrays c"
  using assms by (auto simp: attached_def split: option.splits)

text \<open>A cell of the caller that is given back.\<close>

lemma attached_drop:
  "attached p os (c\<lparr>statuses := (statuses c)(a \<mapsto> x1)\<rparr>) c' \<Longrightarrow> statuses c a = None \<Longrightarrow>
     attached p os c (c'\<lparr>statuses := (statuses c')(a := None)\<rparr>)"
  "attached p os (c\<lparr>counts := (counts c)(a \<mapsto> x2)\<rparr>) c' \<Longrightarrow> counts c a = None \<Longrightarrow>
     attached p os c (c'\<lparr>counts := (counts c')(a := None)\<rparr>)"
  "attached p os (c\<lparr>args := (args c)(a \<mapsto> x3)\<rparr>) c' \<Longrightarrow> args c a = None \<Longrightarrow>
     attached p os c (c'\<lparr>args := (args c')(a := None)\<rparr>)"
  by (auto simp: attached_def fun_upd_idem split: option.splits)

definition walk_begun ::
  "('w, 'c, 'r, 'o, 't) hdfs_native \<Rightarrow> HdfsListStream \<Rightarrow> hdfs_error + BridgeListStream
     \<Rightarrow> (exn + unit) \<times> addr \<Rightarrow> (unit, 'c, 'r, 'o, 't) mem \<Rightarrow> (unit, 'c, 'r, 'o, 't) mem \<Rightarrow> bool" where
  "walk_begun N h r x c c' \<longleftrightarrow> fst x = map_sum (walk_failed N h) (\<lambda>_. ()) r \<and>
     attached (snd x) (case r of Inl _ \<Rightarrow> None | Inr b \<Rightarrow> Some b) c c'"

lemma start_glob_ok:
  fixes s :: "('w, 'c, 'r, 'o, 't) hdfs_fs"
  assumes "fs_ok H s" and "st \<noteq> null" and "statuses (cells s) st = Some status_clear" and "clients (heap s) client = Some c"
    and "arg_at path (c_str (ls_path h)) (cells s)" and "ls_glob h" and "walk_of N h c (cluster (heap s)) timing = r"
  shows "\<exists>x s' c'. start_glob N timing client h path st s = Some (x, s') \<and> fs_ok H s' \<and> view s' = view s \<and>
    (cells s' = c' \<or> (\<exists>k t. told st k t c' (cells s'))) \<and> walk_begun N h r x (cells s) c'"
proof -
  note read = arg_at_read [OF assms(5)]
  note opened = glob_walk_of [OF assms(6), of N c "cluster (heap s)" timing, unfolded assms(7)]
  show ?thesis
  proof (cases r)
    case (Inl e)
    let ?t = "error_text N (lit ''invalid glob pattern'') e"
    let ?m = "reported st (classify e) ?t (heap s)"
    have "statuses (heap s) st \<noteq> None" "?m = reported st (classify e) ?t ((heap s)\<lparr>cluster := cluster (heap s)\<rparr>)"
      using assms(3) by simp_all
    note told = report_ok [OF assms(1,2) this]
    have "hdfs_bridge_glob_stream_open N client path (ls_parallelism h)
        (o_skip_permission_errors (ls_options h)) (o_include_hidden (ls_options h)) st (fst timing) (snd timing) (heap s) = Some (null, ?m)"
      using assms(2-4) read opened Inl by (simp add: hdfs_bridge_glob_stream_open_def fail_with_reported del: lit_Cons)
    moreover have "status_message st ?m = Some ?t" using told_read(2) [of st _ _ _ "s\<lparr>heap := ?m\<rparr>"] told(2) by simp
    ultimately have "start_glob N timing client h path st s = Some ((Inl (walk_failed N h e), null), s\<lparr>heap := ?m\<rparr>)"
      using assms(6) by (simp add: start_glob_def walk_failed_def list_error_def del: lit_Cons)
    moreover have "walk_begun N h r (Inl (walk_failed N h e), null) (cells s) (cells s)"
      using Inl by (simp add: walk_begun_def attached_def)
    moreover have "view (s\<lparr>heap := ?m\<rparr>) = view s" using told(3) by simp
    ultimately show ?thesis using told(1,2) by auto
  next
    case (Inr b)
    let ?m = "snd (alloc_stream b (heap s))"
    note new = alloc_stream_ok [OF assms(1), of b]
    have "hdfs_bridge_glob_stream_open N client path (ls_parallelism h)
        (o_skip_permission_errors (ls_options h)) (o_include_hidden (ls_options h)) st (fst timing) (snd timing) (heap s) =
        Some (fresh (heap s), ?m)"
      using assms(4) read opened Inr by (simp add: hdfs_bridge_glob_stream_open_def alloc_stream_def)
    moreover have "statuses ?m st = Some status_clear" using assms(3) by (simp add: alloc_stream_def)
    ultimately have "start_glob N timing client h path st s = Some ((Inr (), fresh (heap s)), s\<lparr>heap := ?m\<rparr>)"
      using fs_okD(4) [OF assms(1)] by (simp add: start_glob_def status_message_def del: lit_Cons)
    with new Inr show ?thesis by (auto simp: walk_begun_def)
  qed
qed

lemma start_listing_ok:
  assumes "fs_ok H s" and "clients (heap s) client = Some c"
    and "arg_at path (c_str (ls_path h)) (cells s)" and "\<not> ls_glob h" and "walk_of N h c (cluster (heap s)) timing = r"
  shows "\<exists>x s'. start_listing N timing client h path s = Some (x, s') \<and> fs_ok H s' \<and> view s' = view s \<and>
    walk_begun N h r x (cells s) (cells s')"
proof -
  let ?b = "client_list_stream N c (decode_lossy (c_str (ls_path h))) False (at_least_1 (ls_parallelism h))
    \<lparr>skip_permission_errors = o_skip_permission_errors (ls_options h), include_hidden = o_include_hidden (ls_options h)\<rparr>
    (cluster (heap s)) (fst timing) (snd timing)"
  have "r = Inr ?b" using assms(4,5) by (simp add: walk_of_def Let_def)
  moreover have "start_listing N timing client h path s =
      Some ((Inr (), fresh (heap s)), s\<lparr>heap := snd (alloc_stream ?b (heap s))\<rparr>)"
    using assms(2) arg_at_read [OF assms(3)]
    by (simp add: start_listing_def hdfs_bridge_list_stream_open_def alloc_stream_def)
  ultimately show ?thesis using alloc_stream_ok [OF assms(1), of ?b] by (simp add: walk_begun_def)
qed

lemma open_walk_ok:
  fixes s :: "('w, 'c, 'r, 'o, 't) hdfs_fs"
  assumes "fs_ok H s" and "clients (heap s) client = Some c" and "walk_of N h c (cluster (heap s)) timing = r"
  shows "\<exists>x s'. open_walk N timing client h s = Some (x, s') \<and> fs_ok H s' \<and>
    (view s' = view s \<and> walk_begun N h r x (cells s) (cells s'))"
  unfolding open_walk_def
proof (rule with_arg_ok [OF assms(1)])
  fix path and s1 :: "('w, 'c, 'r, 'o, 't) hdfs_fs"
  assume s1: "fs_ok H s1" "args (cells s) path = None" "cstrs (cells s) path = None"
    "cells s1 = (cells s)\<lparr>args := (args (cells s))(path \<mapsto> c_str (ls_path h))\<rparr>" "view s1 = view s"
    "clients (heap s1) = clients (heap s)"
  have arg: "arg_at path (c_str (ls_path h)) (cells s1)" unfolding s1(4) using s1(3) by (simp add: arg_at_def)
  have walk: "walk_of N h c (cluster (heap s1)) timing = r" using assms(3) block_view [OF s1(5)] by simp
  have client: "clients (heap s1) client = Some c" using assms(2) s1(6) by simp
  have "\<exists>x s2. (if ls_glob h then with_status (start_glob N timing client h path) else start_listing N timing client h path) s1 =
      Some (x, s2) \<and> fs_ok H s2 \<and> (view s2 = view s1 \<and> walk_begun N h r x (cells s1) (cells s2))"
  proof (cases "ls_glob h")
    case False
    from start_listing_ok [OF s1(1) client arg False walk] False show ?thesis by simp
  next
    case True
    have "\<exists>x s2. with_status (start_glob N timing client h path) s1 = Some (x, s2) \<and> fs_ok H s2 \<and>
        (view s2 = view s1 \<and> walk_begun N h r x (cells s1) (cells s2))"
    proof (rule with_status_ok [OF s1(1)])
      fix st and s2 :: "('w, 'c, 'r, 'o, 't) hdfs_fs"
      assume s2: "fs_ok H s2" "st \<noteq> null" "statuses (cells s1) st = None"
        "cells s2 = (cells s1)\<lparr>statuses := (statuses (cells s1))(st \<mapsto> status_clear)\<rparr>" "view s2 = view s1"
        "clients (heap s2) = clients (heap s1)"
      have a: "arg_at path (c_str (ls_path h)) (cells s2)" and clear: "statuses (cells s2) st = Some status_clear"
        unfolding s2(4) using arg by simp_all
      have "walk_of N h c (cluster (heap s2)) timing = r" using walk block_view [OF s2(5)] by simp
      from start_glob_ok [OF s2(1,2) clear client [folded s2(6)] a True this] obtain x s3 c' where
        s3: "start_glob N timing client h path st s2 = Some (x, s3)" "fs_ok H s3" "view s3 = view s2"
          "cells s3 = c' \<or> (\<exists>k t. told st k t c' (cells s3))" "walk_begun N h r x (cells s2) c'" by blast
      from s3(5) have att: "attached (snd x) (case r of Inl _ \<Rightarrow> None | Inr b \<Rightarrow> Some b) (cells s2) c'" by (simp add: walk_begun_def)
      have "statuses c' st = Some status_clear" "arrays_ok (cstrs c') (entry_arrays c')"
        using attached_same [OF att] clear fs_ok_arrays [OF s2(1)] by simp_all
      moreover have "walk_begun N h r x (cells s1) (c'\<lparr>statuses := (statuses c')(st := None)\<rparr>)"
        using s3(5) attached_drop(1) [OF att [unfolded s2(4)] s2(3)] by (simp add: walk_begun_def)
      moreover have "view s3 = view s1" using s3(3) s2(5) by simp
      ultimately show "\<exists>x s3 c. start_glob N timing client h path st s2 = Some (x, s3) \<and> fs_ok H s3 \<and>
          (cells s3 = c \<or> (\<exists>k t. told st k t c (cells s3))) \<and> statuses c st = Some status_clear \<and>
          arrays_ok (cstrs c) (entry_arrays c) \<and>
          (view s3 = view s1 \<and> walk_begun N h r x (cells s1) (c\<lparr>statuses := (statuses c)(st := None)\<rparr>))"
        using s3(1,2,4) by blast
    qed
    with True show ?thesis by simp
  qed
  then obtain x s2 where s2: "(if ls_glob h then with_status (start_glob N timing client h path) else start_listing N timing client h path) s1 =
      Some (x, s2)" "fs_ok H s2" "view s2 = view s1" "walk_begun N h r x (cells s1) (cells s2)" by blast
  have "walk_begun N h r x (cells s) ((cells s2)\<lparr>args := (args (cells s2))(path := None)\<rparr>)"
    using s2(4) attached_drop(3) [OF _ s1(2)] unfolding walk_begun_def s1(4) by blast
  with s2 s1(5) show "\<exists>x s2. (if ls_glob h then with_status (start_glob N timing client h path) else start_listing N timing client h path) s1 =
      Some (x, s2) \<and> fs_ok H s2 \<and> (view s2 = view s \<and> walk_begun N h r x (cells s) ((cells s2)\<lparr>args := (args (cells s2))(path := None)\<rparr>))"
    by auto
qed

text \<open>An opening on views.\<close>

definition abs_open ::
  "('w, 'c, 'r, 'o, 't) hdfs_native \<Rightarrow> walk_timing \<Rightarrow> HdfsListStream \<Rightarrow> ('w, 'c, 't) fs_view
     \<Rightarrow> (exn + BridgeListStream) \<times> ('w, 'c, 't) fs_view" where
  "abs_open N timing h v =
     (case abs_get N (ls_authority h) v of
        (Inl e, v) \<Rightarrow> (Inl e, v)
      | (Inr c, v) \<Rightarrow> (map_sum (walk_failed N h) id (walk_of N h c (v_world v) timing), v))"

text \<open>What a stream holds, and what it leaves in the cells beside its walk.\<close>

definition stream_ok ::
  "HdfsListStream \<Rightarrow> BridgeListStream option \<Rightarrow> (unit, 'c, 'r, 'o, 't) mem \<Rightarrow> addr multiset \<Rightarrow> ('w, 'c, 'r, 'o, 't) hdfs_fs \<Rightarrow> bool" where
  "stream_ok h os c H s \<longleftrightarrow> fs_ok (holding (ls_client h) + H) s \<and> attached (ls_handle h) os c (cells s) \<and>
     (os \<noteq> None \<longrightarrow> ls_client h \<noteq> null \<and> connections s (ls_authority h) \<noteq> None)"

lemma release_holding:
  assumes "fs_ok (holding p + H) s"
  shows "\<exists>s'. release p s = Some s' \<and> fs_ok H s' \<and> connections s' = connections s \<and> view s' = view s \<and> cells s' = cells s"
proof (cases "p = null")
  case True
  with assms show ?thesis by (simp add: release_def)
next
  case False
  with assms have "fs_ok (add_mset p H) s" by simp
  from release_ok [OF this] show ?thesis .
qed

text \<open>The cells of a block leave the connections alone; a connection never goes away.\<close>

lemma with_block_connections:
  "with_arg str body s = Some (x, s') \<Longrightarrow>
     \<exists>p s1 s2. body p s1 = Some (x, s2) \<and> connections s1 = connections s \<and> connections s' = connections s2"
  "with_status body s = Some (x, s') \<Longrightarrow>
     \<exists>p s1 s2. body p s1 = Some (x, s2) \<and> connections s1 = connections s \<and> connections s' = connections s2"
  "with_count body s = Some (x, s') \<Longrightarrow>
     \<exists>p s1 s2. body p s1 = Some (x, s2) \<and> connections s1 = connections s \<and> connections s' = connections s2"
  by (fastforce simp: with_arg_def with_status_def with_count_def Let_def split: prod.splits bind_splits)+

lemma open_walk_connections:
  assumes "open_walk N timing client h s = Some (x, s')"
  shows "connections s' = connections s"
proof -
  have glob: "connections s2 = connections s1" if "start_glob N timing client h path st s1 = Some (y, s2)" for path st s1 y s2
    using that by (auto simp: start_glob_def split: bind_splits prod.splits)
  have list: "connections s2 = connections s1" if "start_listing N timing client h path s1 = Some (y, s2)" for path s1 y s2
    using that by (auto simp: start_listing_def split: bind_splits prod.splits)
  from with_block_connections(1) [OF assms [unfolded open_walk_def]] obtain path s1 s2 where
    s2: "(if ls_glob h then with_status (start_glob N timing client h path) else start_listing N timing client h path) s1 = Some (x, s2)"
    "connections s1 = connections s" "connections s' = connections s2" by blast
  have "connections s2 = connections s1"
  proof (cases "ls_glob h")
    case True
    with s2(1) have "with_status (start_glob N timing client h path) s1 = Some (x, s2)" by simp
    from with_block_connections(2) [OF this] glob show ?thesis by metis
  next
    case False
    with s2(1) list show ?thesis by simp
  qed
  with s2(2,3) show ?thesis by simp
qed

lemma release_connections: "release p s = Some s' \<Longrightarrow> connections s' = connections s"
  by (auto simp: release_def Let_def split: if_splits bind_splits)

lemma connections_kept:
  "Get N a s = Some (r, s') \<Longrightarrow> connections s b \<noteq> None \<Longrightarrow> connections s' b \<noteq> None"
  "Invalidate a p s = Some s' \<Longrightarrow> connections s b \<noteq> None \<Longrightarrow> connections s' b \<noteq> None"
  by (auto simp: Get_def Connect_def Let_def Invalidate_def retain_def split: if_splits bind_splits prod.splits sum.splits
      dest!: release_connections)

lemma Open_keeps:
  assumes "Open N timing h s = Some (r, h', s')" and "connections s b \<noteq> None"
  shows "connections s' b \<noteq> None"
  using assms connections_kept(1) [of N "ls_authority h" s _ _ b]
  by (auto simp: Open_def Let_def split: prod.splits sum.splits bind_splits dest!: release_connections open_walk_connections)

lemma Open_ok:
  fixes s :: "('w, 'c, 'r, 'o, 't) hdfs_fs"
  assumes "fs_ok (holding (ls_client h) + H) s" and "ls_handle h = null" and "connections s (ls_authority h) \<noteq> None"
    and "abs_open N timing h (view s) = (r, v)"
  shows "\<exists>h' s'. Open N timing h s = Some (map_sum id (\<lambda>_. ()) r, h', s') \<and>
    stream_ok h' (case r of Inl _ \<Rightarrow> None | Inr b \<Rightarrow> Some b) (cells s) H s' \<and> view s' = v \<and>
    h' = h\<lparr>ls_client := ls_client h', ls_handle := ls_handle h'\<rparr> \<and>
    (\<forall>b. r = Inr b \<longrightarrow> connections s' (ls_authority h) = Some (ls_client h'))"
proof -
  obtain g v1 where g: "abs_get N (ls_authority h) (view s) = (g, v1)" by force
  from get_ok [OF assms(1,3) g] obtain got s1 where s1: "Get N (ls_authority h) s = Some (got, s1)" "view s1 = v1" "cells s1 = cells s"
    and got: "case g of
       Inl e \<Rightarrow> got = Inl e \<and> fs_ok (holding (ls_client h) + H) s1
     | Inr c \<Rightarrow> \<exists>p. got = Inr p \<and> fs_ok (add_mset p (holding (ls_client h) + H)) s1 \<and> connections s1 (ls_authority h) = Some p \<and>
         clients (heap s1) p = Some c" by blast
  show ?thesis
  proof (cases g)
    case (Inl e)
    with g assms(4) have "r = Inl e" "v = v1" by (simp_all add: abs_open_def)
    with Inl s1 got assms(2) show ?thesis
      by (intro exI [of _ h] exI [of _ s1]) (simp add: Open_def stream_ok_def attached_def)
  next
    case (Inr c)
    with got obtain p where p: "got = Inr p" "fs_ok (add_mset p (holding (ls_client h) + H)) s1"
      "connections s1 (ls_authority h) = Some p" "clients (heap s1) p = Some c" by auto
    have "fs_ok (holding (ls_client h) + add_mset p H) s1" using p(2) by simp
    from release_holding [OF this] obtain s2 where s2: "release (ls_client h) s1 = Some s2" "fs_ok (add_mset p H) s2"
      "connections s2 = connections s1" "view s2 = view s1" "cells s2 = cells s1" by blast
    have null: "p \<noteq> null" using fs_ok_held(1) [OF s2(2)] .
    have "v_clients (view s2) (ls_authority h) = v_clients (view s1) (ls_authority h)" using s2(4) by simp
    then have client: "clients (heap s2) p = Some c" using p(3,4) s2(3) by simp
    let ?h = "h\<lparr>ls_client := p\<rparr>"
    obtain q where q: "walk_of N ?h c (cluster (heap s2)) timing = q" by blast
    have same: "walk_of N ?h c w timing = walk_of N h c w timing" "walk_failed N ?h = walk_failed N h" for w
      by (simp_all add: walk_of_def walk_failed_def list_error_def fun_eq_iff)
    have r: "r = map_sum (walk_failed N h) id q" "v = v1"
      using assms(4) g Inr q same s2(4) s1(2) view_sel(1) [of s2] by (auto simp: abs_open_def)
    from open_walk_ok [OF s2(2) client q] obtain x s3 where s3: "open_walk N timing p ?h s2 = Some (x, s3)" "fs_ok (add_mset p H) s3"
      "view s3 = view s2" "walk_begun N ?h q x (cells s2) (cells s3)" by blast
    note conn = open_walk_connections [OF s3(1)]
    have att: "fst x = map_sum id (\<lambda>_. ()) r" "attached (snd x) (case r of Inl _ \<Rightarrow> None | Inr b \<Rightarrow> Some b) (cells s2) (cells s3)"
      using s3(4) by (cases q; simp add: walk_begun_def r same)+
    have "Open N timing h s = Some (map_sum id (\<lambda>_. ()) r, ?h\<lparr>ls_handle := snd x\<rparr>, s3)"
      using s1(1) p(1) s2(1) s3(1) att(1) by (cases x) (simp add: Open_def)
    moreover have "stream_ok (?h\<lparr>ls_handle := snd x\<rparr>) (case r of Inl _ \<Rightarrow> None | Inr b \<Rightarrow> Some b) (cells s) H s3"
      using s3(2) att(2) s2(3,5) s1(3) null conn p(3) by (simp add: stream_ok_def)
    ultimately show ?thesis
      using s3(3) s2(3,4) s1(2) r(2) conn p(3) by (intro exI [of _ "?h\<lparr>ls_handle := snd x\<rparr>"] exI [of _ s3]) simp
  qed
qed

section \<open>One round\<close>

definition abs_round ::
  "('w, 'c, 'r, 'o, 't) hdfs_native \<Rightarrow> u64 \<Rightarrow> nat \<Rightarrow> walk_timing \<Rightarrow> HdfsListStream \<Rightarrow> bool \<Rightarrow> BridgeListStream
     \<Rightarrow> ('w, 'c, 't) fs_view \<Rightarrow> round \<times> BridgeListStream option \<times> ('w, 'c, 't) fs_view" where
  "abs_round N max_entries ready timing h cur b v =
     (case next_batch (at_least_1 (ucast max_entries)) ready b of
        (Inr xs, b) \<Rightarrow> (Return (map (entry_of (ls_authority h)) xs), Some b, v)
      | (Inl e, b) \<Rightarrow>
          if classify e = HDFS_ERR_CONNECTION \<and> \<not> ls_emitted_any h \<and> \<not> ls_retried h then
            (case abs_open N timing h (if cur then v\<lparr>v_clients := (v_clients v)(ls_authority h := None)\<rparr> else v) of
               (Inl x, v) \<Rightarrow> (Throw x, None, v)
             | (Inr b, v) \<Rightarrow> (Again, Some b, v))
          else (Throw (list_error h (error_text N (lit ''list '' @ quoted (stream_path b) @ lit '' failed'') e)), Some b, v))"

text \<open>The stream after a round.\<close>

definition went_on :: "HdfsListStream \<Rightarrow> round \<Rightarrow> BridgeListStream option \<Rightarrow> HdfsListStream \<Rightarrow> bool" where
  "went_on h r os h' \<longleftrightarrow>
     h' = h\<lparr>ls_client := ls_client h', ls_handle := ls_handle h',
       ls_emitted_any := ls_emitted_any h \<or> (\<exists>x xs. r = Return (x # xs)), ls_retried := ls_retried h \<or> r = Again \<or> os = None\<rparr>"

definition round_done ::
  "HdfsListStream \<Rightarrow> addr \<Rightarrow> addr \<Rightarrow> (unit, 'c, 'r, 'o, 't) mem \<Rightarrow> addr multiset \<Rightarrow> round \<times> BridgeListStream option \<times> ('w, 'c, 't) fs_view
     \<Rightarrow> (round \<times> HdfsListStream) \<times> ('w, 'c, 'r, 'o, 't) hdfs_fs \<Rightarrow> bool" where
  "round_done h cnt st c H res x \<longleftrightarrow>
     (case res of (r, os, v) \<Rightarrow> case x of ((r', h'), s') \<Rightarrow>
        r' = r \<and> fs_ok (holding (ls_client h') + H) s' \<and> view s' = v \<and> went_on h r os h' \<and> (os \<noteq> None \<longrightarrow> ls_client h' \<noteq> null) \<and>
        (\<exists>n c'. (cells s' = c' \<or> (\<exists>k t. told st k t c' (cells s'))) \<and>
          attached (ls_handle h') os (c\<lparr>counts := (counts c)(cnt \<mapsto> n)\<rparr>) c'))"

text \<open>The stream of the bridge after its call.\<close>

lemma round_doneI:
  assumes "fs_ok (holding (ls_client h') + H) s'" "view s' = v" "went_on h r os h'" "os \<noteq> None \<longrightarrow> ls_client h' \<noteq> null"
    and "cells s' = c' \<or> (\<exists>k t. told st k t c' (cells s'))" "attached (ls_handle h') os (c\<lparr>counts := (counts c)(cnt \<mapsto> n)\<rparr>) c'"
  shows "round_done h cnt st c H (r, os, v) ((r, h'), s')"
  using assms unfolding round_done_def prod.case by blast

lemma turn_ok:
  assumes "stream_ok h (Some b) c H s" and "counts c cnt \<noteq> None"
    and m_def: "m = (heap s)\<lparr>counts := (counts (heap s))(cnt \<mapsto> n), streams := (streams (heap s))(ls_handle h \<mapsto> b')\<rparr>"
  shows "fs_ok (holding (ls_client h) + H) (s\<lparr>heap := m\<rparr>)" "view (s\<lparr>heap := m\<rparr>) = view s"
    "cells_of m = c\<lparr>counts := (counts c)(cnt \<mapsto> n), streams := (streams c)(ls_handle h \<mapsto> b')\<rparr>"
    "streams (heap s) (ls_handle h) = Some b" "counts (heap s) cnt \<noteq> None"
proof -
  have ok: "fs_ok (holding (ls_client h) + H) s" using assms(1) unfolding stream_ok_def by blast
  have c: "cells s = c\<lparr>streams := (streams c)(ls_handle h \<mapsto> b)\<rparr>"
    using assms(1) unfolding stream_ok_def attached_def option.case by blast
  from arg_cong [OF c, of streams] arg_cong [OF c, of counts]
  have sel: "streams (heap s) = (streams c)(ls_handle h \<mapsto> b)" "counts (heap s) = counts c" by simp_all
  then show live: "streams (heap s) (ls_handle h) = Some b" "counts (heap s) cnt \<noteq> None" using assms(2) by simp_all
  have "heap_ok m"
    using fs_okD(1) [OF ok] live by (simp add: m_def heap_ok_def mem_ok_def live_below_known)
  moreover have "cells_ok m"
    using fs_okD(3) [OF ok] live by (simp add: m_def cells_ok_def live_below_known)
  ultimately show "fs_ok (holding (ls_client h) + H) (s\<lparr>heap := m\<rparr>)" by (intro fs_ok_heap [OF ok]) (simp_all add: m_def)
  show "view (s\<lparr>heap := m\<rparr>) = view s" by (simp add: m_def view_heap_same)
  have "cells_of m = (cells s)\<lparr>counts := (counts (cells s))(cnt \<mapsto> n), streams := (streams (cells s))(ls_handle h \<mapsto> b')\<rparr>"
    by (simp add: m_def)
  then show "cells_of m = c\<lparr>counts := (counts c)(cnt \<mapsto> n), streams := (streams c)(ls_handle h \<mapsto> b')\<rparr>"
    unfolding c by simp
qed

lemma fs_ok_fresh:
  assumes "fs_ok H (s\<lparr>heap := m\<rparr>)" and "fresh m \<le> n"
  shows "fs_ok H (s\<lparr>heap := m\<lparr>fresh := n\<rparr>\<rparr>)"
proof -
  have "heap_ok (m\<lparr>fresh := n\<rparr>)"
    using fs_okD(1) [OF assms(1)] assms(2) by (auto simp: heap_ok_def mem_ok_def intro: live_below_mono [OF _ assms(2)])
  moreover have "cells_ok (m\<lparr>fresh := n\<rparr>)"
    using fs_okD(3) [OF assms(1)] by (auto simp: cells_ok_def intro: live_below_mono [OF _ assms(2)])
  ultimately have "fs_ok H ((s\<lparr>heap := m\<rparr>)\<lparr>heap := m\<lparr>fresh := n\<rparr>\<rparr>)" by (intro fs_ok_heap [OF assms(1)]) simp_all
  then show ?thesis by simp
qed

lemma turned_attached:
  assumes "stream_ok h (Some b) c H s" and "cells_of m = c\<lparr>counts := (counts c)(cnt \<mapsto> n), streams := (streams c)(ls_handle h \<mapsto> b')\<rparr>"
  shows "attached (ls_handle h) (Some b') (c\<lparr>counts := (counts c)(cnt \<mapsto> n)\<rparr>) (cells_of m)"
  using assms by (simp add: stream_ok_def attached_def)

lemma round_returns:
  fixes s :: "('w, 'c, 'r, 'o, 't) hdfs_fs"
  assumes "stream_ok h (Some b) c H s" and "counts c cnt \<noteq> None" and "statuses (cells s) st = Some status_clear"
    and "next_batch (at_least_1 (ucast max_entries)) ready b = (Inr xs, b')"
  shows "\<exists>x. round_body N max_entries ready timing h cnt st s = Some x \<and>
    round_done h cnt st c H (Return (map (entry_of (ls_authority h)) xs), Some b', view s) x"
proof -
  let ?m = "\<lambda>n. (heap s)\<lparr>counts := (counts (heap s))(cnt \<mapsto> n), streams := (streams (heap s))(ls_handle h \<mapsto> b')\<rparr>"
  note turn = turn_ok [OF assms(1,2) refl]
  note step = stream_next_eq [OF turn(4,5) assms(4), of N st, unfolded Let_def sum.case]
  have clear: "statuses (heap s) st = Some status_clear" using assms(3) by simp
  have client: "ls_client h \<noteq> null" using assms(1) by (simp add: stream_ok_def)
  show ?thesis
  proof (cases "xs = []")
    case True
    have "hdfs_bridge_list_stream_next N (ls_handle h) (ucast max_entries) ready cnt st (heap s) = Some (null, ?m 0)"
      unfolding step using True by (simp add: statuses_to_entries_eq)
    then have "round_body N max_entries ready timing h cnt st s = Some ((Return [], h), s\<lparr>heap := ?m 0\<rparr>)"
      using clear by (simp add: round_body_def)
    moreover have "round_done h cnt st c H (Return [], Some b', view s) ((Return [], h), s\<lparr>heap := ?m 0\<rparr>)"
      using client by (intro round_doneI [OF turn(1,2) _ _ _ turned_attached [OF assms(1) turn(3) [of b' 0]]]) (simp_all add: went_on_def)
    ultimately show ?thesis using True by auto
  next
    case False
    let ?m1 = "?m 0"
    let ?m2 = "entries_built xs cnt ?m1"
    let ?n = "of_nat (length xs) :: i32"
    let ?m3 = "?m1\<lparr>counts := (counts ?m1)(cnt \<mapsto> ?n), fresh := fresh ?m1 + 3 * length xs + 1\<rparr>"
    have len: "length xs < 2 ^ 31" using batch_length(2) [OF assms(4)] .
    note n = sint_of_nat_32 [OF len]
    have ok1: "mem_ok ?m1" using fs_okD(2) [OF turn(1)] by simp
    have called: "hdfs_bridge_list_stream_next N (ls_handle h) (ucast max_entries) ready cnt st (heap s) =
        Some (fresh ?m1 + 3 * length xs, ?m2)"
      unfolding step using False by (simp add: statuses_to_entries_eq)
    have built: "statuses ?m2 st = Some status_clear" "counts ?m2 cnt = Some ?n"
      "entry_arrays ?m2 (fresh ?m1 + 3 * length xs) = Some (entries_at (fresh ?m1) xs)"
      using clear by (simp_all add: entries_built_def Let_def)
    have made: "MakeHdfsEntries (ls_authority h) (entries_at (fresh ?m1) xs) ?m2 = Some (map (entry_of (ls_authority h)) xs)"
      by (rule make_entries_built [OF ok1])
    have freed: "hdfs_bridge_free_dir_entries (fresh ?m1 + 3 * length xs) ?n ?m2 = Some ?m3"
      using free_entries_built [OF ok1 False len, of cnt] by simp
    have "0 < length xs" using False by simp
    then have body: "round_body N max_entries ready timing h cnt st s =
        Some ((Return (map (entry_of (ls_authority h)) xs), h\<lparr>ls_emitted_any := True\<rparr>), s\<lparr>heap := ?m3\<rparr>)"
      unfolding round_body_def called using built made freed n by (simp add: Let_def)
    have m3: "?m3 = (?m ?n)\<lparr>fresh := fresh (heap s) + 3 * length xs + 1\<rparr>" by simp
    have ok3: "fs_ok (holding (ls_client h) + H) (s\<lparr>heap := ?m3\<rparr>)"
      unfolding m3 by (rule fs_ok_fresh [OF turn(1) [of b' ?n]]) simp
    have view3: "view (s\<lparr>heap := ?m3\<rparr>) = view s" by (simp add: view_heap_same)
    have "cells_of ?m3 = c\<lparr>counts := (counts c)(cnt \<mapsto> ?n), streams := (streams c)(ls_handle h \<mapsto> b')\<rparr>"
      unfolding m3 using turn(3) [of b' ?n] by (simp only: cells_of_upd)
    note att = turned_attached [OF assms(1) this]
    let ?h = "h\<lparr>ls_emitted_any := True\<rparr>"
    have "round_done h cnt st c H (Return (map (entry_of (ls_authority h)) xs), Some b', view s)
        ((Return (map (entry_of (ls_authority h)) xs), ?h), s\<lparr>heap := ?m3\<rparr>)"
    proof (rule round_doneI)
      show "fs_ok (holding (ls_client ?h) + H) (s\<lparr>heap := ?m3\<rparr>)" using ok3 by simp
      show "view (s\<lparr>heap := ?m3\<rparr>) = view s" by (rule view3)
      show "went_on h (Return (map (entry_of (ls_authority h)) xs)) (Some b') ?h"
        using False by (auto simp: went_on_def neq_Nil_conv)
      show "Some b' \<noteq> None \<longrightarrow> ls_client ?h \<noteq> null" using client by simp
      show "attached (ls_handle ?h) (Some b') (c\<lparr>counts := (counts c)(cnt \<mapsto> ?n)\<rparr>) (cells_of ?m3)" using att by simp
    qed simp
    with body show ?thesis by blast
  qed
qed

lemma told_attached:
  assumes "told st k t c d" and "attached p os d d'"
  shows "\<exists>c'. told st k t c' d' \<and> attached p os c c'"
proof (cases os)
  case None
  with assms show ?thesis by (auto simp: attached_def)
next
  case (Some b)
  from assms(1) obtain q where q: "q \<noteq> null" "cstrs c q = None"
    "d = c\<lparr>cstrs := (cstrs c)(q \<mapsto> t), statuses := (statuses c)(st \<mapsto> \<lparr>code = k, msg = q\<rparr>)\<rparr>"
    by (auto simp: told_def)
  with assms(2) Some have "p \<noteq> null" "streams c p = None" "d' = d\<lparr>streams := (streams c)(p \<mapsto> b)\<rparr>"
    by (simp_all add: attached_def)
  with q Some show ?thesis
    by (intro exI [of _ "c\<lparr>streams := (streams c)(p \<mapsto> b)\<rparr>"]) (auto simp: told_def attached_def)
qed

text \<open>A call that reports an error of the walk.\<close>

lemma walk_reports:
  fixes s :: "('w, 'c, 'r, 'o, 't) hdfs_fs"
  assumes "stream_ok h (Some b) c H s" and "counts c cnt \<noteq> None" and "st \<noteq> null" and "statuses (cells s) st = Some status_clear"
    and "next_batch (at_least_1 (ucast max_entries)) ready b = (Inl e, b')"
    and t_def: "t = error_text N (lit ''list '' @ quoted (stream_path b') @ lit '' failed'') e"
  shows "\<exists>m. hdfs_bridge_list_stream_next N (ls_handle h) (ucast max_entries) ready cnt st (heap s) = Some (null, m) \<and>
    fs_ok (holding (ls_client h) + H) (s\<lparr>heap := m\<rparr>) \<and> view (s\<lparr>heap := m\<rparr>) = view s \<and>
    told st (classify e) t (c\<lparr>counts := (counts c)(cnt \<mapsto> 0), streams := (streams c)(ls_handle h \<mapsto> b')\<rparr>) (cells_of m)"
proof -
  let ?m = "(heap s)\<lparr>counts := (counts (heap s))(cnt \<mapsto> 0), streams := (streams (heap s))(ls_handle h \<mapsto> b')\<rparr>"
  note turn = turn_ok [OF assms(1,2) refl]
  have live: "statuses ?m st \<noteq> None" using assms(4) by simp
  let ?r = "reported st (classify e) t ?m"
  have "hdfs_bridge_list_stream_next N (ls_handle h) (ucast max_entries) ready cnt st (heap s) = Some (null, ?r)"
    using stream_next_eq [OF turn(4,5) assms(5), of N st] fail_with_reported [OF assms(3) live]
    by (simp add: t_def Let_def del: lit_Cons)
  moreover have "statuses (heap (s\<lparr>heap := ?m\<rparr>)) st \<noteq> None" "?r = reported st (classify e) t ((heap (s\<lparr>heap := ?m\<rparr>))\<lparr>cluster := cluster (heap s)\<rparr>)"
    using live by simp_all
  note report_ok [OF turn(1) [of b' 0] assms(3) this]
  ultimately show ?thesis using turn(2,3) [of b' 0] by simp
qed

lemma round_throws:
  fixes s :: "('w, 'c, 'r, 'o, 't) hdfs_fs"
  assumes "stream_ok h (Some b) c H s" and "counts c cnt \<noteq> None" and "st \<noteq> null" and "statuses (cells s) st = Some status_clear"
    and "next_batch (at_least_1 (ucast max_entries)) ready b = (Inl e, b')"
    and "\<not> (classify e = HDFS_ERR_CONNECTION \<and> \<not> ls_emitted_any h \<and> \<not> ls_retried h)"
  shows "\<exists>x. round_body N max_entries ready timing h cnt st s = Some x \<and>
    round_done h cnt st c H (Throw (list_error h (error_text N (lit ''list '' @ quoted (stream_path b') @ lit '' failed'') e)), Some b', view s) x"
proof -
  let ?t = "error_text N (lit ''list '' @ quoted (stream_path b') @ lit '' failed'') e"
  from walk_reports [OF assms(1-5) refl, of N] obtain m where
    m: "hdfs_bridge_list_stream_next N (ls_handle h) (ucast max_entries) ready cnt st (heap s) = Some (null, m)"
      "fs_ok (holding (ls_client h) + H) (s\<lparr>heap := m\<rparr>)" "view (s\<lparr>heap := m\<rparr>) = view s"
    and told: "told st (classify e) ?t (c\<lparr>counts := (counts c)(cnt \<mapsto> 0), streams := (streams c)(ls_handle h \<mapsto> b')\<rparr>) (cells_of m)"
    by blast
  from told have "told st (classify e) ?t (c\<lparr>counts := (counts c)(cnt \<mapsto> 0), streams := (streams c)(ls_handle h \<mapsto> b')\<rparr>)
      (cells (s\<lparr>heap := m\<rparr>))" by (simp del: lit_Cons)
  from told_read [OF this] obtain q where
    read: "statuses m st = Some \<lparr>code = classify e, msg = q\<rparr>" "status_message st m = Some ?t" by (auto simp del: lit_Cons)
  have no_retry: "(classify e = HDFS_ERR_CONNECTION \<and> \<not> ls_emitted_any h \<and> \<not> ls_retried h) = False" using assms(6) by blast
  have "round_body N max_entries ready timing h cnt st s = Some ((Throw (list_error h ?t), h), s\<lparr>heap := m\<rparr>)"
    unfolding round_body_def m(1) using read classify_not_ok [of e] by (simp add: no_retry del: lit_Cons)
  moreover have "attached (ls_handle h) (Some b') (c\<lparr>counts := (counts c)(cnt \<mapsto> 0)\<rparr>)
      (c\<lparr>counts := (counts c)(cnt \<mapsto> 0), streams := (streams c)(ls_handle h \<mapsto> b')\<rparr>)" "ls_client h \<noteq> null"
    using assms(1) by (simp_all add: stream_ok_def attached_def)
  then have "round_done h cnt st c H (Throw (list_error h ?t), Some b', view s) ((Throw (list_error h ?t), h), s\<lparr>heap := m\<rparr>)"
    using told m(2,3) by (intro round_doneI) (auto simp: went_on_def)
  ultimately show ?thesis by blast
qed

lemma invalidate_either:
  fixes s :: "('w, 'c, 'r, 'o, 't) hdfs_fs"
  assumes "fs_ok H s" and "connections s a \<noteq> None" and "p \<noteq> null"
  shows "\<exists>s'. Invalidate a p s = Some s' \<and> fs_ok H s' \<and> connections s' a \<noteq> None \<and> cells s' = cells s \<and>
    view s' = (if connections s a = Some p then (view s)\<lparr>v_clients := (v_clients (view s))(a := None)\<rparr> else view s)"
proof (cases "connections s a = Some p")
  case True
  from invalidate_ok [OF assms(1) True assms(3)] True show ?thesis by auto
next
  case False
  with assms(2) obtain q where "connections s a = Some q" "q \<noteq> p" by auto
  from invalidate_other [OF this] assms(1,2) False show ?thesis by auto
qed

lemma walk_flags:
  "walk_of N (h\<lparr>ls_retried := r, ls_handle := p\<rparr>) = walk_of N h" "walk_failed N (h\<lparr>ls_retried := r, ls_handle := p\<rparr>) = walk_failed N h"
  by (intro ext, simp add: walk_of_def) (intro ext, simp add: walk_failed_def list_error_def)

lemma abs_open_flags: "abs_open N timing (h\<lparr>ls_retried := r, ls_handle := p\<rparr>) = abs_open N timing h"
  unfolding abs_open_def walk_flags by simp

lemma round_retries:
  fixes s :: "('w, 'c, 'r, 'o, 't) hdfs_fs"
  assumes "stream_ok h (Some b) c H s" and "counts c cnt \<noteq> None" and "st \<noteq> null" and "statuses (cells s) st = Some status_clear"
    and "next_batch (at_least_1 (ucast max_entries)) ready b = (Inl e, b')"
    and "classify e = HDFS_ERR_CONNECTION" "\<not> ls_emitted_any h" "\<not> ls_retried h"
    and "abs_open N timing h (if connections s (ls_authority h) = Some (ls_client h)
      then (view s)\<lparr>v_clients := (v_clients (view s))(ls_authority h := None)\<rparr> else view s) = (r, v)"
  shows "\<exists>x. round_body N max_entries ready timing h cnt st s = Some x \<and>
    round_done h cnt st c H (case r of Inl x \<Rightarrow> Throw x | Inr _ \<Rightarrow> Again, case r of Inl _ \<Rightarrow> None | Inr b \<Rightarrow> Some b, v) x"
proof -
  let ?t = "error_text N (lit ''list '' @ quoted (stream_path b') @ lit '' failed'') e"
  let ?c = "c\<lparr>counts := (counts c)(cnt \<mapsto> 0)\<rparr>"
  from assms(1) have at: "ls_handle h \<noteq> null" "streams c (ls_handle h) = None" "ls_client h \<noteq> null" "connections s (ls_authority h) \<noteq> None"
    by (simp_all add: stream_ok_def attached_def)
  from walk_reports [OF assms(1-5) refl, of N] obtain m where
    m: "hdfs_bridge_list_stream_next N (ls_handle h) (ucast max_entries) ready cnt st (heap s) = Some (null, m)"
      "fs_ok (holding (ls_client h) + H) (s\<lparr>heap := m\<rparr>)" "view (s\<lparr>heap := m\<rparr>) = view s"
    and told: "told st (classify e) ?t (?c\<lparr>streams := (streams c)(ls_handle h \<mapsto> b')\<rparr>) (cells_of m)"
    by (auto simp del: lit_Cons)
  from told have "told st (classify e) ?t (?c\<lparr>streams := (streams c)(ls_handle h \<mapsto> b')\<rparr>) (cells (s\<lparr>heap := m\<rparr>))"
    by (simp del: lit_Cons)
  from told_read(1) [OF this] obtain q where read: "statuses m st = Some \<lparr>code = classify e, msg = q\<rparr>" by auto
  let ?m = "m\<lparr>streams := (streams m)(ls_handle h := None)\<rparr>"
  let ?s = "s\<lparr>heap := ?m\<rparr>"
  from told obtain q' where q': "q' \<noteq> null" "cstrs c q' = None" "cells_of m = c\<lparr>counts := (counts c)(cnt \<mapsto> 0),
      streams := (streams c)(ls_handle h \<mapsto> b'), cstrs := (cstrs c)(q' \<mapsto> ?t), statuses := (statuses c)(st \<mapsto> \<lparr>code = classify e, msg = q'\<rparr>)\<rparr>"
    by (auto simp: told_def)
  from arg_cong [OF q'(3), of streams] have streams: "streams m = (streams c)(ls_handle h \<mapsto> b')" by simp
  have free: "hdfs_bridge_list_stream_free (ls_handle h) m = Some ?m"
    using at(1) streams by (simp add: hdfs_bridge_list_stream_free_def)
  have "cells_of ?m = (cells_of m)\<lparr>streams := streams c\<rparr>" using streams at(2) by (simp add: fun_upd_idem)
  then have told': "told st (classify e) ?t ?c (cells_of ?m)"
    unfolding q'(3) told_def using q'(1,2) by (intro exI [of _ q']) simp
  have ok: "fs_ok (holding (ls_client h) + H) ((s\<lparr>heap := m\<rparr>)\<lparr>heap := ?m\<rparr>)"
    using fs_okD(1,3) [OF m(2)] heap_ok_fewer(3) [of m "ls_handle h"] by (intro fs_ok_heap [OF m(2)]) (simp_all add: cells_ok_def)
  have same: "view ?s = view s" using view_heap_same [of ?m "s\<lparr>heap := m\<rparr>"] m(3) by simp
  from invalidate_either [OF ok [simplified] _ at(3), of "ls_authority h"] at(4) same obtain s3 where
    s3: "Invalidate (ls_authority h) (ls_client h) ?s = Some s3" "fs_ok (holding (ls_client h) + H) s3"
      "connections s3 (ls_authority h) \<noteq> None" "cells s3 = cells_of ?m"
      "view s3 = (if connections s (ls_authority h) = Some (ls_client h)
        then (view s)\<lparr>v_clients := (v_clients (view s))(ls_authority h := None)\<rparr> else view s)" by auto
  let ?h = "h\<lparr>ls_retried := True, ls_handle := null\<rparr>"
  have "abs_open N timing ?h (view s3) = (r, v)"
    using assms(9) abs_open_flags [where N = N and timing = timing and h = h and p = null and r = True] unfolding s3(5) by simp
  from Open_ok [of ?h H s3, OF _ _ _ this] s3(2,3) obtain h' s4 where
    s4: "Open N timing ?h s3 = Some (map_sum id (\<lambda>_. ()) r, h', s4)"
      "stream_ok h' (case r of Inl _ \<Rightarrow> None | Inr b \<Rightarrow> Some b) (cells s3) H s4" "view s4 = v"
      "h' = ?h\<lparr>ls_client := ls_client h', ls_handle := ls_handle h'\<rparr>" by auto
  from s4(2) have att: "attached (ls_handle h') (case r of Inl _ \<Rightarrow> None | Inr b \<Rightarrow> Some b) (cells_of ?m) (cells s4)"
    unfolding s3(4) stream_ok_def by blast
  from told_attached [OF told' att] obtain c' where c': "told st (classify e) ?t c' (cells s4)"
    "attached (ls_handle h') (case r of Inl _ \<Rightarrow> None | Inr b \<Rightarrow> Some b) ?c c'" by blast
  have "round_body N max_entries ready timing h cnt st s =
      Some ((case r of Inl x \<Rightarrow> Throw x | Inr _ \<Rightarrow> Again, h'), s4)"
    unfolding round_body_def m(1) using read assms(6-8) free s3(1) s4(1) classify_not_ok [of e]
    by (cases r) (simp_all add: category_defs)
  moreover have "round_done h cnt st c H (case r of Inl x \<Rightarrow> Throw x | Inr _ \<Rightarrow> Again, case r of Inl _ \<Rightarrow> None | Inr b \<Rightarrow> Some b, v)
      ((case r of Inl x \<Rightarrow> Throw x | Inr _ \<Rightarrow> Again, h'), s4)"
  proof (rule round_doneI)
    show "fs_ok (holding (ls_client h') + H) s4" using s4(2) by (simp add: stream_ok_def)
    show "went_on h (case r of Inl x \<Rightarrow> Throw x | Inr _ \<Rightarrow> Again) (case r of Inl _ \<Rightarrow> None | Inr b \<Rightarrow> Some b) h'"
      using s4(4) assms(7) by (cases r; cases h; cases h') (simp_all add: went_on_def)
    show "(case r of Inl _ \<Rightarrow> None | Inr b \<Rightarrow> Some b) \<noteq> None \<longrightarrow> ls_client h' \<noteq> null"
      using s4(2) by (simp add: stream_ok_def)
    show "cells s4 = c' \<or> (\<exists>k t. told st k t c' (cells s4))" using c'(1) by blast
  qed (use s4(3) c'(2) in simp_all)
  ultimately show ?thesis by blast
qed

text \<open>A round in its scope.\<close>

lemma round_body_ok:
  fixes s :: "('w, 'c, 'r, 'o, 't) hdfs_fs"
  assumes "stream_ok h (Some b) c H s" and "counts c cnt \<noteq> None" and "st \<noteq> null" and "statuses (cells s) st = Some status_clear"
  shows "\<exists>x. round_body N max_entries ready timing h cnt st s = Some x \<and> round_done h cnt st c H
    (abs_round N max_entries ready timing h (connections s (ls_authority h) = Some (ls_client h)) b (view s)) x"
proof -
  obtain q b' where nb: "next_batch (at_least_1 (ucast max_entries)) ready b = (q, b')" by force
  show ?thesis
  proof (cases q)
    case (Inr xs)
    with round_returns [OF assms(1,2,4)] nb show ?thesis by (simp add: abs_round_def)
  next
    case (Inl e)
    show ?thesis
    proof (cases "classify e = HDFS_ERR_CONNECTION \<and> \<not> ls_emitted_any h \<and> \<not> ls_retried h")
      case False
      then have "abs_round N max_entries ready timing h cur b (view s) =
          (Throw (list_error h (error_text N (lit ''list '' @ quoted (stream_path b') @ lit '' failed'') e)), Some b', view s)" for cur
        unfolding abs_round_def nb Inl by (simp only: prod.case sum.case if_False)
      with round_throws [OF assms nb [unfolded Inl] False] show ?thesis by (simp only:)
    next
      case True
      then have ret: "classify e = HDFS_ERR_CONNECTION" "\<not> ls_emitted_any h" "\<not> ls_retried h" by blast+
      let ?v = "if connections s (ls_authority h) = Some (ls_client h)
        then (view s)\<lparr>v_clients := (v_clients (view s))(ls_authority h := None)\<rparr> else view s"
      obtain r v where r: "abs_open N timing h ?v = (r, v)" by force
      have "abs_round N max_entries ready timing h (connections s (ls_authority h) = Some (ls_client h)) b (view s) =
          (case r of Inl x \<Rightarrow> Throw x | Inr _ \<Rightarrow> Again, case r of Inl _ \<Rightarrow> None | Inr b \<Rightarrow> Some b, v)"
        unfolding abs_round_def nb Inl prod.case sum.case if_P [OF True] r by (cases r) simp_all
      with round_retries [OF assms nb [unfolded Inl] ret r] show ?thesis by (simp only:)
    qed
  qed
qed

lemma next_round_ok:
  fixes s :: "('w, 'c, 'r, 'o, 't) hdfs_fs"
  assumes "stream_ok h (Some b) c H s"
    and "abs_round N max_entries ready timing h (connections s (ls_authority h) = Some (ls_client h)) b (view s) = (r, os, v)"
  shows "\<exists>x s'. next_round N max_entries ready timing h s = Some (x, s') \<and> fs_ok (holding (ls_client (snd x)) + H) s' \<and>
    (fst x = r \<and> view s' = v \<and> went_on h r os (snd x) \<and> (os \<noteq> None \<longrightarrow> ls_client (snd x) \<noteq> null) \<and>
     attached (ls_handle (snd x)) os c (cells s'))"
  unfolding next_round_def
proof (rule with_count_ok)
  show "fs_ok (holding (ls_client h) + H) s" using assms(1) unfolding stream_ok_def by blast
  let ?Q = "\<lambda>c x v' d. fst x = r \<and> v' = v \<and> went_on h r os (snd x) \<and> (os \<noteq> None \<longrightarrow> ls_client (snd x) \<noteq> null) \<and>
    attached (ls_handle (snd x)) os c d"
  from assms(1) have at: "ls_handle h \<noteq> null" "streams c (ls_handle h) = None" "ls_client h \<noteq> null"
    "connections s (ls_authority h) \<noteq> None" "cells s = c\<lparr>streams := (streams c)(ls_handle h \<mapsto> b)\<rparr>"
    by (simp_all add: stream_ok_def attached_def)
  fix cnt and s1 :: "('w, 'c, 'r, 'o, 't) hdfs_fs"
  assume s1: "fs_ok (holding (ls_client h) + H) s1" "counts (cells s) cnt = None"
    "cells s1 = (cells s)\<lparr>counts := (counts (cells s))(cnt \<mapsto> 0)\<rparr>" "view s1 = view s" "connections s1 = connections s"
  have cnt: "counts c cnt = None" using s1(2) unfolding at(5) by simp
  show "\<exists>x s2. with_status (round_body N max_entries ready timing h cnt) s1 = Some (x, s2) \<and>
      fs_ok (holding (ls_client (snd x)) + H) s2 \<and> ?Q c x (view s2) ((cells s2)\<lparr>counts := (counts (cells s2))(cnt := None)\<rparr>)"
  proof (rule with_status_ok [OF s1(1), where Q = "\<lambda>x v' d. ?Q c x v' (d\<lparr>counts := (counts d)(cnt := None)\<rparr>)"])
    fix st and s2 :: "('w, 'c, 'r, 'o, 't) hdfs_fs"
    assume s2: "fs_ok (holding (ls_client h) + H) s2" "st \<noteq> null" "statuses (cells s1) st = None"
      "cells s2 = (cells s1)\<lparr>statuses := (statuses (cells s1))(st \<mapsto> status_clear)\<rparr>" "view s2 = view s1"
      "connections s2 = connections s1"
    let ?c = "c\<lparr>counts := (counts c)(cnt \<mapsto> 0), statuses := (statuses c)(st \<mapsto> status_clear)\<rparr>"
    have st: "statuses c st = None" using s2(3) unfolding s1(3) at(5) by simp
    have "cells s2 = ?c\<lparr>streams := (streams ?c)(ls_handle h \<mapsto> b)\<rparr>" unfolding s2(4) s1(3) at(5) by simp
    then have ok: "stream_ok h (Some b) ?c H s2"
      using s2(1) at(1-4) s2(6) s1(5) by (simp add: stream_ok_def attached_def)
    have clear: "statuses (cells s2) st = Some status_clear" unfolding s2(4) by simp
    from round_body_ok [OF ok _ s2(2) clear, of cnt N max_entries ready timing] assms(2) s2(5,6) s1(4,5) obtain x s3 where
      x: "round_body N max_entries ready timing h cnt st s2 = Some (x, s3)" "round_done h cnt st ?c H (r, os, v) (x, s3)"
      by auto
    from x(2) obtain n c' where d: "fst x = r" "fs_ok (holding (ls_client (snd x)) + H) s3" "view s3 = v" "went_on h r os (snd x)"
      "os \<noteq> None \<longrightarrow> ls_client (snd x) \<noteq> null" "cells s3 = c' \<or> (\<exists>k t. told st k t c' (cells s3))"
      "attached (ls_handle (snd x)) os (?c\<lparr>counts := (counts ?c)(cnt \<mapsto> n)\<rparr>) c'"
      unfolding round_done_def by (cases x) auto
    have "?c\<lparr>counts := (counts ?c)(cnt \<mapsto> n)\<rparr> =
        (c\<lparr>counts := (counts c)(cnt \<mapsto> n)\<rparr>)\<lparr>statuses := (statuses (c\<lparr>counts := (counts c)(cnt \<mapsto> n)\<rparr>))(st \<mapsto> status_clear)\<rparr>"
      by simp
    note att = d(7) [unfolded this]
    have "attached (ls_handle (snd x)) os (c\<lparr>counts := (counts c)(cnt \<mapsto> n)\<rparr>) (c'\<lparr>statuses := (statuses c')(st := None)\<rparr>)"
      using attached_drop(1) [OF att] st by simp
    from attached_drop(2) [OF this cnt]
    have "attached (ls_handle (snd x)) os c ((c'\<lparr>statuses := (statuses c')(st := None)\<rparr>)\<lparr>counts := (counts (c'\<lparr>statuses := (statuses c')(st := None)\<rparr>))(cnt := None)\<rparr>)" .
    moreover have "statuses c' st = Some status_clear" "arrays_ok (cstrs c') (entry_arrays c')"
      using attached_same [OF d(7)] fs_ok_arrays [OF s2(1)] unfolding s2(4) s1(3) at(5) by simp_all
    ultimately show "\<exists>x s3 c'. round_body N max_entries ready timing h cnt st s2 = Some (x, s3) \<and>
        fs_ok (holding (ls_client (snd x)) + H) s3 \<and> (cells s3 = c' \<or> (\<exists>k t. told st k t c' (cells s3))) \<and>
        statuses c' st = Some status_clear \<and> arrays_ok (cstrs c') (entry_arrays c') \<and>
        ?Q c x (view s3) ((c'\<lparr>statuses := (statuses c')(st := None)\<rparr>)\<lparr>counts := (counts (c'\<lparr>statuses := (statuses c')(st := None)\<rparr>))(cnt := None)\<rparr>)"
      using x(1) d(1-6) by blast
  qed
qed

section \<open>Calls\<close>

lemma round_body_connections:
  assumes "round_body N max_entries ready timing h cnt st s = Some (x, s')"
  shows "connections s' = connections s \<or>
    (\<exists>m h0 s1 y. Invalidate (ls_authority h) (ls_client h) (s\<lparr>heap := m\<rparr>) = Some s1 \<and> Open N timing h0 s1 = Some (fst y, snd y, s'))"
  using assms by (auto simp: round_body_def Let_def split: prod.splits bind_splits if_splits)

lemma round_body_keeps:
  assumes "round_body N max_entries ready timing h cnt st s = Some (x, s')" and "connections s b \<noteq> None"
  shows "connections s' b \<noteq> None"
  using round_body_connections [OF assms(1)]
proof (elim disjE exE conjE)
  fix m h0 s1 and y :: "(exn + unit) \<times> HdfsListStream"
  assume y: "Invalidate (ls_authority h) (ls_client h) (s\<lparr>heap := m\<rparr>) = Some s1" "Open N timing h0 s1 = Some (fst y, snd y, s')"
  have "connections (s\<lparr>heap := m\<rparr>) b \<noteq> None" using assms(2) by simp
  from Open_keeps [OF y(2) connections_kept(2) [OF y(1) this]] show ?thesis .
qed (use assms(2) in simp)

lemma next_round_keeps:
  assumes "next_round N max_entries ready timing h s = Some (x, s')" and "connections s b \<noteq> None"
  shows "connections s' b \<noteq> None"
proof -
  note body = round_body_keeps
  from with_block_connections(3) [OF assms(1) [unfolded next_round_def]] obtain cnt s1 s2 where
    s2: "with_status (round_body N max_entries ready timing h cnt) s1 = Some (x, s2)" "connections s1 = connections s"
    "connections s' = connections s2" by blast
  from with_block_connections(2) [OF s2(1)] obtain st s3 s4 where
    "round_body N max_entries ready timing h cnt st s3 = Some (x, s4)" "connections s3 = connections s1" "connections s2 = connections s4"
    by blast
  with body s2 assms(2) show ?thesis by metis
qed

lemma went_on_same:
  assumes "went_on h r os h'"
  shows "ls_url h' = ls_url h" "ls_authority h' = ls_authority h" "ls_glob h' = ls_glob h"
    "ls_emitted_any h' = (ls_emitted_any h \<or> (\<exists>x xs. r = Return (x # xs)))" "ls_retried h' = (ls_retried h \<or> r = Again \<or> os = None)"
  using assms by (cases h; cases h'; simp add: went_on_def)+

text \<open>A round with the stream around it.\<close>

lemma next_round_stream:
  fixes s :: "('w, 'c, 'r, 'o, 't) hdfs_fs"
  assumes "stream_ok h (Some b) c H s"
    and "abs_round N max_entries ready timing h (connections s (ls_authority h) = Some (ls_client h)) b (view s) = (r, os, v)"
  shows "\<exists>h' s'. next_round N max_entries ready timing h s = Some ((r, h'), s') \<and> stream_ok h' os c H s' \<and> view s' = v \<and>
    went_on h r os h'"
proof -
  from next_round_ok [OF assms] obtain x s' where
    x: "next_round N max_entries ready timing h s = Some (x, s')" "fs_ok (holding (ls_client (snd x)) + H) s'"
      "fst x = r" "view s' = v" "went_on h r os (snd x)" "os \<noteq> None \<longrightarrow> ls_client (snd x) \<noteq> null"
      "attached (ls_handle (snd x)) os c (cells s')" by blast
  note a = went_on_same(2) [OF x(5)]
  have "connections s (ls_authority h) \<noteq> None" using assms(1) by (simp add: stream_ok_def)
  from next_round_keeps [OF x(1) this] have "connections s' (ls_authority (snd x)) \<noteq> None" unfolding a .
  with x(2,6,7) have "stream_ok (snd x) os c H s'" by (simp add: stream_ok_def)
  with x(1,3-5) show ?thesis by (cases x) auto
qed

text \<open>What an end of the listing is for the caller of \<^verbatim>\<open>Next\<close>.\<close>

definition listing_end :: "('w, 'c, 'r, 'o, 't) hdfs_native \<Rightarrow> HdfsListStream \<Rightarrow> rstring \<Rightarrow> hdfs_error option \<Rightarrow> exn + unit" where
  "listing_end N h path e =
     (case e of
        None \<Rightarrow> Inr ()
      | Some e \<Rightarrow> Inl (list_error h (error_text N (lit ''list '' @ quoted path @ lit '' failed'') e)))"

lemma listing_end_same: "ls_url h' = ls_url h \<Longrightarrow> ls_glob h' = ls_glob h \<Longrightarrow> listing_end N h' = listing_end N h"
  unfolding listing_end_def list_error_def by (intro ext) (simp cong: option.case_cong del: lit_Cons)

lemma next_batch_path: "next_batch m ready b = (r, b') \<Longrightarrow> stream_path b' = stream_path b"
proof (cases "pending_error b"; cases "rx b")
  fix msg ms
  assume nb: "next_batch m ready b = (r, b')" and b: "pending_error b = None" "rx b = msg # ms"
  show "stream_path b' = stream_path b"
  proof (cases msg)
    case (Inr x)
    obtain q s' where q: "fill_batch (unat (max m 1)) ready [x] (b\<lparr>rx := ms\<rparr>) = (q, s')" by force
    have "length [x] \<le> unat (max m 1)" by (simp add: unat_max_1)
    with fill_batch_spec [OF q _ this] b(1) nb b Inr q show ?thesis by (auto simp: next_batch_def)
  qed (use nb b in \<open>auto simp: next_batch_def\<close>)
qed (auto simp: next_batch_def split: option.splits)

text \<open>No retry is left, or the listing does not end with a connection error before its first entry.\<close>

definition settled :: "HdfsListStream \<Rightarrow> BridgeListStream \<Rightarrow> (hdfs_error + FileStatus) list \<Rightarrow> bool" where
  "settled h b rest \<longleftrightarrow> ls_emitted_any h \<or> ls_retried h \<or>
     (\<forall>e. stream_outcome rest (task b) = Some e \<longrightarrow> classify e \<noteq> HDFS_ERR_CONNECTION)"

lemma drain_ok:
  fixes s :: "('w, 'c, 'r, 'o, 't) hdfs_fs"
  assumes "stream_ok h (Some b) c H s" and "todo_messages b = map Inr xs @ rest" and "no_entry_first rest"
    and "xs \<noteq> [] \<or> settled h b rest" and "length xs < length ts"
  shows "\<exists>h' os s'. drain N vsize ts h s =
      Some ((Some (listing_end N h (stream_path b) (stream_outcome rest (task b))), map (entry_of (ls_authority h)) xs), h', s') \<and>
    stream_ok h' os c H s' \<and> view s' = view s"
  using assms(1,2,4,5)
proof (induction ts arbitrary: h b xs s)
  case (Cons t ts)
  obtain ready timing again where t: "t = (ready, timing, again)" by (metis prod_cases3)
  let ?cur = "connections s (ls_authority h) = Some (ls_client h)"
  let ?m = "at_least_1 (ucast vsize)"
  show ?case
  proof (cases rule: next_batch_cases [of ?m ready b, case_names batch error died finished])
    case (batch es b')
    then obtain ys where ys: "xs = es @ ys" "todo_messages b' = map Inr ys @ rest"
      using entries_prefix [of es "todo_messages b'" xs rest] Cons.prems(2) assms(3) by auto
    have "abs_round N vsize ready timing h ?cur b (view s) = (Return (map (entry_of (ls_authority h)) es), Some b', view s)"
      using batch(1) by (simp add: abs_round_def)
    from next_round_stream [OF Cons.prems(1) this] obtain h1 s1 where
      one: "next_round N vsize ready timing h s = Some ((Return (map (entry_of (ls_authority h)) es), h1), s1)"
        "stream_ok h1 (Some b') c H s1" "view s1 = view s" "went_on h (Return (map (entry_of (ls_authority h)) es)) (Some b') h1"
      by blast
    note same = went_on_same [OF one(4)]
    have "settled h1 b' rest" using same(4) batch(2) by (auto simp: settled_def neq_Nil_conv)
    moreover have "length ys < length ts" using Cons.prems(4) ys(1) batch(2) by (cases es) auto
    ultimately obtain h' os s' where rec: "drain N vsize ts h1 s1 =
        Some ((Some (listing_end N h1 (stream_path b') (stream_outcome rest (task b'))), map (entry_of (ls_authority h1)) ys), h', s')"
      "stream_ok h' os c H s'" "view s' = view s1"
      using Cons.IH [OF one(2) ys(2)] by blast
    note listing_end_same [OF same(1,3), of N]
    with rec one(1,3) same(2) batch(2,5) next_batch_path [OF batch(1)] ys(1) show ?thesis
      by (auto simp: t Next.simps)
  next
    case (error e b')
    then have xs: "xs = []" using Cons.prems(2) by (cases xs) auto
    with error Cons.prems(2) have rest: "rest = Inl e # todo_messages b'" by simp
    have set: "settled h b rest" using Cons.prems(3) xs by simp
    then have no: "(classify e = HDFS_ERR_CONNECTION \<and> \<not> ls_emitted_any h \<and> \<not> ls_retried h) = False"
      by (auto simp: settled_def rest stream_outcome_def)
    have "abs_round N vsize ready timing h ?cur b (view s) =
        (Throw (list_error h (error_text N (lit ''list '' @ quoted (stream_path b') @ lit '' failed'') e)), Some b', view s)"
      unfolding abs_round_def error(1) prod.case sum.case no if_False ..
    from next_round_stream [OF Cons.prems(1) this] next_batch_path [OF error(1)] xs show ?thesis
      by (auto simp: t Next.simps rest stream_outcome_def listing_end_def simp del: lit_Cons)
  next
    case (died e b')
    then have xs: "xs = []" "rest = []" using Cons.prems(2) by auto
    have set: "settled h b rest" using Cons.prems(3) xs by simp
    let ?e = "walker_died e"
    have no: "(classify ?e = HDFS_ERR_CONNECTION \<and> \<not> ls_emitted_any h \<and> \<not> ls_retried h) = False"
      by (simp add: walker_died_def classify_io_def category_defs)
    have "abs_round N vsize ready timing h ?cur b (view s) =
        (Throw (list_error h (error_text N (lit ''list '' @ quoted (stream_path b') @ lit '' failed'') ?e)), Some b', view s)"
      unfolding abs_round_def died(1) [folded walker_died_def] prod.case sum.case no if_False ..
    from next_round_stream [OF Cons.prems(1) this] next_batch_path [OF died(1)] xs died(3) show ?thesis
      by (auto simp: t Next.simps stream_outcome_def listing_end_def simp del: lit_Cons)
  next
    case (finished b')
    then have xs: "xs = []" "rest = []" using Cons.prems(2) by auto
    have "abs_round N vsize ready timing h ?cur b (view s) = (Return [], Some b', view s)"
      using finished(1) by (simp add: abs_round_def)
    from next_round_stream [OF Cons.prems(1) this] xs finished(4) show ?thesis
      by (auto simp: t Next.simps stream_outcome_def listing_end_def)
  qed
qed simp

text \<open>The transparent retry: the listing is that of the second walk.\<close>

lemma drain_retry:
  fixes s :: "('w, 'c, 'r, 'o, 't) hdfs_fs"
  assumes "stream_ok h (Some b) c H s" and "connections s (ls_authority h) = Some (ls_client h)"
    and "\<not> ls_emitted_any h" "\<not> ls_retried h" and "todo_messages b = Inl e # ms" and "classify e = HDFS_ERR_CONNECTION"
    and "abs_open N timing h ((view s)\<lparr>v_clients := (v_clients (view s))(ls_authority h := None)\<rparr>) = (Inr b2, v2)"
    and "todo_messages b2 = map Inr ys @ rest" and "no_entry_first rest" and "length ys \<le> length ts"
  shows "\<exists>h' os s'. drain N vsize ((ready, timing, again) # ts) h s =
      Some ((Some (listing_end N h (stream_path b2) (stream_outcome rest (task b2))), map (entry_of (ls_authority h)) ys), h', s') \<and>
    stream_ok h' os c H s' \<and> view s' = v2"
proof -
  obtain b' where b': "next_batch (at_least_1 (ucast vsize)) ready b = (Inl e, b')"
    using assms(5) by (cases rule: next_batch_cases [of "at_least_1 (ucast vsize)" ready b, case_names batch error died finished])
      (auto simp: append_eq_Cons_conv)
  have "abs_round N vsize ready timing h (connections s (ls_authority h) = Some (ls_client h)) b (view s) = (Again, Some b2, v2)"
    unfolding abs_round_def b' using assms(2-4,6,7) by simp
  from next_round_stream [OF assms(1) this] obtain h1 s1 where
    one: "next_round N vsize ready timing h s = Some ((Again, h1), s1)" "stream_ok h1 (Some b2) c H s1" "view s1 = v2"
      "went_on h Again (Some b2) h1" by blast
  note same = went_on_same [OF one(4)]
  note err = listing_end_same [OF same(1,3), of N]
  have "drain N vsize ((ready, timing, again) # ts) h s = drain N vsize ((again, timing, again) # ts) h1 s1"
    using one(1) by (simp add: Next.simps [of N vsize ready])
  moreover have "settled h1 b2 rest" using same(5) by (simp add: settled_def)
  with drain_ok [OF one(2) assms(8,9), of "(again, timing, again) # ts" N vsize] assms(10) obtain h' os s' where
    "drain N vsize ((again, timing, again) # ts) h1 s1 =
      Some ((Some (listing_end N h1 (stream_path b2) (stream_outcome rest (task b2))), map (entry_of (ls_authority h1)) ys), h', s')"
    "stream_ok h' os c H s'" "view s' = view s1" by auto
  ultimately show ?thesis using err same(2) one(3) by auto
qed

section \<open>Whole listings\<close>

lemma end_stream_ok:
  assumes "stream_ok h os c H s"
  shows "\<exists>s'. end_stream h s = Some s' \<and> fs_ok H s' \<and> view s' = view s \<and> cells s' = c"
proof -
  have ok: "fs_ok (holding (ls_client h) + H) s" and att: "attached (ls_handle h) os c (cells s)"
    using assms unfolding stream_ok_def by blast+
  show ?thesis
  proof (cases os)
    case None
    with att have "ls_handle h = null" "cells s = c" by (simp_all add: attached_def)
    with release_holding [OF ok] show ?thesis by (auto simp: end_stream_def)
  next
    case (Some b)
    with att have at: "ls_handle h \<noteq> null" "streams c (ls_handle h) = None" "cells s = c\<lparr>streams := (streams c)(ls_handle h \<mapsto> b)\<rparr>"
      by (simp_all add: attached_def)
    from arg_cong [OF at(3), of streams] have streams: "streams (heap s) = (streams c)(ls_handle h \<mapsto> b)" by simp
    let ?m = "(heap s)\<lparr>streams := (streams (heap s))(ls_handle h := None)\<rparr>"
    have "fs_ok (holding (ls_client h) + H) (s\<lparr>heap := ?m\<rparr>)"
      using fs_okD(1,3) [OF ok] heap_ok_fewer(3) [of "heap s" "ls_handle h"] by (intro fs_ok_heap [OF ok]) (simp_all add: cells_ok_def)
    from release_holding [OF this] obtain s' where s': "release (ls_client h) (s\<lparr>heap := ?m\<rparr>) = Some s'" "fs_ok H s'"
      "view s' = view (s\<lparr>heap := ?m\<rparr>)" "cells s' = cells_of ?m" by auto
    have "cells_of ?m = (cells s)\<lparr>streams := streams c\<rparr>" using streams at(2) by (simp add: fun_upd_idem)
    then have "cells s' = c" unfolding s'(4) at(3) by simp
    with s' at(1) streams show ?thesis by (simp add: end_stream_def hdfs_bridge_list_stream_free_def view_heap_same)
  qed
qed

lemma open_stream_ok:
  fixes s :: "('w, 'c, 'r, 'o, 't) hdfs_fs"
  assumes "fs_ok H s" and "abs_open N timing (new_stream glob url max_parallelism options) (view s) = (r, v)"
  shows "\<exists>x s'. open_stream N glob timing url max_parallelism options s = Some (x, s') \<and> view s' = v \<and>
    (case r of
       Inl e \<Rightarrow> x = Inl e \<and> fs_ok H s' \<and> cells s' = cells s
     | Inr b \<Rightarrow> \<exists>h. x = Inr h \<and> stream_ok h (Some b) (cells s) H s' \<and> connections s' (ls_authority h) = Some (ls_client h) \<and>
         h = (new_stream glob url max_parallelism options)\<lparr>ls_client := ls_client h, ls_handle := ls_handle h\<rparr>)"
proof -
  let ?h = "new_stream glob url max_parallelism options"
  let ?s = "GetConnection (ls_authority ?h) s"
  note conn = get_connection_ok [OF assms(1), of "ls_authority ?h"]
  have h: "ls_client ?h = null" "ls_handle ?h = null" by (simp_all add: new_stream_def split: prod.splits)
  have "fs_ok (holding (ls_client ?h) + H) ?s" using conn(1) h(1) by simp
  from Open_ok [OF this h(2) conn(4)] assms(2) conn(2) obtain h' s' where
    s': "Open N timing ?h ?s = Some (map_sum id (\<lambda>_. ()) r, h', s')"
      "stream_ok h' (case r of Inl _ \<Rightarrow> None | Inr b \<Rightarrow> Some b) (cells s) H s'" "view s' = v"
      "h' = ?h\<lparr>ls_client := ls_client h', ls_handle := ls_handle h'\<rparr>"
      "\<forall>b. r = Inr b \<longrightarrow> connections s' (ls_authority ?h) = Some (ls_client h')"
    unfolding conn(3) by metis
  show ?thesis
  proof (cases r)
    case (Inl e)
    with s'(2) have "stream_ok h' None (cells s) H s'" by simp
    from end_stream_ok [OF this] s'(1,3) Inl show ?thesis by (auto simp: open_stream_def Let_def)
  next
    case (Inr b)
    have "ls_authority h' = ls_authority ?h" using s'(4) by (cases h'; cases ?h; simp)
    with s' Inr show ?thesis by (auto simp: open_stream_def Let_def)
  qed
qed

text \<open>
  The specification of a listing on views: the entries before the first error of its walk and how
  the walk ends, or those of a second walk on a new client, if the first one ended with a
  connection error before its first entry.
\<close>

definition entries_of :: "BridgeListStream \<Rightarrow> FileStatus list" where
  "entries_of b = oks (takeWhile (\<lambda>m. \<not> isl m) (todo_messages b))"

definition ending :: "BridgeListStream \<Rightarrow> hdfs_error option" where
  "ending b = stream_outcome (dropWhile (\<lambda>m. \<not> isl m) (todo_messages b)) (task b)"

definition read_walk ::
  "('w, 'c, 'r, 'o, 't) hdfs_native \<Rightarrow> HdfsListStream \<Rightarrow> BridgeListStream \<Rightarrow> (exn + unit) \<times> HdfsEntry list" where
  "read_walk N h b = (listing_end N h (stream_path b) (ending b), map (entry_of (ls_authority h)) (entries_of b))"

definition stale_walk :: "BridgeListStream \<Rightarrow> bool" where
  "stale_walk b \<longleftrightarrow> entries_of b = [] \<and> map_option classify (ending b) = Some HDFS_ERR_CONNECTION"

definition abs_listing ::
  "('w, 'c, 'r, 'o, 't) hdfs_native \<Rightarrow> walk_timing \<Rightarrow> walk_timing \<Rightarrow> HdfsListStream \<Rightarrow> ('w, 'c, 't) fs_view
     \<Rightarrow> ((exn + unit) \<times> HdfsEntry list) \<times> ('w, 'c, 't) fs_view" where
  "abs_listing N timing again h v =
     (case abs_open N timing h v of
        (Inl e, v) \<Rightarrow> ((Inl e, []), v)
      | (Inr b, v) \<Rightarrow>
          if stale_walk b then
            (case abs_open N again h (v\<lparr>v_clients := (v_clients v)(ls_authority h := None)\<rparr>) of
               (Inl e, v) \<Rightarrow> ((Inl e, []), v)
             | (Inr b, v) \<Rightarrow> (read_walk N h b, v))
          else (read_walk N h b, v))"

lemma walk_messages:
  "todo_messages b = map Inr (entries_of b) @ dropWhile (\<lambda>m. \<not> isl m) (todo_messages b)"
  "no_entry_first (dropWhile (\<lambda>m. \<not> isl m) (todo_messages b))"
proof -
  have "map Inr (oks (takeWhile (\<lambda>m. \<not> isl m) ms)) = takeWhile (\<lambda>m. \<not> isl m) ms" for ms :: "(hdfs_error + FileStatus) list"
  proof (induction ms)
    case (Cons m ms)
    then show ?case by (cases m) simp_all
  qed simp
  then show "todo_messages b = map Inr (entries_of b) @ dropWhile (\<lambda>m. \<not> isl m) (todo_messages b)"
    by (simp add: entries_of_def)
  have "no_entry_first (dropWhile (\<lambda>m. \<not> isl m) ms)" for ms :: "(hdfs_error + FileStatus) list"
    by (induction ms) (auto simp: no_entry_first_def)
  then show "no_entry_first (dropWhile (\<lambda>m. \<not> isl m) (todo_messages b))" .
qed

lemma stale_walk_message:
  assumes "stale_walk b"
  shows "\<exists>e ms. todo_messages b = Inl e # ms \<and> classify e = HDFS_ERR_CONNECTION"
proof -
  let ?rest = "dropWhile (\<lambda>m. \<not> isl m) (todo_messages b)"
  from assms have nil: "entries_of b = []" and "map_option classify (stream_outcome ?rest (task b)) = Some HDFS_ERR_CONNECTION"
    by (simp_all add: stale_walk_def ending_def)
  moreover have "classify (walker_died d) \<noteq> HDFS_ERR_CONNECTION" for d
    by (simp add: walker_died_def classify_io_def category_defs)
  ultimately have "\<exists>e ms. ?rest = Inl e # ms \<and> classify e = HDFS_ERR_CONNECTION"
    by (auto simp: stream_outcome_def split: list.splits sum.splits option.splits)
  moreover have "todo_messages b = ?rest" using walk_messages(1) [of b] nil by simp
  ultimately show ?thesis by simp
qed

lemma walk_pointers:
  "walk_of N (h\<lparr>ls_client := p, ls_handle := q\<rparr>) = walk_of N h" "walk_failed N (h\<lparr>ls_client := p, ls_handle := q\<rparr>) = walk_failed N h"
  by (intro ext, simp add: walk_of_def) (intro ext, simp add: walk_failed_def list_error_def)

lemma abs_open_pointers: "abs_open N timing (h\<lparr>ls_client := p, ls_handle := q\<rparr>) = abs_open N timing h"
  unfolding abs_open_def walk_pointers by simp

text \<open>A listing in its scope.\<close>

lemma listing_ok:
  fixes s :: "('w, 'c, 'r, 'o, 't) hdfs_fs"
  assumes "fs_ok H s" and "abs_listing N timing again (new_stream glob url max_parallelism options) (view s) = ((r, es), v)"
    and "length es < length ts" and "fst (snd (hd ts)) = again"
  shows "\<exists>s'. (do { x \<leftarrow> open_stream N glob timing url max_parallelism options s; with_stream N vsize ts x }) =
      Some ((Some r, es), s') \<and> fs_ok H s' \<and> view s' = v \<and> cells s' = cells s"
proof -
  let ?h = "new_stream glob url max_parallelism options"
  have flags: "\<not> ls_emitted_any ?h" "\<not> ls_retried ?h" by (simp_all add: new_stream_def split: prod.splits)
  obtain q v1 where q: "abs_open N timing ?h (view s) = (q, v1)" by force
  from open_stream_ok [OF assms(1) q] obtain x s1 where
    x: "open_stream N glob timing url max_parallelism options s = Some (x, s1)" "view s1 = v1" and
    case_q: "case q of
       Inl e \<Rightarrow> x = Inl e \<and> fs_ok H s1 \<and> cells s1 = cells s
     | Inr b \<Rightarrow> \<exists>h. x = Inr h \<and> stream_ok h (Some b) (cells s) H s1 \<and> connections s1 (ls_authority h) = Some (ls_client h) \<and>
         h = ?h\<lparr>ls_client := ls_client h, ls_handle := ls_handle h\<rparr>" by blast
  show ?thesis
  proof (cases q)
    case (Inl e)
    with q assms(2) have "r = Inl e" "es = []" "v = v1" by (simp_all add: abs_listing_def)
    with x case_q Inl show ?thesis by (simp add: with_stream_def)
  next
    case (Inr b)
    with case_q obtain h where h: "x = Inr h" "stream_ok h (Some b) (cells s) H s1"
      "connections s1 (ls_authority h) = Some (ls_client h)" "h = ?h\<lparr>ls_client := ls_client h, ls_handle := ls_handle h\<rparr>" by auto
    have same: "ls_url h = ls_url ?h" "ls_authority h = ls_authority ?h" "ls_glob h = ls_glob ?h"
      "ls_emitted_any h = ls_emitted_any ?h" "ls_retried h = ls_retried ?h"
      by (subst h(4), simp)+
    note ending_same = listing_end_same [OF same(1,3), of N]
    have opens: "abs_open N again h = abs_open N again ?h" by (subst h(4), rule abs_open_pointers)
    have "\<exists>h' os s2. drain N vsize ts h s1 = Some ((Some r, es), h', s2) \<and> stream_ok h' os (cells s) H s2 \<and> view s2 = v"
    proof (cases "stale_walk b")
      case False
      with q Inr assms(2) have res: "read_walk N ?h b = (r, es)" "v = v1" by (simp_all add: abs_listing_def)
      have "entries_of b \<noteq> [] \<or> settled h b (dropWhile (\<lambda>m. \<not> isl m) (todo_messages b))"
        using False by (auto simp: stale_walk_def settled_def ending_def)
      with drain_ok [OF h(2) walk_messages [of b], of ts N vsize] assms(3) res x(2) show ?thesis
        by (auto simp: read_walk_def ending_same same(2) ending_def)
    next
      case True
      obtain p v2 where p: "abs_open N again ?h (v1\<lparr>v_clients := (v_clients v1)(ls_authority ?h := None)\<rparr>) = (p, v2)" by force
      from stale_walk_message [OF True] obtain e ms where e: "todo_messages b = Inl e # ms" "classify e = HDFS_ERR_CONNECTION" by blast
      from assms(3) obtain t ts' where ts: "ts = t # ts'" by (cases ts) auto
      with assms(4) obtain ready ready' where t: "t = (ready, again, ready')" by (cases t) auto
      have retry: "abs_open N again h ((view s1)\<lparr>v_clients := (v_clients (view s1))(ls_authority h := None)\<rparr>) = (p, v2)"
        using p unfolding opens x(2) same(2) .
      show ?thesis
      proof (cases p)
        case (Inr b2)
        with q \<open>q = Inr b\<close> True p assms(2) have res: "read_walk N ?h b2 = (r, es)" "v = v2" by (simp_all add: abs_listing_def)
        have "length (entries_of b2) \<le> length ts'" using res(1) assms(3) ts by (auto simp: read_walk_def)
        from drain_retry [OF h(2,3) _ _ e retry [unfolded Inr] walk_messages [of b2] this, of vsize ready ready'] flags same(4,5) res
        show ?thesis by (auto simp: ts t read_walk_def ending_same same(2) ending_def)
      next
        case (Inl x)
        with q \<open>q = Inr b\<close> True p assms(2) have res: "r = Inl x" "es = []" "v = v2" by (simp_all add: abs_listing_def)
        obtain b' where b': "next_batch (at_least_1 (ucast vsize)) ready b = (Inl e, b')"
          using e(1) by (cases rule: next_batch_cases [of "at_least_1 (ucast vsize)" ready b, case_names batch error died finished])
            (auto simp: append_eq_Cons_conv)
        have "abs_round N vsize ready again h (connections s1 (ls_authority h) = Some (ls_client h)) b (view s1) = (Throw x, None, v2)"
          unfolding abs_round_def b' using retry Inl h(3) e(2) flags same(4,5) by simp
        from next_round_stream [OF h(2) this] res show ?thesis by (auto simp: ts t Next.simps)
      qed
    qed
    then obtain h' os s2 where s2: "drain N vsize ts h s1 = Some ((Some r, es), h', s2)" "stream_ok h' os (cells s) H s2" "view s2 = v"
      by blast
    from end_stream_ok [OF s2(2)] s2(1,3) x(1) h(1) show ?thesis by (auto simp: with_stream_def)
  qed
qed

section \<open>Any use of a stream\<close>

text \<open>
  Calls of \<^verbatim>\<open>Next\<close> with their sizes and timings, and what each returned. An exception does not end them:
  the object is still there, and nothing in its interface keeps the caller from calling again.
\<close>

fun call_next ::
  "('w, 'c, 'r, 'o, 't) hdfs_native \<Rightarrow> (u64 \<times> next_timing) list \<Rightarrow> HdfsListStream \<Rightarrow> ('w, 'c, 'r, 'o, 't) hdfs_fs
     \<Rightarrow> ((exn + bool \<times> HdfsEntry list) list \<times> HdfsListStream \<times> ('w, 'c, 'r, 'o, 't) hdfs_fs) option" where
  "call_next N [] h s = Some ([], h, s)"
| "call_next N ((n, t) # calls) h s =
     do {
       (r, h, s) \<leftarrow> Next N n t h s;
       (rs, h, s) \<leftarrow> call_next N calls h s;
       Some (r # rs, h, s)
     }"

text \<open>A result of \<^verbatim>\<open>Next\<close>: empty exactly at the end, and no more entries than asked for.\<close>

definition in_bounds :: "u64 \<Rightarrow> exn + bool \<times> HdfsEntry list \<Rightarrow> bool" where
  "in_bounds n r \<longleftrightarrow> (\<forall>any out. r = Inr (any, out) \<longrightarrow> any = (out \<noteq> []) \<and> int (length out) \<le> max 1 (sint (ucast n :: i32)))"

lemma abs_round_cases:
  assumes "abs_round N n ready timing h cur b v = (r, os, v')"
  shows "(\<forall>out. r = Return out \<longrightarrow> os \<noteq> None \<and> int (length out) \<le> max 1 (sint (ucast n :: i32)))"
    "r = Again \<Longrightarrow> os \<noteq> None \<and> \<not> ls_retried h"
proof -
  show "\<forall>out. r = Return out \<longrightarrow> os \<noteq> None \<and> int (length out) \<le> max 1 (sint (ucast n :: i32))"
    using assms batch_length(1) by (auto simp: abs_round_def split: prod.splits sum.splits if_splits)
  show "r = Again \<Longrightarrow> os \<noteq> None \<and> \<not> ls_retried h"
    using assms by (auto simp: abs_round_def split: prod.splits sum.splits if_splits)
qed

lemma Next_safe:
  fixes s :: "('w, 'c, 'r, 'o, 't) hdfs_fs"
  assumes "stream_ok h (Some b) c H s"
  shows "\<exists>r h' os s'. Next N n t h s = Some (r, h', s') \<and> stream_ok h' os c H s' \<and>
    (os = None \<longrightarrow> isl r \<and> ls_retried h') \<and> in_bounds n r"
  using assms
proof (induction "if ls_retried h then 0 :: nat else 1" arbitrary: h b s t rule: less_induct)
  case less
  obtain ready timing again where t: "t = (ready, timing, again)" by (metis prod_cases3)
  obtain r os v where r: "abs_round N n ready timing h (connections s (ls_authority h) = Some (ls_client h)) b (view s) = (r, os, v)"
    by (metis prod_cases3)
  note cases = abs_round_cases [OF r]
  from next_round_stream [OF less.prems r] obtain h1 s1 where
    one: "next_round N n ready timing h s = Some ((r, h1), s1)" "stream_ok h1 os c H s1" "went_on h r os h1" by blast
  show ?case
  proof (cases r)
    case (Return out)
    with one cases(1) show ?thesis by (auto simp: t Next.simps in_bounds_def)
  next
    case (Throw e)
    with one went_on_same(5) [OF one(3)] show ?thesis by (auto simp: t Next.simps in_bounds_def)
  next
    case Again
    with cases(2) obtain b1 where b1: "os = Some b1" "\<not> ls_retried h" by auto
    have "ls_retried h1" using went_on_same(5) [OF one(3)] Again by simp
    with b1 one(2) less.hyps [of h1 b1 s1 "(again, timing, again)"] obtain r' h' os' s' where
      "Next N n (again, timing, again) h1 s1 = Some (r', h', s')" "stream_ok h' os' c H s'" "os' = None \<longrightarrow> isl r' \<and> ls_retried h'"
      "in_bounds n r'" by auto
    moreover have "Next N n t h s = Next N n (again, timing, again) h1 s1"
      using one(1) Again by (simp add: t Next.simps [of N n ready])
    ultimately show ?thesis by auto
  qed
qed

text \<open>A stream whose walk could not be opened again has no handle, and a call of \<^verbatim>\<open>Next\<close> goes through null.\<close>

lemma Next_without_walk:
  assumes "stream_ok h None c H s"
  shows "ls_handle h = null" "Next N n t h s = None"
proof -
  show null: "ls_handle h = null" using assms by (simp add: stream_ok_def attached_def)
  obtain ready timing again where t: "t = (ready, timing, again)" by (metis prod_cases3)
  have "mem_ok (heap s)" using assms fs_okD(2) unfolding stream_ok_def by blast
  then have "streams (heap s) null = None" by (auto simp: mem_ok_def live_below_def)
  then show "Next N n t h s = None"
    by (simp add: t Next.simps next_round_def with_count_def with_status_def new_status_def round_body_def
        hdfs_bridge_list_stream_next_def null Let_def)
qed

lemma call_next_safe:
  fixes s :: "('w, 'c, 'r, 'o, 't) hdfs_fs"
  assumes "stream_ok h (Some b) c H s"
  shows "\<exists>made rest rs h' os s'. calls = made @ rest \<and> call_next N made h s = Some (rs, h', s') \<and> stream_ok h' os c H s' \<and>
    length rs = length made \<and> (\<forall>((n, t), r) \<in> set (zip made rs). in_bounds n r) \<and>
    (rest \<noteq> [] \<longrightarrow> os = None \<and> ls_retried h' \<and> rs \<noteq> [] \<and> isl (last rs))"
  using assms
proof (induction calls arbitrary: h b s)
  case Nil
  then show ?case by (intro exI [of _ "[]"] exI [of _ h] exI [of _ "Some b"] exI [of _ s]) simp
next
  case (Cons call calls)
  obtain n t where call: "call = (n, t)" by (rule prod.exhaust)
  from Next_safe [OF Cons.prems, of N n t] obtain r h1 os s1 where
    one: "Next N n t h s = Some (r, h1, s1)" "stream_ok h1 os c H s1" "os = None \<longrightarrow> isl r \<and> ls_retried h1" "in_bounds n r"
    by (elim exE conjE)
  show ?case
  proof (cases os)
    case None
    have "call_next N [call] h s = Some ([r], h1, s1)" using one(1) call by simp
    with one None call show ?thesis
      by (intro exI [of _ "[call]"] exI [of _ calls] exI [of _ "[r]"] exI [of _ h1] exI [of _ os] exI [of _ s1]) simp
  next
    case (Some b1)
    with one(2) have "stream_ok h1 (Some b1) c H s1" by simp
    from Cons.IH [OF this] obtain made rest rs h' os' s' where more: "calls = made @ rest" "call_next N made h1 s1 = Some (rs, h', s')"
      "stream_ok h' os' c H s'" "length rs = length made" "\<forall>((n, t), r) \<in> set (zip made rs). in_bounds n r"
      "rest \<noteq> [] \<longrightarrow> os' = None \<and> ls_retried h' \<and> rs \<noteq> [] \<and> isl (last rs)" by (elim exE conjE)
    have "call_next N (call # made) h s = Some (r # rs, h', s')" using one(1) call more(2) by simp
    moreover have "\<forall>((n, t), r) \<in> set (zip (call # made) (r # rs)). in_bounds n r" using more(5) one(4) call by simp
    moreover have "rest \<noteq> [] \<longrightarrow> os' = None \<and> ls_retried h' \<and> r # rs \<noteq> [] \<and> isl (last (r # rs))" using more(6) by auto
    ultimately show ?thesis using more(1,3,4)
      by (intro exI [of _ "call # made"] exI [of _ rest] exI [of _ "r # rs"] exI [of _ h'] exI [of _ os'] exI [of _ s']) simp
  qed
qed

text \<open>That does happen: the walk loses its connection before its first entry, and the cluster cannot be reached again.\<close>

lemma failed_reopening_strands:
  fixes s :: "('w, 'c, 'r, 'o, 't) hdfs_fs"
  assumes "stream_ok h (Some b) c H s" and "next_batch (at_least_1 (ucast n)) ready b = (Inl e, b')"
    and "classify e = HDFS_ERR_CONNECTION" and "\<not> ls_emitted_any h" and "\<not> ls_retried h"
    and "abs_open N timing h (if connections s (ls_authority h) = Some (ls_client h)
      then (view s)\<lparr>v_clients := (v_clients (view s))(ls_authority h := None)\<rparr> else view s) = (Inl x, v)"
  shows "\<exists>h' s'. Next N n (ready, timing, again) h s = Some (Inl x, h', s') \<and> (\<forall>n t. Next N n t h' s' = None)"
proof -
  have "abs_round N n ready timing h (connections s (ls_authority h) = Some (ls_client h)) b (view s) = (Throw x, None, v)"
    using assms(2-6) by (simp add: abs_round_def)
  from next_round_stream [OF assms(1) this] obtain h' s' where
    "next_round N n ready timing h s = Some ((Throw x, h'), s')" "stream_ok h' None c H s'" by blast
  with Next_without_walk(2) show ?thesis by (auto simp: Next.simps)
qed

end
