(* ===== verification/Channel.thy ===== *)
theory Channel
  imports List_Stream
begin

text \<open>
  The walker task and the consumer of a stream as they run side by side, from
  \<^verbatim>\<open>hdfs-bridge/src/client.rs\<close>: \<^verbatim>\<open>stream_walk\<close> or \<^verbatim>\<open>glob_walk\<close> on the runtime, the bounded
  channel between them, \<^verbatim>\<open>next_batch\<close> as the sequence of its receives, and \<^verbatim>\<open>drop\<close>.

  A step is what happens between two points where a side may wait: one completed listing, one
  message accepted by the channel, one receive. The theorems justify the sequential reading of
  \<open>List_Stream\<close>, where the messages of a walk are a list: whatever the interleaving, the results
  of the calls are those of \<open>next_batch\<close> on the walk's messages, no call waits for ever, and a
  dropped stream ends its walk.
\<close>

section \<open>The system\<close>

definition LIST_STREAM_BUFFER :: nat where
  "LIST_STREAM_BUFFER = 8192"

datatype task_end = Alive | Returned | Died | Aborted

text \<open>Where the consumer is: between calls, in \<^verbatim>\<open>recv\<close>, or in the \<^verbatim>\<open>try_recv\<close> loop with its batch.\<close>

datatype consumer = Idle | Waiting usize | Filling usize "FileStatus list"

text \<open>
  \<open>outbox\<close> holds the messages of the listing being handled that the channel has not accepted;
  \<open>calls\<close> and \<open>results\<close> record the calls of \<^verbatim>\<open>next_batch\<close> that have returned.
\<close>

record 'job stream_system =
  walker :: "('job, FileStatus, hdfs_error) walk_state"
  outbox :: "(hdfs_error + FileStatus) list"
  channel :: "(hdfs_error + FileStatus) list"
  task_end :: task_end
  consumer :: consumer
  held_error :: "hdfs_error option"
  joined :: bool
  gone :: bool
  calls :: "usize list"
  results :: "(hdfs_error + FileStatus list) list"

definition system_start ::
  "('job, FileStatus, hdfs_error) walk_state \<Rightarrow> 'job stream_system" where
  "system_start w = \<lparr>walker = w, outbox = sent w, channel = [], task_end = Alive, consumer = Idle,
     held_error = None, joined = False, gone = False, calls = [], results = []\<rparr>"

text \<open>A call returns.\<close>

definition give ::
  "usize \<Rightarrow> hdfs_error + FileStatus list \<Rightarrow> 'job stream_system \<Rightarrow> 'job stream_system" where
  "give m r s = s\<lparr>consumer := Idle, calls := calls s @ [m], results := results s @ [r]\<rparr>"

text \<open>The steps of the walker task.\<close>

inductive walker_step ::
  "('job \<Rightarrow> ('job, FileStatus, hdfs_error) visit_result) \<Rightarrow> nat
     \<Rightarrow> 'job stream_system \<Rightarrow> 'job stream_system \<Rightarrow> bool"
  for visit :: "'job \<Rightarrow> ('job, FileStatus, hdfs_error) visit_result" and n :: nat where
  listed: "task_end s = Alive \<Longrightarrow> outbox s = [] \<Longrightarrow> status (walker s) = Running \<Longrightarrow>
    w = poll visit n k (walker s) \<Longrightarrow>
    walker_step visit n s (s\<lparr>walker := w, outbox := drop (length (sent (walker s))) (sent w)\<rparr>)"
| accepted: "task_end s = Alive \<Longrightarrow> outbox s = msg # ms \<Longrightarrow> \<not> gone s \<Longrightarrow>
    length (channel s) < LIST_STREAM_BUFFER \<Longrightarrow>
    walker_step visit n s (s\<lparr>outbox := ms, channel := channel s @ [msg]\<rparr>)"
| refused: "task_end s = Alive \<Longrightarrow> outbox s \<noteq> [] \<Longrightarrow> gone s \<Longrightarrow>
    walker_step visit n s (s\<lparr>task_end := Returned\<rparr>)"
| ended: "task_end s = Alive \<Longrightarrow> outbox s = [] \<Longrightarrow> status (walker s) \<noteq> Running \<Longrightarrow>
    walker_step visit n s (s\<lparr>task_end := if status (walker s) = Panicked then Died else Returned\<rparr>)"
| aborted: "task_end s = Alive \<Longrightarrow> gone s \<Longrightarrow> walker_step visit n s (s\<lparr>task_end := Aborted\<rparr>)"

text \<open>The steps inside a call of \<^verbatim>\<open>next_batch\<close>.\<close>

inductive receive_step :: "rstring \<Rightarrow> 'job stream_system \<Rightarrow> 'job stream_system \<Rightarrow> bool"
  for died :: rstring where
  first_entry: "consumer s = Waiting m \<Longrightarrow> channel s = Inr x # ms \<Longrightarrow>
    receive_step died s (s\<lparr>consumer := Filling m [x], channel := ms\<rparr>)"
| first_error: "consumer s = Waiting m \<Longrightarrow> channel s = Inl e # ms \<Longrightarrow>
    receive_step died s (give m (Inl e) (s\<lparr>channel := ms\<rparr>))"
| closed: "consumer s = Waiting m \<Longrightarrow> channel s = [] \<Longrightarrow> task_end s \<noteq> Alive \<Longrightarrow>
    receive_step died s (give m (if \<not> joined s \<and> task_end s \<noteq> Returned then Inl (walker_died died) else Inr [])
      (s\<lparr>joined := True\<rparr>))"
| more_entry: "consumer s = Filling m b \<Longrightarrow> length b < unat (max m 1) \<Longrightarrow> channel s = Inr x # ms \<Longrightarrow>
    receive_step died s (s\<lparr>consumer := Filling m (b @ [x]), channel := ms\<rparr>)"
| more_error: "consumer s = Filling m b \<Longrightarrow> length b < unat (max m 1) \<Longrightarrow> channel s = Inl e # ms \<Longrightarrow>
    receive_step died s (give m (Inr b) (s\<lparr>channel := ms, held_error := Some e\<rparr>))"
| filled: "consumer s = Filling m b \<Longrightarrow> channel s = [] \<or> \<not> length b < unat (max m 1) \<Longrightarrow>
    receive_step died s (give m (Inr b) s)"

text \<open>What the consumer does between calls: start one, or drop the stream.\<close>

inductive caller_step :: "'job stream_system \<Rightarrow> 'job stream_system \<Rightarrow> bool" where
  call_held: "consumer s = Idle \<Longrightarrow> \<not> gone s \<Longrightarrow> held_error s = Some e \<Longrightarrow>
    caller_step s (give m (Inl e) (s\<lparr>held_error := None\<rparr>))"
| call_recv: "consumer s = Idle \<Longrightarrow> \<not> gone s \<Longrightarrow> held_error s = None \<Longrightarrow>
    caller_step s (s\<lparr>consumer := Waiting m\<rparr>)"
| dropped_stream: "consumer s = Idle \<Longrightarrow> \<not> gone s \<Longrightarrow> caller_step s (s\<lparr>gone := True\<rparr>)"

inductive_cases walker_stepE: "walker_step visit n s t"
inductive_cases receive_stepE: "receive_step died s t"
inductive_cases caller_stepE: "caller_step s t"

abbreviation internal_step where
  "internal_step visit n died s t \<equiv> walker_step visit n s t \<or> receive_step died s t"

abbreviation system_step where
  "system_step visit n died s t \<equiv> internal_step visit n died s t \<or> caller_step s t"

abbreviation system_steps where
  "system_steps visit n died \<equiv> (system_step visit n died)\<^sup>*\<^sup>*"

lemma give_simps [simp]:
  "walker (give m r s) = walker s" "outbox (give m r s) = outbox s" "channel (give m r s) = channel s"
  "task_end (give m r s) = task_end s" "consumer (give m r s) = Idle" "held_error (give m r s) = held_error s"
  "joined (give m r s) = joined s" "gone (give m r s) = gone s"
  "calls (give m r s) = calls s @ [m]" "results (give m r s) = results s @ [r]"
  by (simp_all add: give_def)

section \<open>Shape of the system\<close>

text \<open>The batch of the call that is under way.\<close>

fun batch_so_far :: "consumer \<Rightarrow> FileStatus list" where
  "batch_so_far (Filling m b) = b"
| "batch_so_far _ = []"

definition consumer_ok :: "consumer \<Rightarrow> bool" where
  "consumer_ok c \<longleftrightarrow> (\<forall>m b. c = Filling m b \<longrightarrow> b \<noteq> [] \<and> length b \<le> unat (max m 1))"

definition system_ok :: "'job stream_system \<Rightarrow> bool" where
  "system_ok s \<longleftrightarrow> length (channel s) \<le> LIST_STREAM_BUFFER \<and> consumer_ok (consumer s) \<and>
     (joined s \<longrightarrow> task_end s \<noteq> Alive \<and> status (walker s) \<noteq> Running) \<and>
     (consumer s \<noteq> Idle \<longrightarrow> held_error s = None \<and> \<not> gone s) \<and>
     (\<not> gone s \<longrightarrow> task_end s \<noteq> Alive \<longrightarrow>
        outbox s = [] \<and> status (walker s) \<noteq> Running \<and>
        task_end s = (if status (walker s) = Panicked then Died else Returned))"

lemma system_start_ok: "system_ok (system_start w)"
  by (simp add: system_ok_def system_start_def consumer_ok_def)

lemma walker_step_ok: "walker_step visit n s t \<Longrightarrow> system_ok s \<Longrightarrow> system_ok t"
  by (erule walker_stepE) (auto simp: system_ok_def)

lemma receive_step_ok: "receive_step died s t \<Longrightarrow> system_ok s \<Longrightarrow> system_ok t"
  by (erule receive_stepE) (auto simp: system_ok_def consumer_ok_def unat_max_1)

lemma caller_step_ok: "caller_step s t \<Longrightarrow> system_ok s \<Longrightarrow> system_ok t"
  by (erule caller_stepE) (auto simp: system_ok_def consumer_ok_def)

lemma system_steps_ok: "system_steps visit n died s t \<Longrightarrow> system_ok s \<Longrightarrow> system_ok t"
  by (induction rule: rtranclp_induct) (blast intro: walker_step_ok receive_step_ok caller_step_ok)+

section \<open>The calls, one after the other\<close>

text \<open>The calls of \<open>next_batch\<close> on a stream whose messages are a list, with their results.\<close>

fun run_calls ::
  "(usize \<times> nat) list \<Rightarrow> BridgeListStream \<Rightarrow> (hdfs_error + FileStatus list) list \<times> BridgeListStream" where
  "run_calls [] s = ([], s)"
| "run_calls ((m, ready) # cs) s =
     (let (r, s') = next_batch m ready s; (rs, s'') = run_calls cs s' in (r # rs, s''))"

lemma run_calls_snoc:
  assumes "run_calls cs s = (rs, s')" and "next_batch m ready s' = (r, s'')"
  shows "run_calls (cs @ [(m, ready)]) s = (rs @ [r], s'')"
  using assms by (induction cs s arbitrary: rs rule: run_calls.induct) (auto split: prod.splits)

text \<open>A call that takes the entries \<open>b\<close> off the channel and then stops, for the two reasons it may stop.\<close>

lemma fill_batch_exact:
  "length pre + length b \<le> cap \<Longrightarrow>
   fill_batch cap (length b) pre (s\<lparr>rx := map Inr b @ rest\<rparr>) = (pre @ b, s\<lparr>rx := rest\<rparr>)"
proof (induction b arbitrary: pre)
  case (Cons x b)
  then show ?case using Cons.IH [of "pre @ [x]"] by simp
qed simp

lemma fill_batch_error:
  "length pre + length b < cap \<Longrightarrow>
   fill_batch cap (Suc (length b)) pre (s\<lparr>rx := map Inr b @ Inl e # rest\<rparr>) =
     (pre @ b, s\<lparr>rx := rest, pending_error := Some e\<rparr>)"
proof (induction b arbitrary: pre)
  case (Cons x b)
  then show ?case using Cons.IH [of "pre @ [x]"] by simp
qed simp

lemma next_batch_filled:
  assumes "b \<noteq> []" "length b \<le> unat (max m 1)" "pending_error s = None"
  shows "next_batch m (length b - 1) (s\<lparr>rx := map Inr b @ rest\<rparr>) = (Inr b, s\<lparr>rx := rest\<rparr>)"
proof -
  obtain x xs where b: "b = x # xs" using assms(1) by (cases b) auto
  with assms fill_batch_exact [where pre = "[x]" and b = xs and cap = "unat (max m 1)" and s = s and rest = rest] show ?thesis
    by (simp add: next_batch_def)
qed

lemma next_batch_stopped:
  assumes "b \<noteq> []" "length b < unat (max m 1)" "pending_error s = None"
  shows "next_batch m (length b) (s\<lparr>rx := map Inr b @ Inl e # rest\<rparr>) =
    (Inr b, s\<lparr>rx := rest, pending_error := Some e\<rparr>)"
proof -
  obtain x xs where b: "b = x # xs" using assms(1) by (cases b) auto
  with assms fill_batch_error [where pre = "[x]" and b = xs and cap = "unat (max m 1)" and s = s and e = e and rest = rest] show ?thesis
    by (simp add: next_batch_def)
qed

section \<open>Every interleaving reads as one after the other\<close>

text \<open>
  The stream as the next call sees it, when the walk goes on to send \<open>rest\<close> and the task ends
  with \<open>t\<close>; entries of the call under way are still to be received.
\<close>

definition system_view :: "rstring \<Rightarrow> (hdfs_error + FileStatus) list \<Rightarrow> join_result \<Rightarrow> 'job stream_system \<Rightarrow> BridgeListStream" where
  "system_view path rest t s =
     \<lparr>rx = map Inr (batch_so_far (consumer s)) @ channel s @ outbox s @ rest,
      task = (if joined s then None else Some t), stream_path = path, pending_error = held_error s\<rparr>"

text \<open>What is known of the future: nothing, unless a call has seen the end.\<close>

definition possible_rest :: "rstring \<Rightarrow> 'job stream_system \<Rightarrow> (hdfs_error + FileStatus) list \<Rightarrow> join_result \<Rightarrow> bool" where
  "possible_rest died s rest t \<longleftrightarrow>
     (joined s \<longrightarrow> rest = [] \<and> t = (if status (walker s) = Panicked then Some died else None))"

definition explained :: "rstring \<Rightarrow> rstring \<Rightarrow> 'job stream_system \<Rightarrow> nat list \<Rightarrow> bool" where
  "explained died path s readys \<longleftrightarrow> length readys = length (calls s) \<and>
     (\<forall>rest t. possible_rest died s rest t \<longrightarrow>
        (\<exists>v. run_calls (zip (calls s) readys)
            \<lparr>rx = sent (walker s) @ rest, task = Some t, stream_path = path, pending_error = None\<rparr> = (results s, v) \<and>
          (\<not> gone s \<longrightarrow> v = system_view path rest t s)))"

lemma explained_give:
  assumes "explained died path s readys" and "\<not> gone s" and "\<not> gone s'"
    and "walker s' = walker s" and "calls s' = calls s @ [m]" and "results s' = results s @ [r]"
    and "\<And>rest t. possible_rest died s' rest t \<Longrightarrow> possible_rest died s rest t"
    and "\<And>rest t. possible_rest died s' rest t \<Longrightarrow>
      next_batch m ready (system_view path rest t s) = (r, system_view path rest t s')"
  shows "explained died path s' (readys @ [ready])"
  unfolding explained_def
proof (intro conjI allI impI)
  show "length (readys @ [ready]) = length (calls s')" using assms(1,5) by (simp add: explained_def)
  fix rest t
  assume rest: "possible_rest died s' rest t"
  let ?s0 = "\<lparr>rx = sent (walker s) @ rest, task = Some t, stream_path = path, pending_error = None\<rparr>"
  have "run_calls (zip (calls s) readys) ?s0 = (results s, system_view path rest t s)"
    using assms(1,2) assms(7) [OF rest] unfolding explained_def by blast
  from run_calls_snoc [OF this assms(8) [OF rest]] assms(1,4-6)
  show "\<exists>v. run_calls (zip (calls s') (readys @ [ready]))
      \<lparr>rx = sent (walker s') @ rest, task = Some t, stream_path = path, pending_error = None\<rparr> = (results s', v) \<and>
    (\<not> gone s' \<longrightarrow> v = system_view path rest t s')"
    by (simp add: explained_def)
qed

text \<open>A step that returns no call keeps the explanation.\<close>

lemma explained_keep:
  assumes "explained died path s readys" and "sent (walker s') = sent (walker s) @ new"
    and "calls s' = calls s" and "results s' = results s" and "gone s \<Longrightarrow> gone s'"
    and "\<And>rest t. possible_rest died s' rest t \<Longrightarrow> possible_rest died s (new @ rest) t"
    and "\<And>rest t. \<not> gone s' \<Longrightarrow> possible_rest died s' rest t \<Longrightarrow> system_view path (new @ rest) t s = system_view path rest t s'"
  shows "explained died path s' readys"
  unfolding explained_def
proof (intro conjI allI impI)
  show "length readys = length (calls s')" using assms(1,3) by (simp add: explained_def)
  fix rest t
  assume rest: "possible_rest died s' rest t"
  let ?s0 = "\<lparr>rx = sent (walker s) @ new @ rest, task = Some t, stream_path = path, pending_error = None\<rparr>"
  obtain v where "run_calls (zip (calls s) readys) ?s0 = (results s, v)"
    "\<not> gone s \<Longrightarrow> v = system_view path (new @ rest) t s"
    using assms(1) assms(6) [OF rest] unfolding explained_def by blast
  with assms(2-5) assms(7) [OF _ rest]
  show "\<exists>v. run_calls (zip (calls s') readys)
      \<lparr>rx = sent (walker s') @ rest, task = Some t, stream_path = path, pending_error = None\<rparr> = (results s', v) \<and>
    (\<not> gone s' \<longrightarrow> v = system_view path rest t s')"
    by auto
qed

lemma poll_sent: "\<exists>new. sent (poll visit n k s) = sent s @ new"
  by (auto simp: poll_def Let_def split: prod.splits)

lemma walker_step_explained:
  assumes "walker_step visit n s s'" and "system_ok s" and "explained died path s readys"
  shows "explained died path s' readys"
  using assms(1)
proof cases
  case (listed w k)
  obtain new where new: "sent w = sent (walker s) @ new" using poll_sent listed(5) by blast
  have "\<not> joined s" using assms(2) listed(2) by (auto simp: system_ok_def)
  with listed new show ?thesis
    by (intro explained_keep [OF assms(3), of _ new]) (auto simp: possible_rest_def system_view_def)
qed (auto intro!: explained_keep [OF assms(3), of _ "[]"] simp: possible_rest_def system_view_def)

lemma caller_step_explained:
  assumes "caller_step s s'" and "system_ok s" and "explained died path s readys"
  shows "\<exists>readys'. explained died path s' readys'"
  using assms(1)
proof cases
  case (call_held e m)
  then show ?thesis
    by (intro exI [of _ "readys @ [0]"] explained_give [OF assms(3), of _ m "Inl e" 0])
      (auto simp: possible_rest_def system_view_def next_batch_def)
next
  case (call_recv m)
  then show ?thesis
    by (intro exI [of _ readys] explained_keep [OF assms(3), of _ "[]"])
      (auto simp: possible_rest_def system_view_def)
next
  case dropped_stream
  then show ?thesis
    by (intro exI [of _ readys] explained_keep [OF assms(3), of _ "[]"])
      (auto simp: possible_rest_def system_view_def)
qed

lemma receive_step_explained:
  assumes "receive_step died s s'" and "system_ok s" and "explained died path s readys"
  shows "\<exists>readys'. explained died path s' readys'"
  using assms(1)
proof cases
  case (first_entry m x ms)
  then show ?thesis
    by (intro exI [of _ readys] explained_keep [OF assms(3), of _ "[]"]) (auto simp: possible_rest_def system_view_def)
next
  case (first_error m e ms)
  then show ?thesis using assms(2)
    by (intro exI [of _ "readys @ [0]"] explained_give [OF assms(3), of _ m "Inl e" 0])
      (auto simp: possible_rest_def system_view_def next_batch_def system_ok_def)
next
  case (closed m)
  with assms(2) have ok: "\<not> gone s" "held_error s = None" "outbox s = []" "status (walker s) \<noteq> Running"
    "task_end s = (if status (walker s) = Panicked then Died else Returned)"
    by (auto simp: system_ok_def)
  with closed show ?thesis
    by (intro exI [of _ "readys @ [0]"] explained_give [OF assms(3), where m = m])
      (auto simp: possible_rest_def system_view_def next_batch_def walker_died_def)
next
  case (more_entry m b x ms)
  then show ?thesis
    by (intro exI [of _ readys] explained_keep [OF assms(3), of _ "[]"]) (auto simp: possible_rest_def system_view_def)
next
  case (more_error m b e ms)
  with assms(2) have ok: "\<not> gone s" "held_error s = None" "b \<noteq> []" by (auto simp: system_ok_def consumer_ok_def)
  have "next_batch m (length b) (system_view path rest t s) = (Inr b, system_view path rest t s')" for rest t
    using next_batch_stopped [OF ok(3) more_error(3), of "system_view path [] t s" e "ms @ outbox s @ rest"] ok more_error
    by (simp add: system_view_def)
  with more_error ok show ?thesis
    by (intro exI [of _ "readys @ [length b]"] explained_give [OF assms(3), of _ m "Inr b" "length b"]) (auto simp: possible_rest_def)
next
  case (filled m b)
  with assms(2) have ok: "\<not> gone s" "held_error s = None" "b \<noteq> []" "length b \<le> unat (max m 1)"
    by (auto simp: system_ok_def consumer_ok_def)
  have "next_batch m (length b - 1) (system_view path rest t s) = (Inr b, system_view path rest t s')" for rest t
    using next_batch_filled [OF ok(3,4), of "system_view path [] t s" "channel s @ outbox s @ rest"] ok filled
    by (simp add: system_view_def)
  with filled ok show ?thesis
    by (intro exI [of _ "readys @ [length b - 1]"] explained_give [OF assms(3), of _ m "Inr b" "length b - 1"]) (auto simp: possible_rest_def)
qed

lemma system_start_explained: "explained died path (system_start w) []"
  by (simp add: explained_def system_start_def system_view_def)

lemma walker_schedule:
  "system_steps visit n died s t \<Longrightarrow> \<exists>ks. walker t = run_schedule visit n ks (walker s)"
proof (induction rule: rtranclp_induct)
  case base
  show ?case by (rule exI [of _ "[]"]) simp
next
  case (step t u)
  then obtain ks where ks: "walker t = run_schedule visit n ks (walker s)" by blast
  have "walker u = walker t \<or> (\<exists>k. status (walker t) = Running \<and> walker u = poll visit n k (walker t))"
    using step(2) by (auto elim!: walker_stepE receive_stepE caller_stepE)
  then show ?case
  proof
    assume "\<exists>k. status (walker t) = Running \<and> walker u = poll visit n k (walker t)"
    then obtain k where "walker u = run_schedule visit n [k] (walker t)" by auto
    with ks run_schedule_append [of visit n ks "[k]" "walker s"] show ?thesis by metis
  qed (use ks in auto)
qed

lemma system_steps_explained:
  assumes "system_steps visit n died (system_start w) s"
  shows "\<exists>readys. explained died path s readys"
  using assms
proof (induction rule: rtranclp_induct)
  case base
  show ?case using system_start_explained by blast
next
  case (step t u)
  then obtain readys where "explained died path t readys" by blast
  moreover have "system_ok t" by (rule system_steps_ok [OF step(1) system_start_ok])
  ultimately show ?case
    using step(2) walker_step_explained receive_step_explained caller_step_explained by blast
qed

lemma run_schedule_sent:
  fixes s :: "('job, 'out, 'err) walk_state"
  shows "\<exists>new. sent (run_schedule visit n ks s) = sent s @ new"
proof (rule run_schedule_invariant [where P = "\<lambda>t. \<exists>new. sent t = sent s @ new"])
  fix t :: "('job, 'out, 'err) walk_state" and k
  assume "\<exists>new. sent t = sent s @ new"
  with poll_sent [of visit n k t] show "\<exists>new. sent (poll visit n k t) = sent s @ new" by force
qed simp

text \<open>
  The results of all calls so far are those of the same calls on the stream of the whole walk,
  however the walk goes on.
\<close>

lemma interleaving_explained:
  assumes "system_steps visit n died (system_start w) s"
  shows "\<exists>ks readys. length readys = length (calls s) \<and>
    (\<forall>ks'. fst (run_calls (zip (calls s) readys) (stream_of (run_schedule visit n (ks @ ks') w) died path)) = results s)"
proof -
  obtain ks where ks: "walker s = run_schedule visit n ks w"
    using walker_schedule [OF assms] by (auto simp: system_start_def)
  obtain readys where ex: "explained died path s readys" using system_steps_explained [OF assms] by blast
  have ok: "system_ok s" by (rule system_steps_ok [OF assms system_start_ok])
  show ?thesis
  proof (rule exI [of _ ks], rule exI [of _ readys], intro conjI allI)
    show "length readys = length (calls s)" using ex by (simp add: explained_def)
    fix ks'
    let ?w = "run_schedule visit n ks' (walker s)"
    obtain new where new: "sent ?w = sent (walker s) @ new" using run_schedule_sent by blast
    let ?t = "if status ?w = Panicked then Some died else None"
    have "possible_rest died s new ?t"
      using ok new run_schedule_stopped [of "walker s" visit n ks'] by (auto simp: possible_rest_def system_ok_def)
    then obtain v where "run_calls (zip (calls s) readys)
        \<lparr>rx = sent (walker s) @ new, task = Some ?t, stream_path = path, pending_error = None\<rparr> = (results s, v)"
      using ex unfolding explained_def by blast
    then show "fst (run_calls (zip (calls s) readys) (stream_of (run_schedule visit n (ks @ ks') w) died path)) = results s"
      by (simp add: stream_of_def run_schedule_append ks [symmetric] new)
  qed
qed

section \<open>No call waits for ever\<close>

text \<open>Every run reaches a state with the property: it cannot stop before and cannot go on for ever.\<close>

inductive inevitably :: "('s \<Rightarrow> 's \<Rightarrow> bool) \<Rightarrow> ('s \<Rightarrow> bool) \<Rightarrow> 's \<Rightarrow> bool"
  for R :: "'s \<Rightarrow> 's \<Rightarrow> bool" and P :: "'s \<Rightarrow> bool" where
  now: "P s \<Longrightarrow> inevitably R P s"
| later: "\<exists>t. R s t \<Longrightarrow> (\<And>t. R s t \<Longrightarrow> inevitably R P t) \<Longrightarrow> inevitably R P s"

lemma inevitably_wf:
  assumes "wf D" and "I s"
    and "\<And>s t. I s \<Longrightarrow> R s t \<Longrightarrow> (t, s) \<in> D \<and> I t"
    and "\<And>s. I s \<Longrightarrow> \<not> P s \<Longrightarrow> \<exists>t. R s t"
  shows "inevitably R P s"
  using assms(2)
proof (induction s rule: wf_induct [OF assms(1)])
  case (1 s)
  then show ?case using assms(3,4) by (cases "P s") (blast intro: now later)+
qed

text \<open>
  The same when only the steps of \<open>Q\<close> are sure to come and other steps of \<open>R\<close> may or may not: at each
  state before \<open>P\<close> there is a step of \<open>Q\<close>, and whatever step comes, the promise still stands.
\<close>

inductive unaided :: "('s \<Rightarrow> 's \<Rightarrow> bool) \<Rightarrow> ('s \<Rightarrow> 's \<Rightarrow> bool) \<Rightarrow> ('s \<Rightarrow> bool) \<Rightarrow> 's \<Rightarrow> bool"
  for Q R :: "'s \<Rightarrow> 's \<Rightarrow> bool" and P :: "'s \<Rightarrow> bool" where
  arrived: "P s \<Longrightarrow> unaided Q R P s"
| going: "\<exists>t. Q s t \<and> R s t \<Longrightarrow> (\<And>t. R s t \<Longrightarrow> unaided Q R P t) \<Longrightarrow> unaided Q R P s"

lemma unaided_wf:
  assumes "wf D" and "I s"
    and "\<And>s t. I s \<Longrightarrow> R s t \<Longrightarrow> (t, s) \<in> D \<and> I t"
    and "\<And>s. I s \<Longrightarrow> \<not> P s \<Longrightarrow> \<exists>t. Q s t \<and> R s t"
  shows "unaided Q R P s"
  using assms(2)
proof (induction s rule: wf_induct [OF assms(1)])
  case (1 s)
  then show ?case using assms(3,4) by (cases "P s") (blast intro: arrived going)+
qed

text \<open>The consumer inside a call, or the walker, always has a step.\<close>

lemma call_progress:
  assumes "system_ok s" and "consumer s \<noteq> Idle"
  shows "\<exists>t. internal_step visit n died s t"
proof (cases "consumer s")
  case (Filling m b)
  show ?thesis
  proof (cases "channel s = [] \<or> \<not> length b < unat (max m 1)")
    case True
    with Filling show ?thesis by (blast intro: filled)
  next
    case False
    then obtain msg ms where "channel s = msg # ms" "length b < unat (max m 1)" by (cases "channel s") auto
    with Filling show ?thesis by (cases msg) (blast intro: more_entry more_error)+
  qed
next
  case (Waiting m)
  have "\<not> gone s" using assms by (simp add: system_ok_def)
  show ?thesis
  proof (cases "channel s")
    case (Cons msg ms)
    with Waiting show ?thesis by (cases msg) (blast intro: first_entry first_error)+
  next
    case Nil
    have room: "length (channel s) < LIST_STREAM_BUFFER" using Nil by (simp add: LIST_STREAM_BUFFER_def)
    show ?thesis
    proof (cases "task_end s = Alive")
      case True
      then show ?thesis
        using room \<open>\<not> gone s\<close> by (cases "outbox s") (blast intro: listed accepted ended)+
    next
      case False
      with Waiting Nil show ?thesis by (blast intro: closed)
    qed
  qed
qed (use assms(2) in auto)

definition system_weight :: "'job stream_system \<Rightarrow> nat" where
  "system_weight s = 2 * length (outbox s) + length (channel s) +
     (case consumer s of Idle \<Rightarrow> 0 | Waiting _ \<Rightarrow> 2 | Filling _ _ \<Rightarrow> 1) + (if task_end s = Alive then 1 else 0)"

lemma receive_step_lighter: "receive_step died s t \<Longrightarrow> system_weight t < system_weight s \<and> walker t = walker s"
  by (erule receive_stepE) (auto simp: system_weight_def)

lemma walker_step_lighter:
  assumes "walker_step visit n s t"
  obtains (poll) k where "status (walker s) = Running" "walker t = poll visit n k (walker s)"
  | (same) "walker t = walker s" "system_weight t < system_weight s"
  using assms by cases (auto simp: system_weight_def)

lemma internal_gone: "internal_step visit n died s t \<Longrightarrow> gone t = gone s"
  by (auto elim!: walker_stepE receive_stepE)

text \<open>A step that waits for no listing: the walk itself does not move.\<close>

abbreviation no_listing :: "'job stream_system \<Rightarrow> 'job stream_system \<Rightarrow> bool" where
  "no_listing s t \<equiv> walker t = walker s"

text \<open>Nothing enters the channel of a stream that has been dropped.\<close>

lemma gone_steps:
  "system_steps visit n died s t \<Longrightarrow> gone s \<Longrightarrow> gone t \<and> suffix (channel t) (channel s)"
proof (induction rule: rtranclp_induct)
  case (step t u)
  then have "gone u \<and> suffix (channel u) (channel t)"
    by (auto elim!: walker_stepE receive_stepE caller_stepE simp: suffix_def)
  with step show ?case by (meson suffix_order.trans)
qed simp

text \<open>The scheduler's contract at the types of a stream.\<close>

locale streamed = scheduled visit ok
  for visit :: "'job \<Rightarrow> ('job, FileStatus, hdfs_error) visit_result" and ok :: "'job \<Rightarrow> bool"
begin

definition system_order where
  "system_order = inv_image ((less_than <*lex*> mult1 job_order) <*lex*> less_than)
     (\<lambda>s. ((if status (walker s) = Running then 1 else (0 :: nat), todo (walker s)), system_weight s))"

lemma wf_system_order: "wf system_order"
  unfolding system_order_def by (intro wf_inv_image wf_lex_prod wf_less_than wf_mult1 ok_wf)

lemma internal_decreases:
  assumes "0 < n" and "ok_state (walker s)" and "internal_step visit n died s t"
  shows "(t, s) \<in> system_order \<and> ok_state (walker t)"
  using assms(3)
proof
  assume "receive_step died s t"
  then show ?thesis using receive_step_lighter [of died s t] assms(2) by (simp add: system_order_def)
next
  assume "walker_step visit n s t"
  then show ?thesis
  proof (cases rule: walker_step_lighter)
    case (poll k)
    with poll_decreases [OF assms(1,2), of k] poll_ok [OF assms(1,2), of k] show ?thesis
      by (auto simp: system_order_def)
  next
    case same
    with assms(2) show ?thesis by (simp add: system_order_def)
  qed
qed

lemma system_inevitably:
  assumes "0 < n" and "ok_state (walker s)" and "system_ok s" and "Q s"
    and "\<And>s t. Q s \<Longrightarrow> internal_step visit n died s t \<Longrightarrow> Q t"
    and "\<And>s. system_ok s \<Longrightarrow> Q s \<Longrightarrow> \<not> P s \<Longrightarrow> \<exists>t. internal_step visit n died s t"
  shows "inevitably (internal_step visit n died) P s"
proof (rule inevitably_wf [OF wf_system_order, of "\<lambda>s. ok_state (walker s) \<and> system_ok s \<and> Q s"])
  fix s t
  assume "ok_state (walker s) \<and> system_ok s \<and> Q s" "internal_step visit n died s t"
  then show "(t, s) \<in> system_order \<and> ok_state (walker t) \<and> system_ok t \<and> Q t"
    using internal_decreases [OF assms(1)] assms(5) walker_step_ok receive_step_ok by blast
qed (use assms in blast)+

lemma system_steps_walker_ok:
  "0 < n \<Longrightarrow> ok_state w \<Longrightarrow> system_steps visit n died (system_start w) s \<Longrightarrow> ok_state (walker s)"
  using walker_schedule [of visit n died "system_start w" s] run_ok by (auto simp: system_start_def)

lemma call_inevitably_returns:
  assumes "0 < n" and "ok_state w" and "system_steps visit n died (system_start w) s"
  shows "inevitably (internal_step visit n died) (\<lambda>s. consumer s = Idle) s"
  by (rule system_inevitably [OF assms(1) system_steps_walker_ok [OF assms] system_steps_ok [OF assms(3) system_start_ok],
        of "\<lambda>_. True"]) (simp_all add: call_progress)

lemma dropped_ends_unaided:
  assumes "0 < n" and "ok_state w" and "system_steps visit n died (system_start w) s" and "gone s"
  shows "unaided no_listing (internal_step visit n died) (\<lambda>s. task_end s \<noteq> Alive) s"
proof (rule unaided_wf [OF wf_system_order, of "\<lambda>s. ok_state (walker s) \<and> gone s"])
  fix s t
  assume "ok_state (walker s) \<and> gone s" "internal_step visit n died s t"
  then show "(t, s) \<in> system_order \<and> ok_state (walker t) \<and> gone t"
    using internal_decreases [OF assms(1)] internal_gone by blast
next
  fix s :: "'job stream_system"
  assume "ok_state (walker s) \<and> gone s" "\<not> task_end s \<noteq> Alive"
  then have "walker_step visit n s (s\<lparr>task_end := Aborted\<rparr>)" by (intro aborted) simp_all
  then show "\<exists>t. walker t = walker s \<and> internal_step visit n died s t" by (intro exI [of _ "s\<lparr>task_end := Aborted\<rparr>"]) simp
qed (use assms(4) system_steps_walker_ok [OF assms(1-3)] in simp)

end

interpretation list_live: streamed "stream_visit ls options recursive" "\<lambda>j. finite_tree ls (fst j)"
  for ls options recursive
  by unfold_locales

interpretation glob_live: streamed "glob_visit ls plan options" "glob_job_ok ls plan"
  for ls plan options
  by unfold_locales

lemma stream_start_ok: "finite_tree ls root \<Longrightarrow> listing.ok_state ls (stream_start root)"
  by (simp add: listing.ok_state_def)

section \<open>A run\<close>

text \<open>One call on the listing of \<open>/d\<close>: the walker lists, one message is accepted, the call returns.\<close>

abbreviation demo_list_steps where
  "demo_list_steps \<equiv> system_steps (stream_visit demo_ls demo_options True) (unat (max 1 (1 :: usize))) []"

definition demo_system :: "stream_job stream_system" where
  "demo_system = \<lparr>walker = stream_walk demo_ls (lit ''/d'') True 1 demo_options [0],
     outbox = [Inr (demo_entry ''/d/s'' True)], channel = [], task_end = Alive, consumer = Idle, held_error = None,
     joined = False, gone = False, calls = [7], results = [Inr [demo_entry ''/d/x'' False]]\<rparr>"

lemma demo_listed:
  "sent (stream_walk demo_ls (lit ''/d'') True 1 demo_options [0]) =
     [Inr (demo_entry ''/d/x'' False), Inr (demo_entry ''/d/s'' True)]"
  by code_simp

lemma demo_system_reached: "demo_list_steps (system_start (stream_start (lit ''/d''))) demo_system"
proof -
  let ?x = "demo_entry ''/d/x'' False" and ?d = "Inr (demo_entry ''/d/s'' True)"
  let ?w = "stream_walk demo_ls (lit ''/d'') True 1 demo_options [0]"
  let ?s0 = "system_start (stream_start (lit ''/d''))"
  let ?s1 = "?s0\<lparr>consumer := Waiting 7\<rparr>"
  let ?s2 = "?s1\<lparr>walker := ?w, outbox := [Inr ?x, ?d]\<rparr>"
  let ?s3 = "?s2\<lparr>outbox := [?d], channel := [Inr ?x]\<rparr>"
  let ?s4 = "?s3\<lparr>consumer := Filling 7 [?x], channel := []\<rparr>"
  have n: "unat (max 1 (1 :: usize)) = 1" by simp
  have 1: "caller_step ?s0 ?s1" by (rule call_recv) (simp_all add: system_start_def)
  have 2: "walker_step (stream_visit demo_ls demo_options True) 1 ?s1 ?s2"
    using listed [of ?s1 ?w "stream_visit demo_ls demo_options True" 1 0] demo_listed
    by (simp add: system_start_def stream_start_def stream_walk_def)
  have 3: "walker_step (stream_visit demo_ls demo_options True) 1 ?s2 ?s3"
    using accepted [of ?s2 "Inr ?x" "[?d]"] by (simp add: system_start_def LIST_STREAM_BUFFER_def)
  have 4: "receive_step [] ?s3 ?s4" by (rule first_entry) (simp_all add: system_start_def)
  have 5: "receive_step [] ?s4 demo_system"
    using filled [of ?s4 7 "[?x]" "[]"] by (simp add: system_start_def demo_system_def give_def)
  note step = converse_rtranclp_into_rtranclp
  show ?thesis unfolding n
    by (rule step, rule disjI2, rule 1, rule step, rule disjI1, rule disjI1, rule 2, rule step, rule disjI1, rule disjI1,
        rule 3, rule step, rule disjI1, rule disjI2, rule 4, rule step, rule disjI1, rule disjI2, rule 5, rule rtranclp.rtrancl_refl)
qed

section \<open>Properties\<close>

text \<open>
  C5. Listing, side by side: in every reachable state of the walker task and its consumer, for every
  interleaving, the results of the calls made so far are those of the same calls of \<open>next_batch\<close> on
  the stream whose messages are those of the whole walk, however the walk goes on from there.
\<close>

theorem list_interleaving_refines:
  assumes "system_steps (stream_visit ls options recursive) (unat (max max_parallelism 1)) died
    (system_start (stream_start path)) s"
  shows "\<exists>ks readys. length readys = length (calls s) \<and>
    (\<forall>ks'. fst (run_calls (zip (calls s) readys)
        (list_stream ls path recursive max_parallelism options died (ks @ ks'))) = results s)"
  using interleaving_explained [OF assms, of path] by (simp add: list_stream_def stream_walk_def)

theorem list_interleaving_refines_witness:
  "\<exists>ks ready. \<forall>ks'. fst (next_batch 7 ready
      (list_stream demo_ls (lit ''/d'') True 1 demo_options [] (ks @ ks'))) = Inr [demo_entry ''/d/x'' False]"
proof -
  obtain ks readys where "length readys = 1" and run: "\<forall>ks'. fst (run_calls (zip [7] readys)
      (list_stream demo_ls (lit ''/d'') True 1 demo_options [] (ks @ ks'))) = [Inr [demo_entry ''/d/x'' False]]"
    using list_interleaving_refines [OF demo_system_reached] by (auto simp: demo_system_def simp del: lit_Cons)
  then obtain r where "readys = [r]" by (auto simp: length_Suc_conv)
  with run show ?thesis by (auto simp: split_beta simp del: lit_Cons)
qed

text \<open>
  Globbing, side by side: the same refinement for a glob walk, including the look-up of the
  pattern's root before its first listing.
\<close>

theorem glob_interleaving_refines:
  assumes "parse pattern (include_hidden options) = Some (Inr plan)"
    and "system_steps (glob_visit ls plan options) (unat (max max_parallelism 1)) died
      (system_start (glob_start info plan)) s"
  shows "\<exists>ks readys. length readys = length (calls s) \<and>
    (\<forall>ks'. \<exists>st. glob_stream ls info pattern max_parallelism options died (ks @ ks') = Some (Inr st) \<and>
        fst (run_calls (zip (calls s) readys) st) = results s)"
  using interleaving_explained [OF assms(2), of pattern] assms(1) by (simp add: glob_stream_def glob_walk_def)

theorem glob_interleaving_refines_witness:
  "\<exists>ks. \<forall>ks'. \<exists>st. glob_stream demo_ls demo_info (lit ''/d/*'') 1 demo_options [] (ks @ ks') = Some (Inr st)"
  using glob_interleaving_refines [of "lit ''/d/*''" demo_options demo_plan demo_ls 1 "[]" demo_info] parse_example
  by (fastforce simp del: lit_Cons)

text \<open>
  C13. No call waits for ever: from every reachable state of a listing or a glob over a finite tree,
  every run of the walker and of the call under way, in any interleaving, reaches the return of
  that call; the bounded channel cannot deadlock the two sides.
\<close>

theorem calls_return:
  fixes max_parallelism :: usize
  shows "(finite_tree ls path \<longrightarrow>
      system_steps (stream_visit ls options recursive) (unat (max max_parallelism 1)) died
        (system_start (stream_start path)) s \<longrightarrow>
      inevitably (internal_step (stream_visit ls options recursive) (unat (max max_parallelism 1)) died)
        (\<lambda>s. consumer s = Idle) s) \<and>
   (parse pattern ih = Some (Inr plan) \<longrightarrow> finite_tree ls (plan_root plan) \<longrightarrow>
      system_steps (glob_visit ls plan options) (unat (max max_parallelism 1)) died
        (system_start (glob_start info plan)) s' \<longrightarrow>
      inevitably (internal_step (glob_visit ls plan options) (unat (max max_parallelism 1)) died)
        (\<lambda>s. consumer s = Idle) s')"
  by (intro conjI impI list_live.call_inevitably_returns [OF clamp_positive stream_start_ok]
      glob_live.call_inevitably_returns [OF clamp_positive glob_start_ok(3)])

theorem calls_return_witness:
  "inevitably (internal_step (stream_visit demo_ls demo_options True) (unat (max 1 (1 :: usize))) [])
     (\<lambda>s. consumer s = Idle) (demo_system\<lparr>consumer := Waiting 7\<rparr>)"
proof -
  have "caller_step demo_system (demo_system\<lparr>consumer := Waiting 7\<rparr>)"
    by (rule call_recv) (simp_all add: demo_system_def)
  with demo_system_reached
  have "demo_list_steps (system_start (stream_start (lit ''/d''))) (demo_system\<lparr>consumer := Waiting 7\<rparr>)"
    by (simp add: rtranclp.rtrancl_into_rtrancl)
  with calls_return demo_finite_tree show ?thesis by blast
qed

text \<open>
  C40. Dropping a stream ends its walk, also when the cluster has stopped answering: from every state
  of a listing or a glob in which the consumer has dropped the stream, whatever the walker does, its
  task ends by steps that wait for no listing, those that are in flight included; and from then on
  nothing more enters the channel.
\<close>

theorem dropped_walk_ends:
  fixes max_parallelism :: usize
  assumes "gone s" and "gone s'"
  shows "(finite_tree ls path \<longrightarrow>
      system_steps (stream_visit ls options recursive) (unat (max max_parallelism 1)) died
        (system_start (stream_start path)) s \<longrightarrow>
      unaided no_listing (internal_step (stream_visit ls options recursive) (unat (max max_parallelism 1)) died)
        (\<lambda>s. task_end s \<noteq> Alive) s \<and>
      (\<forall>t. system_steps (stream_visit ls options recursive) (unat (max max_parallelism 1)) died s t \<longrightarrow>
        gone t \<and> suffix (channel t) (channel s))) \<and>
    (parse pattern ih = Some (Inr plan) \<longrightarrow> finite_tree ls (plan_root plan) \<longrightarrow>
      system_steps (glob_visit ls plan options) (unat (max max_parallelism 1)) died
        (system_start (glob_start info plan)) s' \<longrightarrow>
      unaided no_listing (internal_step (glob_visit ls plan options) (unat (max max_parallelism 1)) died)
        (\<lambda>s. task_end s \<noteq> Alive) s' \<and>
      (\<forall>t. system_steps (glob_visit ls plan options) (unat (max max_parallelism 1)) died s' t \<longrightarrow>
        gone t \<and> suffix (channel t) (channel s')))"
  by (intro conjI impI allI) (rule list_live.dropped_ends_unaided [OF clamp_positive stream_start_ok _ assms(1)]
      glob_live.dropped_ends_unaided [OF clamp_positive glob_start_ok(3) _ assms(2)]
      conjunct1 [OF gone_steps [OF _ assms(1)]] conjunct2 [OF gone_steps [OF _ assms(1)]]
      conjunct1 [OF gone_steps [OF _ assms(2)]] conjunct2 [OF gone_steps [OF _ assms(2)]]; assumption)+

theorem dropped_walk_ends_witness:
  "unaided no_listing (internal_step (stream_visit demo_ls demo_options True) (unat (max 1 (1 :: usize))) [])
     (\<lambda>s. task_end s \<noteq> Alive) (demo_system\<lparr>gone := True\<rparr>)"
proof -
  have "caller_step demo_system (demo_system\<lparr>gone := True\<rparr>)"
    by (rule dropped_stream) (simp_all add: demo_system_def)
  with demo_system_reached
  have "demo_list_steps (system_start (stream_start (lit ''/d''))) (demo_system\<lparr>gone := True\<rparr>)"
    by (simp add: rtranclp.rtrancl_into_rtrancl)
  moreover have "gone (demo_system\<lparr>gone := True\<rparr>)" by simp
  moreover have "gone ((system_start (glob_start demo_info demo_plan))\<lparr>gone := True\<rparr>)" by simp
  ultimately show ?thesis using dropped_walk_ends demo_finite_tree by blast
qed

end
