(* ===== verification/Ffi_Results.thy ===== *)
theory Ffi_Results
  imports Ffi_Session Channel
begin

text \<open>
  What the C++ side may rely on at the boundary of \<^verbatim>\<open>hdfs-bridge/src/lib.rs\<close>: the status
  convention of the fallible functions, the classification of errors, batches of entries that
  cross the boundary unchanged and can be given back without a leak, and the lengths of reads.
\<close>

section \<open>A small memory\<close>

text \<open>A client, a stream, a reader and the caller's cells, for the witnesses.\<close>

definition demo_stream :: BridgeListStream where
  "demo_stream = \<lparr>rx = [Inr (demo_entry ''/d/x'' False), Inr (demo_entry ''/d/s'' True), Inl (FileNotFound [])],
       task = Some None, stream_path = lit ''/d'', pending_error = None\<rparr>"

lemma demo_next_batch:
  "next_batch (at_least_1 5) 1 demo_stream =
     (Inr [demo_entry ''/d/x'' False, demo_entry ''/d/s'' True], demo_stream\<lparr>rx := [Inl (FileNotFound [])]\<rparr>)"
  by code_simp

definition demo_mem :: "(nat, unit, byte list, byte list, nat) mem" where
  "demo_mem = \<lparr>fresh = 50, cstrs = Map.empty, entry_arrays = Map.empty,
     clients = [9 \<mapsto> \<lparr>cl_inner = (), cl_rt = 1\<rparr>],
     readers = [7 \<mapsto> \<lparr>rd_inner = [7, 8, 9], rd_rt = 1\<rparr>], writers = Map.empty,
     streams = [8 \<mapsto> demo_stream],
     args = [2 \<mapsto> encode (lit ''/f'')], statuses = [3 \<mapsto> \<lparr>code = HDFS_OK, msg = null\<rparr>],
     infos = Map.empty, counts = [4 \<mapsto> 9], bufs = [6 \<mapsto> [0, 0, 0, 0]], cluster = 0, runtime_slot = Some 1\<rparr>"

lemma demo_mem_ok: "mem_ok demo_mem"
  by (simp add: mem_ok_def demo_mem_def live_below_def)

lemma demo_mem_cells [simp]:
  "streams demo_mem 8 = Some demo_stream"
  "counts demo_mem 4 = Some 9" "statuses demo_mem 3 = Some \<lparr>code = HDFS_OK, msg = null\<rparr>"
  "readers demo_mem 7 = Some \<lparr>rd_inner = [7, 8, 9], rd_rt = 1\<rparr>" "bufs demo_mem 6 = Some [0, 0, 0, 0]"
  "clients demo_mem 9 = Some \<lparr>cl_inner = (), cl_rt = 1\<rparr>" "cluster demo_mem = 0"
  by (simp_all add: demo_mem_def)

lemma demo_mem_path: "read_cstr 2 demo_mem = Some (lit ''/f'')"
proof -
  have "decode_lossy (encode (lit ''/f'')) = lit ''/f''" by (rule decode_encode) (simp add: is_scalar_def)
  then show ?thesis by (simp add: read_cstr_def demo_mem_def)
qed

section \<open>Status reports\<close>

text \<open>
  C16. All thirteen functions of the boundary that take a status follow its convention: with live
  arguments the call is free of undefined behaviour, the status code is not \<open>HDFS_OK\<close> and there is a
  message exactly when the call has failed, and the message is owned by the caller. Twelve functions
  signal the failure by the returned value, too; \<^verbatim>\<open>hdfs_bridge_list_stream_next\<close> does not, and its status
  tells an error of the stream from a batch and from the end.
\<close>

theorem status_convention:
  assumes "st \<noteq> null"
  shows "follows_convention (hdfs_bridge_connect N url dir user st) (\<lambda>r. r = null)
      (\<lambda>m. opt_live url m \<and> opt_live dir m \<and> opt_live user m) st \<and>
    follows_convention (hdfs_bridge_get_file_info N client path out st) (\<lambda>r. r \<noteq> 0)
      (\<lambda>m. client_args client path m \<and> infos m out \<noteq> None) st \<and>
    follows_convention (hdfs_bridge_open N client path st) (\<lambda>r. r = null) (client_args client path) st \<and>
    follows_convention (hdfs_bridge_read_range N reader buf len offset st) (\<lambda>r. r = - 1)
      (buffer_args readers reader buf len) st \<and>
    follows_convention (hdfs_bridge_create N client path ow st) (\<lambda>r. r = null) (client_args client path) st \<and>
    follows_convention (hdfs_bridge_write N writer buf len st) (\<lambda>r. r = - 1)
      (buffer_args writers writer buf len) st \<and>
    follows_convention (hdfs_bridge_close_writer N writer st) (\<lambda>r. r \<noteq> 0)
      (\<lambda>m. writer = null \<or> writers m writer \<noteq> None) st \<and>
    follows_convention (hdfs_bridge_glob_stream_open N client path par skip hidden st died ks) (\<lambda>r. r = null)
      (client_args client path) st \<and>
    follows_convention (hdfs_bridge_stat N client path st) (\<lambda>r. r = null) (client_args client path) st \<and>
    follows_convention (hdfs_bridge_mkdirs N client path st) (\<lambda>r. r \<noteq> 0) (client_args client path) st \<and>
    follows_convention (hdfs_bridge_delete N client path recursive st) (\<lambda>r. r \<noteq> 0) (client_args client path) st \<and>
    follows_convention (hdfs_bridge_rename N client path dst ow st) (\<lambda>r. r \<noteq> 0)
      (\<lambda>m. client_args client path m \<and> client_args client dst m) st \<and>
    follows_convention (hdfs_bridge_list_stream_next N stream max_entries ready out_count st) (\<lambda>_. True)
      (next_gives stream max_entries ready out_count isl) st \<and>
    follows_convention (hdfs_bridge_list_stream_next N stream max_entries ready out_count st) (\<lambda>_. False)
      (next_gives stream max_entries ready out_count (\<lambda>r. \<not> isl r)) st"
  by (intro conjI connect_call.follows [OF assms] get_file_info_call.follows [OF assms] open_call.follows [OF assms]
      read_call.follows [OF assms] create_call.follows [OF assms] write_call.follows [OF assms]
      close_call.follows [OF assms] glob_open_call.follows [OF assms] stat_call.follows [OF assms]
      mkdirs_call.follows [OF assms] delete_call.follows [OF assms] rename_call.follows [OF assms]
      next_fails.follows [OF assms] next_serves.follows [OF assms])


theorem status_convention_witness:
  "\<exists>r m' s. hdfs_bridge_mkdirs demo_native 9 2 3 demo_mem = Some (r, m') \<and> statuses m' 3 = Some s \<and>
     (r \<noteq> 0 \<longleftrightarrow> code s \<noteq> HDFS_OK)"
proof -
  have three: "(3 :: addr) \<noteq> null" by simp
  have "follows_convention (hdfs_bridge_mkdirs demo_native 9 2 3) (\<lambda>r. r \<noteq> 0) (client_args 9 2) 3"
    using status_convention [OF three, of demo_native 0 0 0 9 2] by blast
  with demo_mem_ok demo_mem_path show ?thesis
    unfolding follows_convention_def by (fastforce simp: client_args_def)
qed

text \<open>
  An error reported across the boundary carries its category, which is never \<open>HDFS_OK\<close>, and a
  message that reads back as the context, a colon and the error's text (NUL characters replaced by
  spaces); freeing the message restores the strings there were before.
\<close>

theorem errors_are_reported:
  assumes "mem_ok m" and "st \<noteq> null" and "statuses m st \<noteq> None"
    and "list_all is_scalar (context @ lit '': '' @ n_show N err)"
  shows "\<exists>m' s. set_error N st context err m = Some m' \<and> statuses m' st = Some s \<and>
    code s = classify err \<and> code s \<noteq> HDFS_OK \<and>
    read_cstr (msg s) m' = Some (cleaned (context @ lit '': '' @ n_show N err)) \<and>
    (\<exists>m''. hdfs_bridge_free_string (msg s) m' = Some m'' \<and> cstrs m'' = cstrs m)"
proof -
  let ?t = "cleaned (context @ lit '': '' @ n_show N err)"
  let ?m = "m\<lparr>fresh := fresh m + 1, cstrs := (cstrs m)(fresh m \<mapsto> encode ?t),
      statuses := (statuses m)(st \<mapsto> \<lparr>code = classify err, msg = fresh m\<rparr>)\<rparr>"
  have set: "set_error N st context err m = Some ?m"
    unfolding set_error_def by (rule set_status_eq [OF assms(2,3)])
  have "list_all is_scalar ?t"
    using assms(4) unfolding cleaned_def list_all_iff by (auto simp: is_scalar_def)
  then have "read_cstr (fresh m) ?m = Some ?t"
    by (simp add: read_cstr_def decode_encode)
  moreover have "0 < fresh m" "cstrs m (fresh m) = None"
    using assms(1) live_below_fresh [of "fresh m" "cstrs m" "fresh m"] by (auto simp: mem_ok_def)
  then have "hdfs_bridge_free_string (fresh m) ?m = Some (?m\<lparr>cstrs := cstrs m\<rparr>)"
    by (auto simp: hdfs_bridge_free_string_def fun_upd_idem)
  ultimately show ?thesis using set classify_not_ok [of err] by simp
qed

theorem errors_are_reported_witness:
  "\<exists>m' s. set_error demo_native 3 (lit ''stat'') (FileNotFound (lit ''/z'')) demo_mem = Some m' \<and>
     statuses m' 3 = Some s \<and> code s = HDFS_ERR_NOT_FOUND \<and> read_cstr (msg s) m' = Some (lit ''stat: /z'')"
proof -
  have show_z: "n_show demo_native (FileNotFound (lit ''/z'')) = lit ''/z''" by (simp add: demo_native_def)
  from errors_are_reported [OF demo_mem_ok, of 3 "lit ''stat''" demo_native "FileNotFound (lit ''/z'')"]
  show ?thesis unfolding show_z by (auto simp: is_scalar_def cleaned_def)
qed

section \<open>Streams\<close>

text \<open>
  C12. A batch crosses the boundary unchanged and leaks nothing: the count cell holds the exact
  number of entries (no wrap-around, at most \<open>max_entries\<close>), the entries read back, in order, as the
  statuses of the batch with all their fields (path, length, type, permission, owner, group, times;
  replication and block size of files, which directories do not have), the status is untouched, and
  freeing the array with that count restores every string and array there was before.
\<close>

theorem batch_crosses_boundary:
  assumes "mem_ok m" and "streams m stream = Some s" and "counts m out_count \<noteq> None"
    and "next_batch (at_least_1 max_entries) ready s = (Inr b, s')" and "b \<noteq> []"
    and "list_all status_marshallable b"
  shows "\<exists>p m' c es. hdfs_bridge_list_stream_next N stream max_entries ready out_count st m = Some (p, m') \<and>
    p \<noteq> null \<and> statuses m' = statuses m \<and> streams m' stream = Some s' \<and>
    counts m' out_count = Some c \<and> sint c = int (length b) \<and> sint c \<le> max 1 (sint max_entries) \<and>
    entry_arrays m' p = Some es \<and> map (entry_view m') es = map (\<lambda>st. Some (status_view st)) b \<and>
    (\<exists>m''. hdfs_bridge_free_dir_entries p c m' = Some m'' \<and> cstrs m'' = cstrs m \<and> entry_arrays m'' = entry_arrays m)"
proof -
  let ?m1 = "m\<lparr>counts := (counts m)(out_count \<mapsto> 0), streams := (streams m)(stream \<mapsto> s')\<rparr>"
  let ?m2 = "entries_built b out_count ?m1"
  have ok: "mem_ok ?m1" by (rule stream_next_mem_ok [OF assms(1,2)])
  have len: "int (length b) \<le> max 1 (sint max_entries)" "length b < 2 ^ 31"
    using batch_length [OF assms(4)] by auto
  have "hdfs_bridge_list_stream_next N stream max_entries ready out_count st m =
      Some (fresh m + 3 * length b, ?m2)"
    using assms(5) by (simp add: stream_next_eq [OF assms(2-4)] statuses_to_entries_eq Let_def)
  moreover have "map (entry_view ?m2) (entries_at (fresh m) b) = map (\<lambda>st. Some (status_view st)) b"
    by (rule entries_at_view [OF assms(6), of _ _ "cstrs m"]) (simp add: entries_built_def Let_def)
  moreover have "hdfs_bridge_free_dir_entries (fresh m + 3 * length b) (of_nat (length b)) ?m2 =
      Some (?m1\<lparr>counts := (counts ?m1)(out_count \<mapsto> of_nat (length b)), fresh := fresh m + 3 * length b + 1\<rparr>)"
    using free_entries_built [OF ok assms(5) len(2), of out_count] by simp
  ultimately show ?thesis
    using len sint_of_nat_32 [OF len(2)] assms(1) by (auto simp: entries_built_def Let_def mem_ok_def)
qed

theorem batch_crosses_boundary_witness:
  "\<exists>p m' c. hdfs_bridge_list_stream_next demo_native 8 5 1 4 3 demo_mem = Some (p, m') \<and>
     counts m' 4 = Some c \<and> sint c = 2 \<and> (\<exists>m''. hdfs_bridge_free_dir_entries p c m' = Some m'' \<and> cstrs m'' = cstrs demo_mem)"
proof -
  have "list_all status_marshallable [demo_entry ''/d/x'' False, demo_entry ''/d/s'' True]"
    by (simp add: status_marshallable_def marshallable_def demo_entry_def is_scalar_def)
  with batch_crosses_boundary [OF demo_mem_ok, of 8 demo_stream 4 5 1 _ _ demo_native 3, OF _ _ demo_next_batch]
  show ?thesis by auto
qed

text \<open>
  The end of a stream and an error of a stream are told apart: at the end the call returns null
  with count 0 and leaves the status alone; on an error it returns null with count 0 and the status
  holds the error's category.
\<close>

theorem end_and_error_differ:
  assumes "mem_ok m" and "streams m stream = Some s" and "counts m out_count \<noteq> None"
    and "st \<noteq> null" and "statuses m st \<noteq> None"
    and "next_batch (at_least_1 max_entries) ready s = (r, s')" and "r = Inr [] \<or> r = Inl e"
  shows "\<exists>m'. hdfs_bridge_list_stream_next N stream max_entries ready out_count st m = Some (null, m') \<and>
    counts m' out_count = Some 0 \<and>
    (if r = Inr [] then statuses m' = statuses m
     else \<exists>t. statuses m' st = Some t \<and> code t = classify e \<and> code t \<noteq> HDFS_OK)"
proof (cases "r = Inr []")
  case True
  then show ?thesis by (simp add: stream_next_eq [OF assms(2,3,6)] statuses_to_entries_eq Let_def)
next
  case False
  then have e: "r = Inl e" using assms(7) by blast
  let ?m1 = "m\<lparr>counts := (counts m)(out_count \<mapsto> 0), streams := (streams m)(stream \<mapsto> s')\<rparr>"
  have "statuses ?m1 st \<noteq> None" using assms(5) by simp
  then show ?thesis
    using False e classify_not_ok [of e]
    by (simp add: stream_next_eq [OF assms(2,3,6)] fail_with_def set_error_def set_status_eq [OF assms(4)] Let_def
        del: lit_Cons)
qed

theorem end_and_error_differ_witness:
  "\<exists>m' t. hdfs_bridge_list_stream_next demo_native 8 5 1 4 3
      (demo_mem\<lparr>streams := [8 \<mapsto> \<lparr>rx = [Inl (FileNotFound [])], task = Some None, stream_path = [], pending_error = None\<rparr>]\<rparr>)
      = Some (null, m') \<and> statuses m' 3 = Some t \<and> code t = HDFS_ERR_NOT_FOUND"
proof -
  let ?s = "\<lparr>rx = [Inl (FileNotFound [])], task = Some None, stream_path = [], pending_error = None\<rparr>"
  let ?m = "demo_mem\<lparr>streams := [8 \<mapsto> ?s]\<rparr>"
  have "mem_ok ?m" by (simp add: mem_ok_def demo_mem_def live_below_def)
  moreover have "next_batch (at_least_1 5) 1 ?s = (Inl (FileNotFound []), ?s\<lparr>rx := []\<rparr>)"
    by (simp add: next_batch_def)
  ultimately show ?thesis
    using end_and_error_differ [of ?m 8 ?s 4 3 5 1 "Inl (FileNotFound [])" "?s\<lparr>rx := []\<rparr>" "FileNotFound []" demo_native]
    by auto
qed

section \<open>Deleting and reading\<close>

text \<open>
  A server that answers "nothing deleted" is reported as a failure of the category not-found,
  never as a success.
\<close>

theorem delete_nothing_is_not_found:
  assumes "clients m client = Some c" and "read_cstr path m = Some p"
    and "n_delete N (cl_inner c) p recursive (cluster m) = (Inr False, w)"
    and "st \<noteq> null" and "statuses m st \<noteq> None"
  shows "\<exists>m' s. hdfs_bridge_delete N client path recursive st m = Some (- 1, m') \<and> cluster m' = w \<and>
    statuses m' st = Some s \<and> code s = HDFS_ERR_NOT_FOUND"
proof -
  have "statuses (m\<lparr>cluster := w\<rparr>) st \<noteq> None" using assms(5) by simp
  with assms(1-3) show ?thesis
    by (simp add: hdfs_bridge_delete_def delete_def set_status_eq [OF assms(4)] del: lit_Cons)
qed

theorem delete_nothing_is_not_found_witness:
  "\<exists>m' s. hdfs_bridge_delete demo_native 9 2 False 3 demo_mem = Some (- 1, m') \<and> cluster m' = 1 \<and>
     statuses m' 3 = Some s \<and> code s = HDFS_ERR_NOT_FOUND"
  by (rule delete_nothing_is_not_found [OF _ demo_mem_path]) (simp_all add: demo_native_def)

text \<open>
  A read that succeeds returns the length asked for, with exactly the first \<open>len\<close> bytes of the
  buffer replaced by what was read; a negative length is an invalid argument and nothing is
  touched, whatever the handle and the buffer are.
\<close>

theorem read_range_exact:
  assumes "n_read_range_buf N (rd_inner rd) (take (unat len) bs) offset (cluster m) = (Inr (), filled)"
    and "readers m reader = Some rd" and "bufs m buf = Some bs" and "unat len \<le> length bs"
    and "st \<noteq> null" and "statuses m st \<noteq> None"
  shows "if sint len < 0
    then \<exists>m' s. hdfs_bridge_read_range N reader' buf' len offset st m = Some (- 1, m') \<and> bufs m' = bufs m \<and>
           statuses m' st = Some s \<and> code s = HDFS_ERR_INVALID_ARGUMENT
    else hdfs_bridge_read_range N reader buf len offset st m =
           Some (len, m\<lparr>bufs := (bufs m)(buf \<mapsto> filled @ drop (unat len) bs)\<rparr>)"
  using assms(1-4)
  by (simp add: hdfs_bridge_read_range_def read_range_buf_def set_status_eq [OF assms(5,6)] Let_def del: lit_Cons)

theorem read_range_exact_witness:
  "hdfs_bridge_read_range demo_native 7 6 2 1 3 demo_mem =
     Some (2, demo_mem\<lparr>bufs := (bufs demo_mem)(6 \<mapsto> [8, 9, 0, 0])\<rparr>)"
proof -
  have "n_read_range_buf demo_native (rd_inner \<lparr>rd_inner = [7, 8, 9], rd_rt = 1 :: nat\<rparr>) (take (unat (2 :: i64)) [0, 0, 0, 0]) 1
      (cluster demo_mem) = (Inr (), [8, 9])"
    by (simp add: demo_native_def)
  from read_range_exact [OF this, of 7 6 3 0 0] show ?thesis by simp
qed

section \<open>Numbers\<close>

text \<open>
  The numbers of an entry: lengths and block sizes below \<open>2 ^ 63\<close> and replication factors below
  \<open>2 ^ 31\<close> keep their value through the signed casts, and the value -1 for replication and block size
  is given to directories whatever the name node reported and to files that have none.
\<close>

theorem entry_numbers:
  assumes "unat (fs_length info) < 2 ^ 63"
    and "\<And>r. fs_replication info = Some r \<Longrightarrow> unat r < 2 ^ 31"
    and "\<And>b. fs_blocksize info = Some b \<Longrightarrow> unat b < 2 ^ 63"
  shows "sint (de_length (fst (status_to_entry info m))) = int (unat (fs_length info)) \<and>
    sint (de_replication (fst (status_to_entry info m))) =
      (if fs_isdir info then - 1 else case fs_replication info of Some r \<Rightarrow> int (unat r) | None \<Rightarrow> - 1) \<and>
    sint (de_block_size (fst (status_to_entry info m))) =
      (if fs_isdir info then - 1 else case fs_blocksize info of Some b \<Rightarrow> int (unat b) | None \<Rightarrow> - 1)"
proof -
  have s64: "sint w = int (unat w)" if "unat w < 2 ^ 63" for w :: i64
    using that by (intro sint_small) simp
  have s32: "sint w = int (unat w)" if "unat w < 2 ^ 31" for w :: i32
    using that by (intro sint_small) simp
  have "sint (de_length (entry_at a info)) = int (unat (fs_length info))" for a
    using s64 [OF assms(1)] by (simp add: entry_at_def)
  moreover have "sint (de_replication (entry_at a info)) =
      (if fs_isdir info then - 1 else case fs_replication info of Some r \<Rightarrow> int (unat r) | None \<Rightarrow> - 1)" for a
    using s32 [OF assms(2)] by (cases "fs_replication info") (simp_all add: entry_at_def)
  moreover have "sint (de_block_size (entry_at a info)) =
      (if fs_isdir info then - 1 else case fs_blocksize info of Some b \<Rightarrow> int (unat b) | None \<Rightarrow> - 1)" for a
    using s64 [OF assms(3)] by (cases "fs_blocksize info") (simp_all add: entry_at_def)
  ultimately show ?thesis by (simp add: status_to_entry_eq)
qed

theorem entry_numbers_witness:
  "sint (de_length (fst (status_to_entry (demo_entry ''/d/x'' False) demo_mem))) = 1 \<and>
   sint (de_replication (fst (status_to_entry (demo_entry ''/d/x'' False) demo_mem))) = - 1"
  using entry_numbers [of "demo_entry ''/d/x'' False" demo_mem] by (simp add: demo_entry_def)

section \<open>Strings\<close>

text \<open>
  A string handed to the other side reads back as itself: a Rust string of Unicode scalar values
  without NUL becomes a live C string that \<open>opt_str\<close> reads as the same string (an empty one as
  absent), and freeing it restores the strings there were before.
\<close>

theorem string_round_trip:
  assumes "mem_ok m" and "list_all is_scalar s" and "ch_nul \<notin> set s" and "to_c_string s m = (p, m')"
  shows "opt_str p m' = Some (if s = [] then None else Some s) \<and>
    (\<exists>m''. hdfs_bridge_free_string p m' = Some m'' \<and> cstrs m'' = cstrs m)"
proof -
  have p: "p = fresh m" "m' = m\<lparr>fresh := fresh m + 1, cstrs := (cstrs m)(fresh m \<mapsto> encode s)\<rparr>"
    using assms(3,4) by (auto simp: to_c_string_eq c_bytes_def alloc_cstr_def)
  have "0 < fresh m" "cstrs m (fresh m) = None"
    using assms(1) mem_ok_above [of m "fresh m"] by (auto simp: mem_ok_def)
  with p decode_encode [OF assms(2)] show ?thesis
    by (auto simp: opt_str_def read_cstr_def hdfs_bridge_free_string_def fun_upd_idem)
qed

theorem string_round_trip_witness:
  "opt_str 50 (snd (to_c_string [0x48, 0xE9, 0x1F600] demo_mem)) = Some (Some [0x48, 0xE9, 0x1F600])"
proof -
  have "to_c_string [0x48, 0xE9, 0x1F600] demo_mem = (50, snd (to_c_string [0x48, 0xE9, 0x1F600] demo_mem))"
    by (simp add: to_c_string_eq alloc_cstr_def demo_mem_def)
  from string_round_trip [OF demo_mem_ok _ _ this] show ?thesis by (simp add: is_scalar_def)
qed

section \<open>Sessions\<close>

text \<open>
  C6. A disciplined caller never meets undefined behaviour: over any session of permitted calls, with
  the caller's own writes and a changing cluster in between, the memory stays well-formed (handles
  and strings live and apart, every live array owns its strings), and every call that is permitted
  then is defined: no dangling handle, no double free, no array rebuilt with a wrong length.
\<close>

theorem disciplined_callers_are_safe:
  assumes "heap_ok m0" and "session N m0 m"
  shows "heap_ok m \<and> (\<forall>c. permitted c m \<longrightarrow> (\<exists>m'. run_call N c m = Some m' \<and> heap_ok m'))"
  using session_heap_ok [OF assms(2,1)] run_call_safe by blast

theorem disciplined_callers_are_safe_witness:
  "\<exists>m1. session demo_native demo_mem m1 \<and> (\<exists>m2. run_call demo_native (ListNext 8 5 1 4 3) m1 = Some m2 \<and> heap_ok m2)"
proof -
  have ok: "heap_ok demo_mem" using demo_mem_ok by (simp add: heap_ok_def arrays_ok_def demo_mem_def)
  have session: "session demo_native demo_mem (demo_mem\<lparr>cluster := 5\<rparr>)"
    using cluster_changes [of demo_native demo_mem 5] by (rule r_into_rtranclp)
  have "permitted (ListNext 8 5 1 4 3) (demo_mem\<lparr>cluster := 5\<rparr>)" by (simp add: status_live_def)
  with disciplined_callers_are_safe [OF ok session] session show ?thesis by blast
qed

end
