(* ===== verification/Hdfs_Results.thy ===== *)
theory Hdfs_Results
  imports Hdfs_Files Ffi_Results
begin

text \<open>
  What the C++ filesystem promises DuckDB, over the operations of \<open>Hdfs_Metadata\<close> and
  \<open>Hdfs_Files\<close>, and the states the witnesses run from.
\<close>

section \<open>States\<close>

text \<open>\<^verbatim>\<open>HdfsFileSystem()\<close>, in a process with the given memory.\<close>

definition new_fs :: "('w, 'c, 'r, 'o, 't) mem \<Rightarrow> ('w, 'c, 'r, 'o, 't) hdfs_fs" where
  "new_fs m = \<lparr>heap = m, connections = Map.empty, refs = (\<lambda>_. 0)\<rparr>"

lemma new_fs_ok:
  assumes "heap_ok m" and "cells_ok m" and "clients m = Map.empty"
  shows "fs_ok {#} (new_fs m)"
  using assms by (simp add: fs_ok_def new_fs_def current_def)

definition demo_fs :: "(nat, unit, byte list, byte list, nat) hdfs_fs" where
  "demo_fs = new_fs (demo_mem\<lparr>clients := Map.empty\<rparr>)"

lemma demo_fs_ok: "fs_ok {#} demo_fs"
  unfolding demo_fs_def
  by (rule new_fs_ok) (simp_all add: heap_ok_def arrays_ok_def cells_ok_def mem_ok_def live_below_def demo_mem_def)

text \<open>A connection of the default file system whose client, \<open>0\<close>, has lost its NameNode; new clients are \<open>1\<close>.\<close>

definition failover_native :: "(nat, nat, byte list, byte list, nat) hdfs_native" where
  "failover_native = \<lparr>
     n_build_runtime = (\<lambda>w. Inr w),
     n_build = (\<lambda>_ _ _. Inr 1),
     n_get_file_info = (\<lambda>c p _. if c = 0 then Inl (IOError (IoError KConnectionReset [])) else demo_info p),
     n_list_status = (\<lambda>c p _. if c = 0 then Inl (IOError (IoError KConnectionReset [])) else demo_ls p),
     n_read = (\<lambda>_ p _. Inl (FileNotFound p)),
     n_create = (\<lambda>_ p _ w. (Inr [], w + 1)),
     n_mkdirs = (\<lambda>_ _ _ _ w. (Inr (), w + 1)),
     n_delete = (\<lambda>_ _ _ w. (Inr False, w + 1)),
     n_rename = (\<lambda>_ _ _ _ w. (Inr (), w + 1)),
     n_file_length = (\<lambda>r. of_nat (length r)),
     n_read_range_buf = (\<lambda>_ buf _ _. (Inr (), buf)),
     n_write_bytes = (\<lambda>wr bs w. (Inr (of_nat (length bs)), wr @ bs, w)),
     n_close = (\<lambda>_ w. (Inr (), w + 1)),
     n_show = (\<lambda>_. lit ''error''),
     n_show_io = io_message\<rparr>"

definition failover_fs :: "(nat, nat, byte list, byte list, nat) hdfs_fs" where
  "failover_fs = \<lparr>
     heap = \<lparr>fresh = 50, cstrs = Map.empty, entry_arrays = Map.empty, clients = [9 \<mapsto> \<lparr>cl_inner = 0, cl_rt = 1\<rparr>],
       readers = Map.empty, writers = Map.empty, streams = Map.empty, args = Map.empty, statuses = Map.empty,
       infos = Map.empty, counts = Map.empty, bufs = Map.empty, cluster = 1, runtime_slot = Some 1\<rparr>,
     connections = [[] \<mapsto> 9], refs = (\<lambda>p. if p = 9 then 1 else 0)\<rparr>"

lemma failover_fs_ok: "fs_ok {#} failover_fs"
  by (simp add: fs_ok_def heap_ok_def arrays_ok_def cells_ok_def mem_ok_def live_below_def failover_fs_def current_def)

section \<open>Names\<close>

text \<open>
  C17. The operations on names refine their specifications, which speak of the client library
  alone. From every well-formed state, whoever else holds clients, the operation is free of
  undefined behaviour, gives back every cell and message it allocated and every pointer it
  retained, and its result and effect are those of the specification: one call on the client of the
  authority, after one reconnection if the first failed with a connection error, with every failure
  but a missing path of an existence check thrown as an exception with its text.
\<close>

theorem metadata_operations_implement:
  "implements (FileExists N url) (abs_call N url (spec_info N)
      (not_found_or (lit ''Failed to check HDFS file '' @ quote url)) (\<lambda>st. Inr (\<not> fs_isdir st))) \<and>
   implements (DirectoryExists N url) (abs_call N url (spec_info N)
      (not_found_or (lit ''Failed to check HDFS directory '' @ quote url)) (\<lambda>st. Inr (fs_isdir st))) \<and>
   implements (Exists N url) (abs_call N url (spec_info N)
      (not_found_or (lit ''Failed to check HDFS path '' @ quote url)) (\<lambda>st. Inr True)) \<and>
   implements (GetLastModifiedTime from_epoch_ms N url) (abs_call N url (spec_info N)
      (failed_with (lit ''Failed to stat HDFS file '' @ quote url))
      (\<lambda>st. Inr (from_epoch_ms (ucast (fs_modification_time st))))) \<and>
   implements (Stat N url) (abs_call N url (spec_info N)
      (failed_with (lit ''Failed to stat HDFS path '' @ quote url)) (\<lambda>st. Inr (entry_of (fst (ParseHdfsPath url)) st))) \<and>
   implements (CreateDirectory N url) (abs_call N url (spec_mkdirs N)
      (failed_with (lit ''Failed to create HDFS directory '' @ quote url)) Inr) \<and>
   implements (RemoveDirectory N url) (abs_call N url (spec_delete N True)
      (failed_with (lit ''Failed to remove HDFS directory '' @ quote url)) Inr) \<and>
   implements (RemoveFile N url) (abs_call N url (spec_delete N False)
      (failed_with (lit ''Failed to remove HDFS file '' @ quote url)) Inr) \<and>
   implements (MoveFile N url target) (abs_move N url target)"
  by (intro conjI file_exists_implements directory_exists_implements exists_implements last_modified_implements
      stat_implements [unfolded abs_stat_def] create_directory_implements remove_directory_implements
      remove_file_implements move_file_implements)

text \<open>What a stat amounts to: the answer of the client that the authority has in the end.\<close>

lemma attempt_answer:
  assumes "abs_attempt N a (spec_info N p) v = (r, v')"
  shows "case v_clients v' a of
      None \<Rightarrow> \<exists>e. r = Inl e
    | Some c \<Rightarrow> r = Inr (reply N (lit ''stat '' @ quoted p @ lit '' failed'') (get_file_info N c p (v_world v')))"
  using assms by (auto simp: abs_attempt_def abs_get_def spec_info_def split: option.splits sum.splits prod.splits simp del: lit_Cons)

lemma execute_answer:
  assumes "abs_execute N a (spec_info N p) v = (r, v')"
  shows "case v_clients v' a of
      None \<Rightarrow> \<exists>e. r = Inl e
    | Some c \<Rightarrow> r = Inr (reply N (lit ''stat '' @ quoted p @ lit '' failed'') (get_file_info N c p (v_world v')))"
  using assms unfolding abs_execute_def
  by (auto split: sum.splits prod.splits if_splits dest: attempt_answer)

text \<open>The answer that stands behind a check of \<open>url\<close>.\<close>

definition answer ::
  "('w, 'c, 'r, 'o, 't) hdfs_native \<Rightarrow> cpp_string \<Rightarrow> ('w, 'c, 't) fs_view \<Rightarrow> (hdfs_error + FileStatus) option" where
  "answer N url v = map_option (\<lambda>c. get_file_info N c (decode_lossy (c_str (snd (ParseHdfsPath url)))) (v_world v))
     (v_clients v (fst (ParseHdfsPath url)))"

lemma check_answer:
  assumes "abs_call N url (spec_info N) (not_found_or what) (\<lambda>st. Inr (good st)) v = (r, v')"
  shows "r = Inr b \<longleftrightarrow>
    (case answer N url v' of Some (Inr st) \<Rightarrow> b = good st | Some (Inl e) \<Rightarrow> \<not> b \<and> classify e = HDFS_ERR_NOT_FOUND | None \<Rightarrow> False)"
proof -
  obtain a p where p: "ParseHdfsPath url = (a, p)" by force
  obtain q v1 where q: "abs_execute N a (spec_info N (decode_lossy (c_str p))) v = (q, v1)" by force
  have "v1 = v'" using assms q by (auto simp: abs_call_def p split: sum.splits)
  with execute_answer [OF q] assms q show ?thesis
    by (auto simp: abs_call_def p answer_def not_found_or_def failed_with_def reply_def split: option.splits sum.splits if_splits
        simp del: lit_Cons)
qed

lemma implements_at:
  assumes "implements f F" and "fs_ok H s" and "f s = Some (r, s')"
  shows "F (view s) = (r, view s')"
  using assms unfolding implements_on_def by (metis fst_conv option.inject prod.collapse snd_conv)

text \<open>
  C25. A check never guesses. Whenever \<^verbatim>\<open>Exists\<close>, \<^verbatim>\<open>FileExists\<close> or \<^verbatim>\<open>DirectoryExists\<close> return, they
  return \<^verbatim>\<open>false\<close> exactly when the cluster answered that the path is missing, or is there with the
  other type, and \<^verbatim>\<open>true\<close> exactly when it answered with a status of the right type. A permission or
  connection error, or a connection that cannot be made, is an exception and never \<^verbatim>\<open>false\<close>.
\<close>

theorem checks_never_guess:
  assumes "fs_ok H s" and "Exists N url s = Some (r1, s1)" and "FileExists N url s = Some (r2, s2)"
    and "DirectoryExists N url s = Some (r3, s3)"
  shows "(r1 = Inr b \<longleftrightarrow> (case answer N url (view s1) of
           Some (Inr st) \<Rightarrow> b | Some (Inl e) \<Rightarrow> \<not> b \<and> classify e = HDFS_ERR_NOT_FOUND | None \<Rightarrow> False)) \<and>
    (r2 = Inr b \<longleftrightarrow> (case answer N url (view s2) of
           Some (Inr st) \<Rightarrow> b = (\<not> fs_isdir st) | Some (Inl e) \<Rightarrow> \<not> b \<and> classify e = HDFS_ERR_NOT_FOUND | None \<Rightarrow> False)) \<and>
    (r3 = Inr b \<longleftrightarrow> (case answer N url (view s3) of
           Some (Inr st) \<Rightarrow> b = fs_isdir st | Some (Inl e) \<Rightarrow> \<not> b \<and> classify e = HDFS_ERR_NOT_FOUND | None \<Rightarrow> False))"
  using check_answer [OF implements_at [OF exists_implements assms(1,2)], of b]
    check_answer [OF implements_at [OF file_exists_implements assms(1,3)], of b]
    check_answer [OF implements_at [OF directory_exists_implements assms(1,4)], of b]
  by (simp cong: option.case_cong sum.case_cong)

lemma implements_result_of:
  assumes "implements f F" and "fs_ok H s"
  shows "\<exists>s'. f s = Some (fst (F (view s)), s')"
  using assms unfolding implements_on_def by blast

theorem checks_never_guess_witness:
  "\<exists>s1. Exists demo_native (lit ''hdfs://nn/q'') demo_fs = Some (Inr False, s1) \<and>
     (case answer demo_native (lit ''hdfs://nn/q'') (view s1) of
        Some (Inl e) \<Rightarrow> classify e = HDFS_ERR_NOT_FOUND | _ \<Rightarrow> False)"
proof -
  let ?u = "lit ''hdfs://nn/q''"
  have r: "fst (abs_call demo_native ?u (spec_info demo_native) (not_found_or what) good (view demo_fs)) = Inr False"
    for what good by code_simp
  from implements_result_of [OF exists_implements demo_fs_ok, of demo_native ?u]
    implements_result_of [OF file_exists_implements demo_fs_ok, of demo_native ?u]
    implements_result_of [OF directory_exists_implements demo_fs_ok, of demo_native ?u]
  obtain s1 s2 s3 where "Exists demo_native ?u demo_fs = Some (Inr False, s1)"
    "FileExists demo_native ?u demo_fs = Some (Inr False, s2)" "DirectoryExists demo_native ?u demo_fs = Some (Inr False, s3)"
    unfolding r by blast
  with checks_never_guess [OF demo_fs_ok this, of False] show ?thesis
    by (auto split: option.splits sum.splits)
qed

text \<open>
  C26. A stale client is replaced, and once only. When the client of an authority answers a stat with
  a connection error and a new client can be made, the check returns the answer of the new client,
  which is the client of the authority from then on; if that one fails to connect as well, the
  failure is thrown and there is no third attempt. All this from any well-formed state, with the
  stale client possibly held by open files or streams.
\<close>

theorem stale_client_is_replaced:
  fixes s :: "('w, 'c, 'r, 'o, 't) hdfs_fs"
  defines "p \<equiv> \<lambda>url. decode_lossy (c_str (snd (ParseHdfsPath url)))"
  assumes "fs_ok H s" and "v_clients (view s) (fst (ParseHdfsPath url)) = Some stale"
    and "get_file_info N stale (p url) (v_world (view s)) = Inl e" and "classify e = HDFS_ERR_CONNECTION"
    and "connect N (url_text (fst (ParseHdfsPath url))) None None (v_world (view s)) (v_slot (view s)) = (Inr c, slot)"
  shows "\<exists>r s'. FileExists N url s = Some (r, s') \<and> fs_ok H s' \<and> cells s' = cells s \<and>
    v_clients (view s') = (v_clients (view s))(fst (ParseHdfsPath url) \<mapsto> c) \<and>
    r = (case get_file_info N c (p url) (v_world (view s)) of
           Inr st \<Rightarrow> Inr (\<not> fs_isdir st)
         | Inl e \<Rightarrow> if classify e = HDFS_ERR_NOT_FOUND then Inr False
             else Inl (IOException (lit ''Failed to check HDFS file '' @ quote url @ lit '': '' @
               error_text N (lit ''stat '' @ quoted (p url) @ lit '' failed'') e)))"
proof -
  obtain a q where q: "ParseHdfsPath url = (a, q)" by force
  let ?F = "abs_call N url (spec_info N) (not_found_or (lit ''Failed to check HDFS file '' @ quote url)) (\<lambda>st. Inr (\<not> fs_isdir st))"
  from file_exists_implements [of N url, unfolded implements_on_def] assms(2) obtain s' where
    s': "FileExists N url s = Some (fst (?F (view s)), s')" "fs_ok H s'" "view s' = snd (?F (view s))" "cells s' = cells s"
    by blast
  let ?g = "spec_info N (p url)"
  have pq: "decode_lossy (c_str q) = p url" by (simp add: p_def q)
  have one: "abs_attempt N a ?g (view s) =
      (Inr (Inl (HDFS_ERR_CONNECTION, error_text N (lit ''stat '' @ quoted (p url) @ lit '' failed'') e)), view s)"
    using assms(3-5) by (simp add: abs_attempt_def abs_get_def spec_info_def q del: lit_Cons)
  have "abs_execute N a ?g (view s) =
      (Inr (reply N (lit ''stat '' @ quoted (p url) @ lit '' failed'') (get_file_info N c (p url) (v_world (view s)))),
       (view s)\<lparr>v_slot := slot, v_clients := (v_clients (view s))(a \<mapsto> c)\<rparr>)"
    using assms(6) by (simp add: abs_execute_def one del: lit_Cons) (simp add: abs_attempt_def abs_get_def spec_info_def q del: lit_Cons)
  then have "?F (view s) = (case get_file_info N c (p url) (v_world (view s)) of
           Inr st \<Rightarrow> Inr (\<not> fs_isdir st)
         | Inl e \<Rightarrow> if classify e = HDFS_ERR_NOT_FOUND then Inr False
             else Inl (IOException (lit ''Failed to check HDFS file '' @ quote url @ lit '': '' @
               error_text N (lit ''stat '' @ quoted (p url) @ lit '' failed'') e)),
       (view s)\<lparr>v_slot := slot, v_clients := (v_clients (view s))(a \<mapsto> c)\<rparr>)"
    by (simp add: abs_call_def q pq not_found_or_def failed_with_def del: lit_Cons split: sum.split)
  with s' q show ?thesis by simp
qed

theorem stale_client_is_replaced_witness:
  "\<exists>s'. FileExists failover_native (lit ''/d'') failover_fs = Some (Inr False, s') \<and>
     v_clients (view s') [] = Some \<lparr>cl_inner = 1, cl_rt = 1\<rparr>"
proof -
  let ?u = "lit ''/d''"
  have u: "ParseHdfsPath ?u = ([], ?u)" by code_simp
  have p: "decode_lossy (c_str (snd (ParseHdfsPath ?u))) = lit ''/d''" by code_simp
  have "v_clients (view failover_fs) (fst (ParseHdfsPath ?u)) = Some \<lparr>cl_inner = 0, cl_rt = 1\<rparr>"
    by (simp add: u failover_fs_def del: lit_Cons)
  moreover have "get_file_info failover_native \<lparr>cl_inner = 0, cl_rt = 1\<rparr> (decode_lossy (c_str (snd (ParseHdfsPath ?u))))
      (v_world (view failover_fs)) = Inl (IOError (IoError KConnectionReset []))"
    by (simp add: get_file_info_def failover_native_def)
  moreover have "classify (IOError (IoError KConnectionReset [])) = HDFS_ERR_CONNECTION" by (simp add: classify_io_def)
  moreover have "connect failover_native (url_text (fst (ParseHdfsPath ?u))) None None (v_world (view failover_fs))
      (v_slot (view failover_fs)) = (Inr \<lparr>cl_inner = 1, cl_rt = 1\<rparr>, Some 1)"
    by (simp add: connect_def shared_runtime_def failover_native_def failover_fs_def Let_def split: option.split)
  note facts = calculation this
  have info: "get_file_info failover_native \<lparr>cl_inner = 1, cl_rt = 1\<rparr> (lit ''/d'') w = Inr (demo_entry ''/d'' True)" for w
    by (simp add: get_file_info_def failover_native_def demo_info_def)
  have dir: "fs_isdir (demo_entry ''/d'' True) = True" by (simp add: demo_entry_def)
  from stale_client_is_replaced [OF failover_fs_ok, of ?u "\<lparr>cl_inner = 0, cl_rt = 1\<rparr>" failover_native, OF facts]
  obtain r s' where r: "FileExists failover_native ?u failover_fs = Some (r, s')"
    "v_clients (view s') = (v_clients (view failover_fs))([] \<mapsto> \<lparr>cl_inner = 1, cl_rt = 1\<rparr>)" "r = Inr (\<not> True)"
    unfolding p info dir sum.case unfolding u fst_conv by blast
  from r(2) have "v_clients (view s') [] = Some \<lparr>cl_inner = 1, cl_rt = 1\<rparr>" by (rule fun_cong [THEN trans]) (rule fun_upd_same)
  with r(1,3) show ?thesis by simp
qed

section \<open>Files\<close>

text \<open>What a successful opening gives, for either mode.\<close>

lemma open_success:
  fixes s :: "('w, 'c, 'r, 'o, 't) hdfs_fs"
  assumes "fs_ok H s" and "OpenFile N path flags s = Some (Inr (Some h), s1)"
  shows "fs_ok (add_mset (h_client h) H) s1" "h_position h = 0"
    "(\<exists>rd p client. \<not> OpenForWriting flags \<and> reader_added rd p (cells s) (cells s1) \<and> h = reading_handle N path rd p client) \<or>
     (\<exists>wr p client. OpenForWriting flags \<and> writer_added wr p (cells s) (cells s1) \<and> h = writing_handle path wr p client)"
proof -
  obtain a p where p: "ParseHdfsPath path = (a, p)" by force
  have "fs_ok (held_after H (Inr (Some h))) s1 \<and>
    ((\<exists>rd p client. \<not> OpenForWriting flags \<and> reader_added rd p (cells s) (cells s1) \<and> h = reading_handle N path rd p client) \<or>
     (\<exists>wr p client. OpenForWriting flags \<and> writer_added wr p (cells s) (cells s1) \<and> h = writing_handle path wr p client))"
  proof (cases "OpenForWriting flags")
    case False
    obtain r v where r: "abs_execute N a (spec_open N (decode_lossy (c_str p))) (view s) = (r, v)" by force
    from open_for_reading_ok [OF assms(1) False p r] assms(2)
    have "fs_ok (held_after H (Inr (Some h))) s1"
      "opened (missing_or (ReturnNullIfNotExists flags) path) (reading_handle N path) reader_added r (Inr (Some h)) (cells s) (cells s1)"
      by (simp_all del: lit_Cons)
    with False show ?thesis
      by (auto simp: opened_def missing_or_def failed_with_def split: sum.splits if_splits simp del: lit_Cons)
  next
    case True
    obtain r v where r: "abs_execute N a (spec_create N (OverwriteExistingFile flags) (decode_lossy (c_str p))) (view s) = (r, v)"
      by force
    from open_for_writing_ok [OF assms(1) True p r] assms(2)
    have "fs_ok (held_after H (Inr (Some h))) s1"
      "opened (failed_with (lit ''Failed to open HDFS file for writing '' @ quote path)) (writing_handle path) writer_added r
        (Inr (Some h)) (cells s) (cells s1)"
      by (simp_all del: lit_Cons)
    with True show ?thesis
      by (auto simp: opened_def failed_with_def split: sum.splits simp del: lit_Cons)
  qed
  then show "fs_ok (add_mset (h_client h) H) s1"
    "(\<exists>rd p client. \<not> OpenForWriting flags \<and> reader_added rd p (cells s) (cells s1) \<and> h = reading_handle N path rd p client) \<or>
     (\<exists>wr p client. OpenForWriting flags \<and> writer_added wr p (cells s) (cells s1) \<and> h = writing_handle path wr p client)"
    by (simp_all add: held_after_def)
  then show "h_position h = 0" by (auto simp: reading_handle_def writing_handle_def)
qed

text \<open>
  C18. The life of an open file. After an opening that returns a handle, any sequence of reads,
  positional reads, writes, seeks and closes with sizes within the caller's buffers is free of
  undefined behaviour, whether or not the calls fail, and the client the file was opened on stays
  alive throughout, whatever becomes of the connection; the destructor of the handle then leaves
  everything as it was before the opening, but for the contents of the caller's buffers: nothing
  leaks and nothing is freed twice, with or without an explicit close.
\<close>

theorem file_life:
  fixes s :: "('w, 'c, 'r, 'o, 't) hdfs_fs"
  assumes "keeps_length N" and "fs_ok H s" and "OpenFile N path flags s = Some (Inr (Some h), s1)"
    and "\<forall>x \<in> set xs. sized (cells s) x"
  shows "\<exists>h' s2 s3. uses N xs h s1 = Some (h', s2) \<and> clients (heap s2) (h_client h) \<noteq> None \<and>
    end_handle N h' s2 = Some s3 \<and> fs_ok H s3 \<and> cells s3 = (cells s)\<lparr>bufs := bufs (cells s3)\<rparr>"
proof -
  note opened = open_success [OF assms(2,3)]
  have own: "owns h (cells s) (cells s1)"
    using opened(3) opened_owns [OF assms(2)] by blast
  have "sized (cells s1) x" if "x \<in> set xs" for x
    using sized_cong [of "cells s1" "cells s" x] ownsD(4) [OF own] assms(4) that by blast
  with uses_safe [OF assms(1) opened(1) own] obtain h' s2 where
    s2: "uses N xs h s1 = Some (h', s2)" "fs_ok (add_mset (h_client h) H) s2" "owns h' (cells s) (cells s2)"
      "h_client h' = h_client h" by blast
  from end_handle_ok [of h' H s2 "cells s" N] s2 obtain s3 where
    "end_handle N h' s2 = Some s3" "fs_ok H s3" "cells s3 = (cells s)\<lparr>bufs := bufs (cells s3)\<rparr>" by auto
  with s2 fs_ok_held(2) [OF s2(2)] show ?thesis by blast
qed

lemma demo_keeps_length: "keeps_length demo_native"
  by (simp add: keeps_length_def demo_native_def)

lemma opens_for_reading:
  fixes s :: "('w, 'c, 'r, 'o, 't) hdfs_fs"
  assumes "fs_ok H s" and "\<not> OpenForWriting flags" and "ParseHdfsPath path = (a, p)"
    and "fst (abs_execute N a (spec_open N (decode_lossy (c_str p))) (view s)) = Inr (Inr rd)"
  shows "\<exists>q client s1. OpenFile N path flags s = Some (Inr (Some (reading_handle N path rd q client)), s1) \<and>
    cells s1 = (cells s)\<lparr>readers := (readers (cells s))(q \<mapsto> rd)\<rparr>"
proof -
  obtain v where "abs_execute N a (spec_open N (decode_lossy (c_str p))) (view s) = (Inr (Inr rd), v)"
    using assms(4) by (metis prod.collapse)
  from open_for_reading_ok [OF assms(1-3) this] show ?thesis
    unfolding opened_def sum.case reader_added_def by blast
qed

abbreviation demo_flags where
  "demo_flags \<equiv> \<lparr>OpenForWriting = False, OverwriteExistingFile = False, ReturnNullIfNotExists = False\<rparr>"

lemma demo_opens:
  "\<exists>h q s1. OpenFile demo_native (lit ''/d/x'') demo_flags demo_fs = Some (Inr (Some h), s1) \<and> h_reader h = q \<and>
     cells s1 = (cells demo_fs)\<lparr>readers := (readers (cells demo_fs))(q \<mapsto> \<lparr>rd_inner = [7, 8, 9], rd_rt = 1\<rparr>)\<rparr>"
proof -
  have path: "ParseHdfsPath (lit ''/d/x'') = ([], lit ''/d/x'')" by code_simp
  have "fst (abs_execute demo_native [] (spec_open demo_native (decode_lossy (c_str (lit ''/d/x'')))) (view demo_fs)) =
      Inr (Inr \<lparr>rd_inner = [7, 8, 9], rd_rt = 1\<rparr>)" by code_simp
  from opens_for_reading [OF demo_fs_ok _ path this, of demo_flags] obtain q client s1 where
    "OpenFile demo_native (lit ''/d/x'') demo_flags demo_fs =
       Some (Inr (Some (reading_handle demo_native (lit ''/d/x'') \<lparr>rd_inner = [7, 8, 9], rd_rt = 1\<rparr> q client)), s1)"
    "cells s1 = (cells demo_fs)\<lparr>readers := (readers (cells demo_fs))(q \<mapsto> \<lparr>rd_inner = [7, 8, 9], rd_rt = 1\<rparr>)\<rparr>"
    by auto
  then show ?thesis by (auto simp: reading_handle_def simp del: lit_Cons)
qed

theorem file_life_witness:
  "\<exists>h s1 h' s2 s3. OpenFile demo_native (lit ''/d/x'') demo_flags demo_fs = Some (Inr (Some h), s1) \<and>
     uses demo_native [OpRead 6 2, OpSeek 9, OpReadAt 6 2 2, OpClose, OpRead 6 1] h s1 = Some (h', s2) \<and>
     end_handle demo_native h' s2 = Some s3 \<and> fs_ok {#} s3"
proof -
  have "bufs (cells demo_fs) 6 = Some [0, 0, 0, 0]" by (simp add: demo_fs_def new_fs_def)
  then have "\<forall>x \<in> set [OpRead 6 2, OpSeek 9, OpReadAt 6 2 2, OpClose, OpRead 6 1]. sized (cells demo_fs) x" by simp
  with demo_opens file_life [OF demo_keeps_length demo_fs_ok] show ?thesis by blast
qed

text \<open>
  C24. Streaming reads deliver the file. Reads of any sizes from any position of a file opened for
  reading return its bytes from there on, in order and without a gap or a repetition, cut off at
  the end of the file; then the cursor is where the bytes ended. The client library is taken at its
  word: a read inside the file fills the buffer with the bytes at the offset.
\<close>

theorem streaming_reads_deliver_the_file:
  fixes s :: "('w, 'c, 'r, 'o, 't) hdfs_fs"
  assumes "fs_ok H s" and "OpenFile N path flags s = Some (Inr (Some h), s1)" and "\<not> OpenForWriting flags"
    and bytes: "\<forall>rd. readers (heap s1) (h_reader h) = Some rd \<longrightarrow>
      reads_file N (rd_inner rd) data (cluster (heap s1)) \<and> file_length N rd = of_nat (length data)"
    and "length data < 2 ^ 63" and "bufs (heap s1) buf = Some bs"
    and "\<forall>n \<in> set ns. 0 \<le> sint n \<and> unat n \<le> length bs"
  shows "\<exists>h' s2. read_chunks N (Seek h loc) buf ns s1 =
      Some (Inr (take (sum_list (map unat ns)) (drop (unat loc) data)), h', s2) \<and>
    fs_ok (add_mset (h_client h) H) s2 \<and>
    unat (SeekPosition h') = unat loc + min (sum_list (map unat ns)) (length data - unat loc)"
proof -
  note opened = open_success [OF assms(1,2)]
  from opened(3) assms(3) obtain rd p client where
    h: "reader_added rd p (cells s) (cells s1)" "h = reading_handle N path rd p client" by blast
  have "cells s1 = (cells s)\<lparr>readers := (readers (cells s))(p \<mapsto> rd)\<rparr>" and p: "p \<noteq> null"
    using h(1) unfolding reader_added_def by blast+
  from arg_cong [OF this(1), of readers] have rd: "readers (heap s1) p = Some rd" by simp
  have size: "unat (h_length h) = length data"
    using bytes rd p assms(5) small_word [OF assms(5)] by (simp add: h(2) reading_handle_def file_size_def)
  have "reading N data (Seek h loc) buf (length bs) s1"
    using bytes rd p size assms(5,6) by (simp add: reading_def h(2) reading_handle_def Seek_def)
  from read_chunks_ok [OF opened(1) this assms(7)] show ?thesis
    by (auto simp: Seek_def SeekPosition_def)
qed

theorem streaming_reads_deliver_the_file_witness:
  "\<exists>h s1 h' s2. OpenFile demo_native (lit ''/d/x'') demo_flags demo_fs = Some (Inr (Some h), s1) \<and>
     read_chunks demo_native (Seek h 1) 6 [1, 4] s1 = Some (Inr [8, 9], h', s2) \<and> unat (SeekPosition h') = 3"
proof -
  let ?rd = "\<lparr>rd_inner = [7, 8, 9], rd_rt = 1 :: nat\<rparr>"
  from demo_opens obtain h q s1 where o: "OpenFile demo_native (lit ''/d/x'') demo_flags demo_fs = Some (Inr (Some h), s1)"
    "h_reader h = q" and c: "cells s1 = (cells demo_fs)\<lparr>readers := (readers (cells demo_fs))(q \<mapsto> ?rd)\<rparr>" by blast
  have "readers (heap s1) (h_reader h) = Some ?rd" "bufs (heap s1) 6 = Some [0, 0, 0, 0]"
    using arg_cong [OF c, of readers] arg_cong [OF c, of bufs] o(2) by (simp_all add: demo_fs_def new_fs_def)
  moreover have "reads_file demo_native (rd_inner ?rd) [7, 8, 9] w" "file_length demo_native ?rd = of_nat (length [7, 8, 9 :: byte])" for w
    by (simp_all add: reads_file_def demo_native_def file_length_def)
  ultimately show ?thesis
    using streaming_reads_deliver_the_file [OF demo_fs_ok o(1), of "[7, 8, 9]" 6 "[0, 0, 0, 0]" "[1, 4]" 1] o(1) by auto
qed

text \<open>
  A negative size is not an empty read: added to the cursor as an unsigned number it passes the test
  against the length and becomes a read of the whole rest of the file, which overruns a buffer that
  is smaller.
\<close>

lemma negative_read_overruns:
  fixes s :: "('w, 'c, 'r, 'o, 't) hdfs_fs"
  assumes "fs_ok H s" and "reading N data h buf cap s" and "sint nr < 0" and "int (unat (h_position h)) < - sint nr"
    and "unat (h_position h) < length data" and "cap < length data - unat (h_position h)"
  shows "Read N h buf nr s = None"
proof -
  from assms(2) obtain rd bs where h: "h_reader h \<noteq> null" "length data < 2 ^ 63" "unat (h_length h) = length data"
    and rd: "readers (heap s) (h_reader h) = Some rd" and bs: "bufs (heap s) buf = Some bs" "length bs = cap"
    unfolding reading_def by auto
  let ?k = "h_length h - h_position h"
  have le: "h_position h \<le> h_length h" using assms(5) h(3) by (simp add: word_le_nat_alt)
  have k: "unat ?k = length data - unat (h_position h)" using unat_sub [OF le] h(3) by simp
  then have "unat ?k < 2 ^ 63" using h(2) by simp
  from small_word [OF this] have "sint ?k = int (unat ?k)" by simp
  with k have sk: "sint ?k = int (length data - unat (h_position h))" by simp
  have "uint nr = (sint nr + 2 ^ 64) mod 2 ^ 64"
    by (simp add: uint_sint take_bit_eq_mod)
  moreover have low: "- (2 ^ 63) \<le> sint nr" using sint_ge [of nr] by simp
  then have "(sint nr + 2 ^ 64) mod 2 ^ 64 = sint nr + 2 ^ 64"
    using assms(3) by (intro mod_pos_pos_trivial) simp_all
  ultimately have nr: "int (unat nr) = sint nr + 2 ^ 64" by (simp only: uint_nat [symmetric])
  then have "int (unat (h_position h) + unat nr) < int (2 ^ 64)" "int (2 ^ 63) \<le> int (unat nr)"
    using assms(4) low by simp_all
  then have sum: "unat (h_position h) + unat nr < 2 ^ 64" "2 ^ 63 \<le> unat nr"
    unfolding of_nat_less_iff of_nat_le_iff by blast+
  then have "unat (h_position h + nr) = unat (h_position h) + unat nr" by (simp add: unat_plus_if')
  then have more: "h_position h + nr > h_length h" using sum(2) h(2,3) by (simp add: word_less_nat_alt)
  have "\<not> h_position h \<ge> h_length h" using assms(5) h(3) by (simp add: word_le_nat_alt)
  moreover have pos: "0 < sint ?k" unfolding sk using assms(5) by (simp only: of_nat_0_less_iff zero_less_diff)
  moreover have "ReadAt N h buf ?k (h_position h) s = None"
  proof -
    have "hdfs_bridge_read_range N (h_reader h) buf ?k (h_position h) st m = None"
      if "readers m = readers (heap s)" "bufs m = bufs (heap s)" for st and m :: "('w, 'c, 'r, 'o, 't) mem"
      using that rd bs assms(6) k pos by (simp add: hdfs_bridge_read_range_def)
    moreover have "?k \<noteq> 0" using pos by auto
    ultimately show ?thesis using h(1) le
      by (simp add: ReadAt_def with_status_def new_status_def cast_same del: lit_Cons cong: if_cong)
  qed
  ultimately show ?thesis using more by (simp add: Read_plain)
qed

end
