(* ===== verification/Hdfs_Globs.thy ===== *)
theory Hdfs_Globs
  imports Hdfs_Listing Hdfs_Results
begin

text \<open>
  What DuckDB gets from a listing or a glob of the filesystem: \<^verbatim>\<open>Glob\<close> and \<^verbatim>\<open>ListFilesExtended\<close>
  against their specifications, the life of a stream, and a listing from the answer of the cluster
  to the calls of the callback.
\<close>

section \<open>Refinement\<close>

lemma listings_implement_glob:
  fixes s :: "('w, 'c, 'r, 'o, 't) hdfs_fs"
  assumes "fs_ok H s" and "fst (snd (hd ts)) = again"
    and "abs_listing N timing again (new_stream True path (list_parallelism (hdfs_list_parallelism cfg)) (glob_options cfg)) (view s) =
      ((r, es), v)" and "length es < length ts"
  shows "\<exists>s'. Glob from_epoch_ms N vsize timing ts cfg path s =
      Some (Some (map_sum id (\<lambda>_. map (\<lambda>e. MakeExtendedInfo from_epoch_ms (e_url e) e) (filter (\<lambda>e. \<not> e_is_dir e) es)) r), s') \<and>
    fs_ok H s' \<and> view s' = v \<and> cells s' = cells s"
  using listing_ok [OF assms(1,3,4,2), of vsize]
  by (elim exE) (auto simp: Glob_def OpenGlobStream_def Let_def split: bind_splits)

lemma listings_implement_files:
  fixes s :: "('w, 'c, 'r, 'o, 't) hdfs_fs"
  assumes "fs_ok H s" and "fst (snd (hd ts)) = again"
    and "abs_listing N timing again (new_stream False path 1 \<lparr>o_skip_permission_errors = False, o_include_hidden = True\<rparr>) (view s) =
      ((r, es), v)" and "length es < length ts"
  shows "\<exists>s'. ListFilesExtended from_epoch_ms N vsize timing ts path s =
      Some ((Some (map_sum id (\<lambda>_. es \<noteq> []) r), map (\<lambda>e. MakeExtendedInfo from_epoch_ms (e_name e) e) es), s') \<and>
    fs_ok H s' \<and> view s' = v \<and> cells s' = cells s"
  using listing_ok [OF assms(1,3,4,2), of vsize]
  by (elim exE) (auto simp: ListFilesExtended_def OpenListStream_def default_options_def Let_def split: bind_splits)

text \<open>
  C4. \<^verbatim>\<open>Glob\<close> and \<^verbatim>\<open>ListFilesExtended\<close> refine the specification of a listing, which speaks of one
  walk and of a second one on a new client, if the first ended with a connection error before its
  first entry. From every well-formed state and for all schedules, timings and vector sizes: no
  undefined behaviour, the result is that of the specification (a glob keeps the files only and
  names them by URL, a listing hands out every entry by its bare name, also before an exception),
  and every walk, client, batch and message is given back.
\<close>

theorem listings_implement:
  fixes s :: "('w, 'c, 'r, 'o, 't) hdfs_fs"
  assumes "fs_ok H s" and "fst (snd (hd ts)) = again"
  shows "(\<forall>r es v. abs_listing N timing again (new_stream True path (list_parallelism (hdfs_list_parallelism cfg)) (glob_options cfg)) (view s) =
      ((r, es), v) \<and> length es < length ts \<longrightarrow>
      (\<exists>s'. Glob from_epoch_ms N vsize timing ts cfg path s =
          Some (Some (map_sum id (\<lambda>_. map (\<lambda>e. MakeExtendedInfo from_epoch_ms (e_url e) e) (filter (\<lambda>e. \<not> e_is_dir e) es)) r), s') \<and>
        fs_ok H s' \<and> view s' = v \<and> cells s' = cells s)) \<and>
    (\<forall>r es v. abs_listing N timing again (new_stream False path 1 \<lparr>o_skip_permission_errors = False, o_include_hidden = True\<rparr>) (view s) =
      ((r, es), v) \<and> length es < length ts \<longrightarrow>
      (\<exists>s'. ListFilesExtended from_epoch_ms N vsize timing ts path s =
          Some ((Some (map_sum id (\<lambda>_. es \<noteq> []) r), map (\<lambda>e. MakeExtendedInfo from_epoch_ms (e_name e) e) es), s') \<and>
        fs_ok H s' \<and> view s' = v \<and> cells s' = cells s))"
  using listings_implement_glob [OF assms] listings_implement_files [OF assms] by blast

text \<open>The matches of a pattern below \<^verbatim>\<open>/d\<close>, and its listing.\<close>

lemma demo_listing_glob:
  "fst (abs_listing demo_native ([], [0, 0]) ([], []) (new_stream True (lit ''/d/*'') 16 default_options) (view demo_fs)) =
     (Inr (), [entry_of [] (demo_entry ''/d/x'' False), entry_of [] (demo_entry ''/d/s'' True)])"
  by code_simp

lemma demo_listing_files:
  "fst (abs_listing demo_native ([], [0, 0]) ([], [])
      (new_stream False (lit ''/d'') 1 \<lparr>o_skip_permission_errors = False, o_include_hidden = True\<rparr>) (view demo_fs)) =
     (Inr (), map (entry_of []) [demo_entry ''/d/x'' False, demo_entry ''/d/_h'' False, demo_entry ''/d/s'' True])"
  by code_simp

abbreviation demo_settings where
  "demo_settings \<equiv> \<lparr>hdfs_list_parallelism = None, hdfs_skip_permission_errors = None, hdfs_include_hidden = None\<rparr>"

abbreviation demo_calls where
  "demo_calls \<equiv> replicate 4 (0, ([], []), 0)"

theorem listings_implement_witness:
  "(\<exists>s'. Glob id demo_native 2 ([], [0, 0]) demo_calls demo_settings (lit ''/d/*'') demo_fs =
      Some (Some (Inr [MakeExtendedInfo id (lit ''hdfs:///d/x'') (entry_of [] (demo_entry ''/d/x'' False))]), s') \<and> fs_ok {#} s') \<and>
   (\<exists>s'. ListFilesExtended id demo_native 2 ([], [0, 0]) demo_calls (lit ''/d'') demo_fs =
      Some ((Some (Inr True), map (\<lambda>e. MakeExtendedInfo id (e_name e) e)
        (map (entry_of []) [demo_entry ''/d/x'' False, demo_entry ''/d/_h'' False, demo_entry ''/d/s'' True])), s') \<and> fs_ok {#} s')"
proof -
  note run = listings_implement [OF demo_fs_ok, of demo_calls "([], [])" demo_native "([], [0, 0])" "lit ''/d/*''" demo_settings id 2]
    listings_implement [OF demo_fs_ok, of demo_calls "([], [])" demo_native "([], [0, 0])" "lit ''/d''" demo_settings id 2]
  have cfg: "list_parallelism (hdfs_list_parallelism demo_settings) = 16" "glob_options demo_settings = default_options"
    by (simp_all add: list_parallelism_def DEFAULT_HDFS_LIST_PARALLELISM_def glob_options_def)
  obtain v1 where v1: "abs_listing demo_native ([], [0, 0]) ([], []) (new_stream True (lit ''/d/*'') 16 default_options) (view demo_fs) =
     ((Inr (), [entry_of [] (demo_entry ''/d/x'' False), entry_of [] (demo_entry ''/d/s'' True)]), v1)"
    using demo_listing_glob by (metis prod.collapse)
  obtain v2 where v2: "abs_listing demo_native ([], [0, 0]) ([], [])
      (new_stream False (lit ''/d'') 1 \<lparr>o_skip_permission_errors = False, o_include_hidden = True\<rparr>) (view demo_fs) =
     ((Inr (), map (entry_of []) [demo_entry ''/d/x'' False, demo_entry ''/d/_h'' False, demo_entry ''/d/s'' True]), v2)"
    using demo_listing_files by (metis prod.collapse)
  have urls: "e_is_dir (entry_of [] (demo_entry ''/d/x'' False)) = False" "e_is_dir (entry_of [] (demo_entry ''/d/s'' True)) = True"
    "e_url (entry_of [] (demo_entry ''/d/x'' False)) = lit ''hdfs:///d/x''"
    by code_simp+
  from run(1) v1 run(2) v2 show ?thesis unfolding cfg by (auto simp: urls simp del: lit_Cons)
qed

section \<open>The life of a stream\<close>

text \<open>
  C19. The life of a stream. An opening that fails leaves nothing behind. After one that succeeds,
  calls of \<^verbatim>\<open>Next\<close> with any sizes, also those after an exception, are free of undefined behaviour,
  whatever the walk, the retry and the connection do in between, with one exception: once the retry
  has failed to open a second walk and \<^verbatim>\<open>Next\<close> has thrown that, the stream has no handle, and calling
  \<^verbatim>\<open>Next\<close> again is undefined. A batch is empty exactly at the end and holds no more entries than asked
  for; and after any of the calls, also that one, the destructor leaves all memory as it was before the
  opening.
\<close>

theorem stream_life:
  fixes s :: "('w, 'c, 'r, 'o, 't) hdfs_fs"
  assumes "fs_ok H s"
  shows "\<exists>x s1. open_stream N glob timing url max_parallelism options s = Some (x, s1) \<and>
    (case x of
       Inl e \<Rightarrow> fs_ok H s1 \<and> cells s1 = cells s
     | Inr h \<Rightarrow> \<forall>calls. \<exists>made rest rs h' s2 s3. calls = made @ rest \<and>
         call_next N made h s1 = Some (rs, h', s2) \<and> length rs = length made \<and>
         (\<forall>((n, t), r) \<in> set (zip made rs). in_bounds n r) \<and>
         end_stream h' s2 = Some s3 \<and> fs_ok H s3 \<and> cells s3 = cells s \<and>
         (rest = [] \<or> ls_retried h' \<and> ls_handle h' = null \<and> rs \<noteq> [] \<and> isl (last rs) \<and> (\<forall>n t. Next N n t h' s2 = None)))"
proof -
  obtain r v where r: "abs_open N timing (new_stream glob url max_parallelism options) (view s) = (r, v)" by (metis surj_pair)
  from open_stream_ok [OF assms r] obtain x s1 where x: "open_stream N glob timing url max_parallelism options s = Some (x, s1)"
    and case_r: "case r of
       Inl e \<Rightarrow> x = Inl e \<and> fs_ok H s1 \<and> cells s1 = cells s
     | Inr b \<Rightarrow> \<exists>h. x = Inr h \<and> stream_ok h (Some b) (cells s) H s1 \<and> connections s1 (ls_authority h) = Some (ls_client h) \<and>
         h = (new_stream glob url max_parallelism options)\<lparr>ls_client := ls_client h, ls_handle := ls_handle h\<rparr>" by blast
  show ?thesis
  proof (cases r)
    case (Inl e)
    with x case_r show ?thesis by simp
  next
    case (Inr b)
    with case_r obtain h where h: "x = Inr h" "stream_ok h (Some b) (cells s) H s1" by auto
    have "\<exists>made rest rs h' s2 s3. calls = made @ rest \<and> call_next N made h s1 = Some (rs, h', s2) \<and> length rs = length made \<and>
         (\<forall>((n, t), r) \<in> set (zip made rs). in_bounds n r) \<and> end_stream h' s2 = Some s3 \<and> fs_ok H s3 \<and> cells s3 = cells s \<and>
         (rest = [] \<or> ls_retried h' \<and> ls_handle h' = null \<and> rs \<noteq> [] \<and> isl (last rs) \<and> (\<forall>n t. Next N n t h' s2 = None))" for calls
    proof -
      from call_next_safe [OF h(2), of calls N] obtain made rest rs h' os s2 where s2: "calls = made @ rest"
        "call_next N made h s1 = Some (rs, h', s2)" "stream_ok h' os (cells s) H s2" "length rs = length made"
        "\<forall>((n, t), r) \<in> set (zip made rs). in_bounds n r"
        "rest \<noteq> [] \<longrightarrow> os = None \<and> ls_retried h' \<and> rs \<noteq> [] \<and> isl (last rs)"
        by (elim exE conjE)
      have "rest = [] \<or> ls_retried h' \<and> ls_handle h' = null \<and> rs \<noteq> [] \<and> isl (last rs) \<and> (\<forall>n t. Next N n t h' s2 = None)"
        using s2(3,6) Next_without_walk by blast
      with end_stream_ok [OF s2(3)] s2(1,2,4,5) show ?thesis by blast
    qed
    with x h(1) show ?thesis by simp
  qed
qed

theorem stream_life_witness:
  "\<exists>h s1 made rest rs h' s2 s3. open_stream demo_native True ([], [0, 0]) (lit ''/d/*'') 16 default_options demo_fs = Some (Inr h, s1) \<and>
     [(1, (0, ([], []), 0)), (5, (0, ([], []), 0)), (1, (0, ([], []), 0))] = made @ rest \<and>
     call_next demo_native made h s1 = Some (rs, h', s2) \<and> end_stream h' s2 = Some s3 \<and> fs_ok {#} s3"
proof -
  have "\<not> isl (fst (abs_open demo_native ([], [0, 0]) (new_stream True (lit ''/d/*'') 16 default_options) (view demo_fs)))"
    by code_simp
  then obtain b v where "abs_open demo_native ([], [0, 0]) (new_stream True (lit ''/d/*'') 16 default_options) (view demo_fs) = (Inr b, v)"
    by (cases "abs_open demo_native ([], [0, 0]) (new_stream True (lit ''/d/*'') 16 default_options) (view demo_fs)"; case_tac a; simp)
  from open_stream_ok [OF demo_fs_ok this] obtain h s1 where
    h: "open_stream demo_native True ([], [0, 0]) (lit ''/d/*'') 16 default_options demo_fs = Some (Inr h, s1)" by auto
  let ?calls = "[(1, (0, ([], []), 0)), (5, (0, ([], []), 0)), (1, (0, ([], []), 0))] :: (u64 \<times> next_timing) list"
  note life = stream_life [OF demo_fs_ok, of demo_native True "([], [0, 0])" "lit ''/d/*''" 16 default_options, unfolded h]
  then obtain made rest rs h' s2 s3 where "?calls = made @ rest" "call_next demo_native made h s1 = Some (rs, h', s2)"
    "end_stream h' s2 = Some s3" "fs_ok {#} s3"
    unfolding option.inject prod.inject by (elim exE conjE) (hypsubst, unfold sum.case, erule allE [of _ ?calls], elim exE conjE, assumption)
  with h show ?thesis by blast
qed

text \<open>A directory whose listing loses the connection, on a cluster that cannot be reached a second time.\<close>

definition lost_native :: "(nat, nat, byte list, byte list, nat) hdfs_native" where
  "lost_native = failover_native\<lparr>n_build := (\<lambda>_ _ _. Inl (OtherError []))\<rparr>"

lemma reopening_can_fail:
  "\<exists>h s1 e h' s'. open_stream lost_native False ([], [0, 0]) (lit ''/d'') 1 default_options failover_fs = Some (Inr h, s1) \<and>
     Next lost_native 5 (0, ([], [0, 0]), 0) h s1 = Some (Inl e, h', s') \<and> (\<forall>n t. Next lost_native n t h' s' = None)"
proof -
  let ?h0 = "new_stream False (lit ''/d'') 1 default_options" and ?t = "([], [0, 0]) :: walk_timing"
  have known: "v_clients (view failover_fs) (ls_authority ?h0) = Some \<lparr>cl_inner = 0, cl_rt = 1\<rparr>" "v_world (view failover_fs) = 1"
    by code_simp+
  let ?e = "IOError (IoError KConnectionReset [])"
  let ?b = "\<lparr>rx = [Inl ?e], task = Some None, stream_path = lit ''/d'', pending_error = None\<rparr>"
  have b: "walk_of lost_native ?h0 \<lparr>cl_inner = 0, cl_rt = 1\<rparr> 1 ?t = Inr ?b" by code_simp
  have "abs_open lost_native ?t ?h0 (view failover_fs) = (Inr ?b, view failover_fs)"
    using known b by (simp add: abs_open_def abs_get_def)
  from open_stream_ok [OF failover_fs_ok this] obtain h s1 where
    h: "open_stream lost_native False ?t (lit ''/d'') 1 default_options failover_fs = Some (Inr h, s1)" "view s1 = view failover_fs"
    "stream_ok h (Some ?b) (cells failover_fs) {#} s1" "connections s1 (ls_authority h) = Some (ls_client h)"
    "h = ?h0\<lparr>ls_client := ls_client h, ls_handle := ls_handle h\<rparr>" by auto
  have "ls_emitted_any ?h0 = False" "ls_retried ?h0 = False" by code_simp+
  then have new: "\<not> ls_emitted_any h" "\<not> ls_retried h" using arg_cong [OF h(5), of ls_emitted_any] arg_cong [OF h(5), of ls_retried] by simp_all
  have turn: "next_batch (at_least_1 (ucast (5 :: u64))) 0 ?b = (Inl ?e, ?b\<lparr>rx := []\<rparr>)" "classify ?e = HDFS_ERR_CONNECTION"
    by code_simp+
  obtain e slot where "connect lost_native (url_text (ls_authority h)) None None 1 (Some 1) = (Inl e, slot)"
    by (auto simp: connect_def shared_runtime_def lost_native_def failover_native_def Let_def split: option.split)
  then obtain x v where "abs_open lost_native ([], [0, 0]) h ((view s1)\<lparr>v_clients := (v_clients (view s1))(ls_authority h := None)\<rparr>) = (Inl x, v)"
    unfolding h(2) by (simp add: abs_open_def abs_get_def view_def failover_fs_def)
  then have "abs_open lost_native ([], [0, 0]) h (if connections s1 (ls_authority h) = Some (ls_client h)
      then (view s1)\<lparr>v_clients := (v_clients (view s1))(ls_authority h := None)\<rparr> else view s1) = (Inl x, v)" using h(4) by simp
  from failed_reopening_strands [OF h(3) turn new this] h(1) show ?thesis by blast
qed

section \<open>Listings that end well\<close>

lemma completed_walk:
  assumes "well_sent t" and "status t = Completed"
  shows "entries_of (stream_of t died path) = oks (sent t)" "ending (stream_of t died path) = None"
proof -
  obtain xs where "sent t = map Inr xs" using assms by (auto simp: well_sent_def)
  moreover have split: "takeWhile (\<lambda>m. \<not> isl m) (map Inr xs) = (map Inr xs :: (hdfs_error + FileStatus) list)"
    "dropWhile (\<lambda>m. \<not> isl m) (map Inr xs) = ([] :: (hdfs_error + FileStatus) list)"
    by (induction xs) simp_all
  ultimately show "entries_of (stream_of t died path) = oks (sent t)" "ending (stream_of t died path) = None"
    using assms(2) by (simp_all add: split entries_of_def ending_def stream_of_def todo_messages_def stream_outcome_def)
qed

lemma failed_at_root:
  assumes "sent t = [Inl e]"
  shows "entries_of (stream_of t died path) = []" "ending (stream_of t died path) = Some e"
  using assms by (simp_all add: entries_of_def ending_def stream_of_def todo_messages_def stream_outcome_def)

lemma abs_listing_walk:
  assumes "abs_open N timing h v = (Inr b, v1)" and "\<not> stale_walk b"
  shows "abs_listing N timing again h v = (read_walk N h b, v1)"
  using assms by (simp add: abs_listing_def)

lemma new_stream_simps [simp]:
  "ls_authority (new_stream glob url n options) = fst (ParseHdfsPath url)" "ls_path (new_stream glob url n options) = snd (ParseHdfsPath url)"
  "ls_glob (new_stream glob url n options) = glob" "ls_url (new_stream glob url n options) = url"
  "ls_parallelism (new_stream glob url n options) = n" "ls_options (new_stream glob url n options) = options"
  by (simp_all add: new_stream_def split: prod.splits)

section \<open>The content of a directory\<close>

text \<open>
  C20. \<^verbatim>\<open>ListFilesExtended\<close> shows the directory. With the client that the authority has or gets, the
  callback receives the entries of the listing of the path in the order of the server, each once, the
  hidden ones included, by their bare names and with their type, size and time, and the result says
  whether there was one; an error of the listing that is no connection error, a missing path
  included, is thrown with its text before any callback.
\<close>

theorem list_files_shows_the_directory:
  fixes s :: "('w, 'c, 'r, 'o, 't) hdfs_fs"
  assumes "fs_ok H s" and "ParseHdfsPath path = (a, p)" and "abs_get N a (view s) = (Inr c, v)"
  shows "(\<forall>cs. n_list_status N (cl_inner c) (decode_lossy (c_str p)) (v_world v) = Inr cs \<and> length cs < length ts \<longrightarrow>
      (\<exists>s'. ListFilesExtended from_epoch_ms N vsize (died, k # k' # ks) ts path s =
          Some ((Some (Inr (cs \<noteq> [])),
            map (\<lambda>x. MakeExtendedInfo from_epoch_ms (after_last ch_slash (c_bytes (fs_path x))) (entry_of a x)) cs), s') \<and>
        fs_ok H s' \<and> view s' = v \<and> cells s' = cells s)) \<and>
    (\<forall>e. n_list_status N (cl_inner c) (decode_lossy (c_str p)) (v_world v) = Inl e \<and> classify e \<noteq> HDFS_ERR_CONNECTION \<and> ts \<noteq> [] \<longrightarrow>
      (\<exists>s'. ListFilesExtended from_epoch_ms N vsize (died, k # k' # ks) ts path s =
          Some ((Some (Inl (IOException (lit ''Failed to list HDFS path '' @ quote path @ lit '': '' @
            error_text N (lit ''list '' @ quoted (decode_lossy (c_str p)) @ lit '' failed'') e))), []), s') \<and>
        fs_ok H s' \<and> view s' = v \<and> cells s' = cells s))"
proof -
  let ?h = "new_stream False path 1 \<lparr>o_skip_permission_errors = False, o_include_hidden = True\<rparr>"
  let ?q = "decode_lossy (c_str p)" and ?ls = "\<lambda>q. n_list_status N (cl_inner c) q (v_world v)"
  let ?t = "stream_walk ?ls ?q False (unat (max (at_least_1 1) 1)) \<lparr>skip_permission_errors = False, include_hidden = True\<rparr> (k # k' # ks)"
  let ?b = "stream_of ?t died ?q"
  have opened: "abs_open N (died, k # k' # ks) ?h (view s) = (Inr ?b, v)"
    using assms(2,3) by (simp add: abs_open_def walk_of_def Let_def client_list_stream_def list_stream_def)
  note run = listings_implement_files [OF assms(1) refl]
  have n: "0 < unat (max (at_least_1 1) (1 :: usize))" by (rule clamp_positive)
  show ?thesis
  proof (intro conjI allI impI; elim conjE)
    fix cs
    assume cs: "?ls ?q = Inr cs" "length cs < length ts"
    from stream_walk_flat(1) [of ?ls, OF cs(1) n] have compl: "status ?t = Completed" .
    from stream_walk_flat(2) [of ?ls, OF cs(1) n, of "\<lparr>skip_permission_errors = False, include_hidden = True\<rparr>" k k' ks]
    have sent: "sent ?t = map Inr cs" by simp
    then have "well_sent ?t" using compl by (auto simp: well_sent_def)
    note walk = completed_walk [OF this compl, of died ?q]
    have "\<not> stale_walk ?b" using walk(2) by (simp add: stale_walk_def)
    from abs_listing_walk [OF opened this, of "fst (snd (hd ts))"] walk sent assms(2)
    have "abs_listing N (died, k # k' # ks) (fst (snd (hd ts))) ?h (view s) = ((Inr (), map (entry_of a) cs), v)"
      by (simp add: read_walk_def listing_end_def)
    from run [OF this] cs(2) show "\<exists>s'. ListFilesExtended from_epoch_ms N vsize (died, k # k' # ks) ts path s =
          Some ((Some (Inr (cs \<noteq> [])),
            map (\<lambda>x. MakeExtendedInfo from_epoch_ms (after_last ch_slash (c_bytes (fs_path x))) (entry_of a x)) cs), s') \<and>
        fs_ok H s' \<and> view s' = v \<and> cells s' = cells s"
      by (simp add: comp_def entry_of_def)
  next
    fix e
    assume e: "?ls ?q = Inl e" "classify e \<noteq> HDFS_ERR_CONNECTION" "ts \<noteq> []"
    from stream_walk_root_error [of ?ls, OF e(1) n] have "sent ?t = [Inl e]" by blast
    note walk = failed_at_root [OF this, of died ?q]
    have "\<not> stale_walk ?b" using walk(2) e(2) by (simp add: stale_walk_def)
    from abs_listing_walk [OF opened this, of "fst (snd (hd ts))"] walk
    have "abs_listing N (died, k # k' # ks) (fst (snd (hd ts))) ?h (view s) = ((Inl (IOException (lit ''Failed to list HDFS path '' @ quote path @ lit '': '' @
            error_text N (lit ''list '' @ quoted (decode_lossy (c_str p)) @ lit '' failed'') e)), []), v)"
      by (simp add: read_walk_def listing_end_def list_error_def stream_of_def del: lit_Cons)
    from run [OF this] e(3) show "\<exists>s'. ListFilesExtended from_epoch_ms N vsize (died, k # k' # ks) ts path s =
          Some ((Some (Inl (IOException (lit ''Failed to list HDFS path '' @ quote path @ lit '': '' @
            error_text N (lit ''list '' @ quoted (decode_lossy (c_str p)) @ lit '' failed'') e))), []), s') \<and>
        fs_ok H s' \<and> view s' = v \<and> cells s' = cells s"
      by (simp del: lit_Cons)
  qed
qed

theorem list_files_shows_the_directory_witness:
  "\<exists>s'. ListFilesExtended id demo_native 2 ([], [0, 0]) demo_calls (lit ''/d'') demo_fs =
     Some ((Some (Inr True), map (\<lambda>x. MakeExtendedInfo id (after_last ch_slash (c_bytes (fs_path x))) (entry_of [] x))
       [demo_entry ''/d/x'' False, demo_entry ''/d/_h'' False, demo_entry ''/d/s'' True]), s') \<and> fs_ok {#} s'"
proof -
  have path: "ParseHdfsPath (lit ''/d'') = ([], lit ''/d'')" by code_simp
  have q: "decode_lossy (c_str (lit ''/d'')) = lit ''/d''" by code_simp
  have "fst (abs_get demo_native [] (view demo_fs)) = Inr \<lparr>cl_inner = (), cl_rt = 1\<rparr>" by code_simp
  then obtain v where v: "abs_get demo_native [] (view demo_fs) = (Inr \<lparr>cl_inner = (), cl_rt = 1\<rparr>, v)" by (metis prod.collapse)
  have ls: "n_list_status demo_native () (lit ''/d'') w = Inr [demo_entry ''/d/x'' False, demo_entry ''/d/_h'' False, demo_entry ''/d/s'' True]" for w
    by (simp add: demo_native_def demo_ls_def del: lit_Cons)
  from list_files_shows_the_directory [OF demo_fs_ok path v, of demo_calls id 2 "[]" 0 0 "[]"] show ?thesis
    unfolding q BridgeClient.simps ls by (auto simp del: lit_Cons)
qed

section \<open>The matches of a pattern\<close>

text \<open>The options of a walk, as they cross the boundary.\<close>

definition walk_options :: "HdfsWalkOptions \<Rightarrow> WalkOptions" where
  "walk_options options =
     \<lparr>skip_permission_errors = o_skip_permission_errors options, include_hidden = o_include_hidden options\<rparr>"

text \<open>The walk of a glob, up to the view of the filesystem.\<close>

lemma abs_listing_glob:
  assumes "ParseHdfsPath path = (a, p)" and "abs_get N a v = (Inr c, v')"
    and "parse (decode_lossy (c_str p)) (o_include_hidden options) = Some (Inr plan)"
    and "t = glob_walk (\<lambda>q. n_list_status N (cl_inner c) q (v_world v')) (\<lambda>q. n_get_file_info N (cl_inner c) q (v_world v')) plan
      (unat (max (at_least_1 n) 1)) (walk_options options) ks"
    and "well_sent t" and "status t = Completed"
  shows "abs_listing N (died, ks) again (new_stream True path n options) v = ((Inr (), map (entry_of a) (oks (sent t))), v')"
proof -
  let ?q = "decode_lossy (c_str p)"
  have "abs_open N (died, ks) (new_stream True path n options) v = (Inr (stream_of t died ?q), v')"
    using assms(1-4) by (simp add: abs_open_def walk_of_def Let_def client_glob_stream_def glob_stream_def walk_options_def)
  moreover note walk = completed_walk [OF assms(5,6), of died ?q]
  have "\<not> stale_walk (stream_of t died ?q)" using walk(2) by (simp add: stale_walk_def)
  ultimately show ?thesis using walk assms(1) by (simp add: abs_listing_walk read_walk_def listing_end_def)
qed

text \<open>A glob below a root where no listing fails for a reason that is not pruned finds exactly the matches.\<close>

lemma abs_listing_matches:
  assumes "ParseHdfsPath path = (a, p)" and "abs_get N a v = (Inr c, v')"
    and walk: "pattern = decode_lossy (c_str p)" "options = walk_options opts"
      "ls = (\<lambda>q. n_list_status N (cl_inner c) q (v_world v'))" "info = (\<lambda>q. n_get_file_info N (cl_inner c) q (v_world v'))"
    and tree: "parse pattern (include_hidden options) = Some (Inr plan)"
      "tree_paths ls" "finite_tree ls (plan_root plan)" "distinct_listings ls"
      "clear_below (glob_prune options) ls (plan_root plan)"
      "\<And>x. info (plan_root plan) = Inr x \<Longrightarrow> path_names (fs_path x) = path_names (plan_root plan)"
      "\<And>e. info (plan_root plan) = Inl e \<Longrightarrow> is_not_found e"
  shows "\<exists>m. \<forall>ks. m \<le> length ks \<longrightarrow>
    (\<exists>xs. distinct (map entry_names xs) \<and>
      set xs = {x. (tree_entry ls (plan_root plan) x \<or> info (plan_root plan) = Inr x) \<and>
                   glob_matches pattern (include_hidden options) (path_names (fs_path x))} \<and>
      (\<forall>died again. abs_listing N (died, ks) again (new_stream True path n opts) v = ((Inr (), map (entry_of a) xs), v')))"
proof -
  let ?t = "glob_walk ls info plan (unat (max (at_least_1 n) 1)) options"
  from glob_walk_all [OF tree clamp_positive] obtain m where m: "\<And>ks. m \<le> length ks \<Longrightarrow>
      status (?t ks) = Completed \<and> well_sent (?t ks) \<and> distinct (map entry_names (oks (sent (?t ks)))) \<and>
      set (oks (sent (?t ks))) = {x. (tree_entry ls (plan_root plan) x \<or> info (plan_root plan) = Inr x) \<and>
        glob_matches pattern (include_hidden options) (path_names (fs_path x))}"
    unfolding Let_def by blast
  have "parse (decode_lossy (c_str p)) (o_include_hidden opts) = Some (Inr plan)"
    using tree(1) by (simp add: walk walk_options_def)
  from abs_listing_glob [OF assms(1,2) this] m have
    "abs_listing N (died, ks) again (new_stream True path n opts) v = ((Inr (), map (entry_of a) (oks (sent (?t ks)))), v')"
    if "m \<le> length ks" for ks died again using that by (simp add: walk)
  with m show ?thesis by blast
qed

end
