(* ===== verification/Hdfs_Functions.thy ===== *)
theory Hdfs_Functions
  imports Hdfs_Globs
begin

text \<open>
  The SQL functions \<^verbatim>\<open>hdfs_ls\<close>, \<^verbatim>\<open>hdfs_stat\<close> and \<^verbatim>\<open>hdfs_exists\<close> (\<^verbatim>\<open>src/hdfs_functions.cpp\<close>) and the
  settings of the extension (\<^verbatim>\<open>src/hdfs_extension.cpp\<close>): what a call binds, the state of a scan, its
  chunks of rows, and the settings a call falls back to.
\<close>

unbundle bit_operations_syntax

section \<open>Binding\<close>

datatype HdfsMetaOp = LIST | STAT

text \<open>\<^verbatim>\<open>Value\<close> of a boolean, \<open>None\<close> when it is NULL.\<close>

record HdfsMetaBindData =
  b_op :: HdfsMetaOp
  b_path :: cpp_string
  b_skip_permission_errors :: "bool option"
  b_include_hidden :: "bool option"

fun bind_named :: "(cpp_string \<times> bool option) list \<Rightarrow> HdfsMetaBindData \<Rightarrow> HdfsMetaBindData" where
  "bind_named [] result = result"
| "bind_named ((k, x) # kvs) result =
     bind_named kvs
       (if k = lit ''skip_permission_errors'' then result\<lparr>b_skip_permission_errors := x\<rparr>
        else if k = lit ''include_hidden'' then result\<lparr>b_include_hidden := x\<rparr> else result)"

definition HdfsMetaBind :: "HdfsMetaOp \<Rightarrow> cpp_string \<Rightarrow> (cpp_string \<times> bool option) list \<Rightarrow> HdfsMetaBindData" where
  "HdfsMetaBind op path named =
     bind_named named \<lparr>b_op = op, b_path = path, b_skip_permission_errors = None, b_include_hidden = None\<rparr>"

text \<open>The settings as \<^verbatim>\<open>LoadInternal\<close> registers them, before a user sets one.\<close>

definition registered_settings :: settings where
  "registered_settings =
     \<lparr>hdfs_list_parallelism = Some DEFAULT_HDFS_LIST_PARALLELISM, hdfs_skip_permission_errors = Some False,
      hdfs_include_hidden = Some False\<rparr>"

definition ListParallelism :: "settings \<Rightarrow> i32" where
  "ListParallelism cfg =
     (case hdfs_list_parallelism cfg of
        Some n \<Rightarrow> ucast (min n (2 ^ 31 - 1))
      | None \<Rightarrow> ucast DEFAULT_HDFS_LIST_PARALLELISM)"

definition WalkFlag :: "bool option \<Rightarrow> bool option \<Rightarrow> bool" where
  "WalkFlag override_value setting =
     (case override_value of Some b \<Rightarrow> b | None \<Rightarrow> (case setting of Some b \<Rightarrow> b | None \<Rightarrow> False))"

section \<open>Scans\<close>

record HdfsMetaGlobalState =
  g_stream :: "HdfsListStream option"
  g_entries :: "HdfsEntry list"
  g_offset :: u64

definition glob_characters :: cpp_string where
  "glob_characters = lit ''*?[{''"

definition has_glob :: "cpp_string \<Rightarrow> bool" where
  "has_glob path \<longleftrightarrow> list_ex (\<lambda>c. List.member glob_characters c) path"

definition walk_flags :: "settings \<Rightarrow> HdfsMetaBindData \<Rightarrow> HdfsWalkOptions" where
  "walk_flags cfg bind_data =
     \<lparr>o_skip_permission_errors = WalkFlag (b_skip_permission_errors bind_data) (hdfs_skip_permission_errors cfg),
      o_include_hidden = WalkFlag (b_include_hidden bind_data) (hdfs_include_hidden cfg)\<rparr>"

definition HdfsMetaInit ::
  "('w, 'c, 'r, 'o, 't) hdfs_native \<Rightarrow> walk_timing \<Rightarrow> settings \<Rightarrow> HdfsMetaBindData
     \<Rightarrow> ('w, 'c, 'r, 'o, 't) hdfs_fs \<Rightarrow> ((exn + HdfsMetaGlobalState) \<times> ('w, 'c, 'r, 'o, 't) hdfs_fs) option" where
  "HdfsMetaInit N timing cfg bind_data s =
     (let state = \<lparr>g_stream = None, g_entries = [], g_offset = 0\<rparr>
      in case b_op bind_data of
           LIST \<Rightarrow> do {
             let options = walk_flags cfg bind_data;
             (r, s) \<leftarrow> (if has_glob (b_path bind_data) then OpenGlobStream N timing (b_path bind_data) (ListParallelism cfg) options s
                        else OpenListStream N timing (b_path bind_data) (ListParallelism cfg) options s);
             Some (map_sum id (\<lambda>stream. state\<lparr>g_stream := Some stream\<rparr>) r, s)
           }
         | STAT \<Rightarrow> do {
             (r, s) \<leftarrow> Stat N (b_path bind_data) s;
             Some (map_sum id (\<lambda>entry. state\<lparr>g_entries := g_entries state @ [entry]\<rparr>) r, s)
           })"

text \<open>A row in the columns of \<^verbatim>\<open>DefineMetadataSchema\<close>; NULL is \<open>None\<close>.\<close>

record 'ts HdfsRow =
  r_path :: cpp_string
  r_name :: cpp_string
  r_type :: cpp_string
  r_size :: i64
  r_owner :: cpp_string
  r_group :: cpp_string
  r_permissions :: cpp_string
  r_mode :: u16
  r_replication :: "i32 option"
  r_block_size :: "i64 option"
  r_last_modified :: 'ts
  r_last_accessed :: 'ts

definition rwx :: "cpp_string list" where
  "rwx = [lit ''---'', lit ''--x'', lit ''-w-'', lit ''-wx'', lit ''r--'', lit ''r-x'', lit ''rw-'', lit ''rwx'']"

definition PermissionString :: "u16 \<Rightarrow> cpp_string" where
  "PermissionString m =
     rwx ! unat (drop_bit 6 m AND 7) @ rwx ! unat (drop_bit 3 m AND 7) @ rwx ! unat (m AND 7)"

definition row_of :: "(i64 \<Rightarrow> 'ts) \<Rightarrow> HdfsEntry \<Rightarrow> 'ts HdfsRow" where
  "row_of from_epoch_ms entry =
     \<lparr>r_path = e_url entry, r_name = e_name entry, r_type = (if e_is_dir entry then lit ''directory'' else lit ''file''),
      r_size = e_size entry, r_owner = e_owner entry, r_group = e_group entry,
      r_permissions = PermissionString (e_permission entry), r_mode = e_permission entry,
      r_replication = (if sint (e_replication entry) < 0 then None else Some (e_replication entry)),
      r_block_size = (if sint (e_block_size entry) < 0 then None else Some (e_block_size entry)),
      r_last_modified = from_epoch_ms (ucast (e_mtime entry)), r_last_accessed = from_epoch_ms (ucast (e_atime entry))\<rparr>"

text \<open>One chunk. The rows of a stat are read through a pointer into the entries.\<close>

definition HdfsMetaExecute ::
  "(i64 \<Rightarrow> 'ts) \<Rightarrow> ('w, 'c, 'r, 'o, 't) hdfs_native \<Rightarrow> u64 \<Rightarrow> next_timing \<Rightarrow> HdfsMetaGlobalState
     \<Rightarrow> ('w, 'c, 'r, 'o, 't) hdfs_fs
     \<Rightarrow> ((exn + 'ts HdfsRow list) \<times> HdfsMetaGlobalState \<times> ('w, 'c, 'r, 'o, 't) hdfs_fs) option" where
  "HdfsMetaExecute from_epoch_ms N vsize t state s =
     (case g_stream state of
        Some stream \<Rightarrow> do {
          (r, stream, s) \<leftarrow> Next N vsize t stream s;
          Some (map_sum id (\<lambda>(any, batch). map (row_of from_epoch_ms) batch) r, state\<lparr>g_stream := Some stream\<rparr>, s)
        }
      | None \<Rightarrow>
          (let cnt = min vsize (of_nat (length (g_entries state)) - g_offset state);
               first = unat (g_offset state)
           in if first + unat cnt \<le> length (g_entries state)
              then Some (Inr (map (row_of from_epoch_ms) (take (unat cnt) (drop first (g_entries state)))),
                state\<lparr>g_offset := g_offset state + cnt\<rparr>, s)
              else None))"

text \<open>
  DuckDB runs a table function: it initialises the state, asks for chunks until one is empty or an
  exception ends the query, and destroys the state. The rows in the order they come, and how the scan
  ended, \<open>None\<close> when the given calls do not suffice.
\<close>

fun scan ::
  "(i64 \<Rightarrow> 'ts) \<Rightarrow> ('w, 'c, 'r, 'o, 't) hdfs_native \<Rightarrow> u64 \<Rightarrow> next_timing list \<Rightarrow> HdfsMetaGlobalState
     \<Rightarrow> ('w, 'c, 'r, 'o, 't) hdfs_fs
     \<Rightarrow> (((exn + unit) option \<times> 'ts HdfsRow list) \<times> HdfsMetaGlobalState \<times> ('w, 'c, 'r, 'o, 't) hdfs_fs) option" where
  "scan from_epoch_ms N vsize [] state s = Some ((None, []), state, s)"
| "scan from_epoch_ms N vsize (t # ts) state s =
     do {
       (r, state, s) \<leftarrow> HdfsMetaExecute from_epoch_ms N vsize t state s;
       case r of
         Inl e \<Rightarrow> Some ((Some (Inl e), []), state, s)
       | Inr rows \<Rightarrow>
           if rows = [] then Some ((Some (Inr ()), []), state, s)
           else do { ((r, more_rows), state, s) \<leftarrow> scan from_epoch_ms N vsize ts state s; Some ((r, rows @ more_rows), state, s) }
     }"

definition end_state :: "HdfsMetaGlobalState \<Rightarrow> ('w, 'c, 'r, 'o, 't) hdfs_fs \<Rightarrow> ('w, 'c, 'r, 'o, 't) hdfs_fs option" where
  "end_state state s = (case g_stream state of Some stream \<Rightarrow> end_stream stream s | None \<Rightarrow> Some s)"

definition table_function ::
  "(i64 \<Rightarrow> 'ts) \<Rightarrow> ('w, 'c, 'r, 'o, 't) hdfs_native \<Rightarrow> u64 \<Rightarrow> walk_timing \<Rightarrow> next_timing list \<Rightarrow> settings
     \<Rightarrow> HdfsMetaBindData \<Rightarrow> ('w, 'c, 'r, 'o, 't) hdfs_fs
     \<Rightarrow> (((exn + unit) option \<times> 'ts HdfsRow list) \<times> ('w, 'c, 'r, 'o, 't) hdfs_fs) option" where
  "table_function from_epoch_ms N vsize timing ts cfg bind_data s =
     do {
       (r, s) \<leftarrow> HdfsMetaInit N timing cfg bind_data s;
       case r of
         Inl e \<Rightarrow> Some ((Some (Inl e), []), s)
       | Inr state \<Rightarrow> do {
           (r, state, s) \<leftarrow> scan from_epoch_ms N vsize ts state s;
           s \<leftarrow> end_state state s;
           Some (r, s)
         }
     }"

text \<open>
  \<^verbatim>\<open>hdfs_exists\<close> over a vector of paths; \<^verbatim>\<open>UnaryExecutor\<close> passes over a NULL and calls the lambda for
  every other row, in order. The first exception ends it.
\<close>

fun HdfsExistsExecute ::
  "('w, 'c, 'r, 'o, 't) hdfs_native \<Rightarrow> cpp_string option list \<Rightarrow> ('w, 'c, 'r, 'o, 't) hdfs_fs
     \<Rightarrow> ((exn + bool option list) \<times> ('w, 'c, 'r, 'o, 't) hdfs_fs) option" where
  "HdfsExistsExecute N [] s = Some (Inr [], s)"
| "HdfsExistsExecute N (None # paths) s =
     do { (r, s) \<leftarrow> HdfsExistsExecute N paths s; Some (map_sum id (\<lambda>bs. None # bs) r, s) }"
| "HdfsExistsExecute N (Some path # paths) s =
     do {
       (r, s) \<leftarrow> Exists N path s;
       case r of
         Inl e \<Rightarrow> Some (Inl e, s)
       | Inr b \<Rightarrow> do { (r, s) \<leftarrow> HdfsExistsExecute N paths s; Some (map_sum id (\<lambda>bs. Some b # bs) r, s) }
     }"

section \<open>Settings\<close>

lemma registered_defaults:
  "ListParallelism registered_settings = ListParallelism \<lparr>hdfs_list_parallelism = None, hdfs_skip_permission_errors = None, hdfs_include_hidden = None\<rparr>"
  "glob_options registered_settings = default_options"
  "walk_flags registered_settings (HdfsMetaBind op path []) = default_options"
  by (simp_all add: ListParallelism_def registered_settings_def DEFAULT_HDFS_LIST_PARALLELISM_def glob_options_def
      default_options_def walk_flags_def WalkFlag_def HdfsMetaBind_def)

lemma list_parallelism_same: "ListParallelism cfg = list_parallelism (hdfs_list_parallelism cfg)"
  by (simp add: ListParallelism_def list_parallelism_def)

text \<open>Without named parameters a call of \<^verbatim>\<open>hdfs_ls\<close> has the options of a glob.\<close>

lemma walk_flags_unset:
  "b_skip_permission_errors b = None \<Longrightarrow> b_include_hidden b = None \<Longrightarrow> walk_flags cfg b = glob_options cfg"
  by (simp add: walk_flags_def glob_options_def WalkFlag_def default_options_def split: option.split)

section \<open>Table functions\<close>

text \<open>A scan of a stream is the loop over its batches, row by row.\<close>

lemma row_map_nil: "map (row_of from_epoch_ms) es = [] \<longleftrightarrow> es = []"
  by simp

lemma next_any:
  assumes "Next N vsize t h s = Some (Inr (any, out), h', s')"
  shows "any = (out \<noteq> [])"
  using assms
proof (induction N vsize t h s rule: Next.induct)
  case (1 N vsize ready timing again h s)
  obtain q h1 s1 where one: "next_round N vsize ready timing h s = Some ((q, h1), s1)"
    using 1(2) by (cases "next_round N vsize ready timing h s") (auto simp: Next.simps [of N vsize ready])
  show ?case
  proof (cases q)
    case Again
    with one 1(2) have "Next N vsize (again, timing, again) h1 s1 = Some (Inr (any, out), h', s')"
      by (simp add: Next.simps [of N vsize ready])
    from 1(1) [OF one refl refl Again this] show ?thesis .
  qed (use one 1(2) in \<open>simp_all add: Next.simps [of N vsize ready]\<close>)
qed

lemma scan_stream:
  "scan from_epoch_ms N vsize ts \<lparr>g_stream = Some h, g_entries = es, g_offset = n\<rparr> s =
     map_option (\<lambda>((r, xs), h, s). ((r, map (row_of from_epoch_ms) xs), \<lparr>g_stream = Some h, g_entries = es, g_offset = n\<rparr>, s))
       (drain N vsize ts h s)"
proof (induction ts arbitrary: h s)
  case (Cons t ts)
  show ?case
  proof (cases "Next N vsize t h s")
    case None
    then show ?thesis by (simp add: HdfsMetaExecute_def)
  next
    case (Some x)
    obtain r h1 s1 where x: "x = (r, h1, s1)" by (rule prod_cases3)
    show ?thesis
    proof (cases r)
      case (Inl e)
      with Some x show ?thesis by (simp add: HdfsMetaExecute_def)
    next
      case (Inr y)
      obtain any out where y: "y = (any, out)" by (rule prod.exhaust)
      have any: "any = (out \<noteq> [])" using next_any Some x Inr y by blast
      show ?thesis
        using Some x Inr y any Cons.IH [of h1 s1]
        by (cases "drain N vsize ts h1 s1") (auto simp: HdfsMetaExecute_def)
    qed
  qed
qed simp

text \<open>A listing in a table function is the stream in its scope.\<close>

lemma init_list:
  assumes "b_op b = LIST"
  shows "HdfsMetaInit N timing cfg b s =
    do { (r, s) \<leftarrow> open_stream N (has_glob (b_path b)) timing (b_path b) (ListParallelism cfg) (walk_flags cfg b) s;
         Some (map_sum id (\<lambda>stream. \<lparr>g_stream = Some stream, g_entries = [], g_offset = 0\<rparr>) r, s) }"
  using assms by (simp add: HdfsMetaInit_def OpenGlobStream_def OpenListStream_def Let_def)

lemma table_function_list:
  assumes "b_op b = LIST"
  shows "table_function from_epoch_ms N vsize timing ts cfg b s =
    map_option (\<lambda>((r, es), s). ((r, map (row_of from_epoch_ms) es), s))
      (do { x \<leftarrow> open_stream N (has_glob (b_path b)) timing (b_path b) (ListParallelism cfg) (walk_flags cfg b) s;
            with_stream N vsize ts x })"
proof (cases "open_stream N (has_glob (b_path b)) timing (b_path b) (ListParallelism cfg) (walk_flags cfg b) s")
  case None
  then show ?thesis by (simp add: table_function_def init_list [OF assms])
next
  case (Some x)
  obtain r s1 where x: "x = (r, s1)" by (rule prod.exhaust)
  show ?thesis
  proof (cases r)
    case (Inl e)
    with Some x show ?thesis by (simp add: table_function_def init_list [OF assms] with_stream_def)
  next
    case (Inr h)
    with Some x show ?thesis
      by (cases "drain N vsize ts h s1")
        (auto simp: table_function_def init_list [OF assms] with_stream_def scan_stream end_state_def split: bind_split)
  qed
qed

lemma table_function_stat:
  assumes "b_op b = STAT" and "Stat N (b_path b) s = Some (r, s1)" and "0 < vsize" and "2 \<le> length ts"
  shows "table_function from_epoch_ms N vsize timing ts cfg b s =
    Some (case r of Inl e \<Rightarrow> (Some (Inl e), []) | Inr entry \<Rightarrow> (Some (Inr ()), [row_of from_epoch_ms entry]), s1)"
proof (cases r)
  case (Inl e)
  with assms show ?thesis by (simp add: table_function_def HdfsMetaInit_def)
next
  case (Inr entry)
  from assms(4) obtain t t' ts' where ts: "ts = t # t' # ts'" by (cases ts; cases "tl ts") auto
  have "1 \<le> vsize" using assms(3) by (metis word_less_eq_iff_unsigned word_le_sub1 word_gt_0 linorder_not_less word_not_simps(1) unsigned_1 word_less_1 order_le_less)
  then have "min vsize 1 = 1" by (simp add: min_def)
  with Inr assms(1,2) ts show ?thesis
    by (simp add: table_function_def HdfsMetaInit_def HdfsMetaExecute_def end_state_def Let_def)
qed

lemma implements_defined:
  assumes "implements f F" and "fs_ok H s" and "F (view s) = (r, v)"
  shows "\<exists>s'. f s = Some (r, s') \<and> fs_ok H s' \<and> view s' = v \<and> cells s' = cells s"
  using assms unfolding implements_on_def by fastforce

lemma table_function_list_ok:
  fixes s :: "('w, 'c, 'r, 'o, 't) hdfs_fs"
  assumes "fs_ok H s" and "b_op b = LIST"
    and "abs_listing N timing (fst (snd (hd ts))) (new_stream (has_glob (b_path b)) (b_path b) (ListParallelism cfg) (walk_flags cfg b)) (view s) =
      ((r, es), v)" and "length es < length ts"
  shows "\<exists>s'. table_function from_epoch_ms N vsize timing ts cfg b s = Some ((Some r, map (row_of from_epoch_ms) es), s') \<and>
    fs_ok H s' \<and> view s' = v \<and> cells s' = cells s"
  using listing_ok [OF assms(1,3,4) refl, of vsize]
  by (elim exE) (auto simp: table_function_list [OF assms(2)])

text \<open>The specification of \<^verbatim>\<open>hdfs_exists\<close> on a vector.\<close>

fun abs_exists_all ::
  "('w, 'c, 'r, 'o, 't) hdfs_native \<Rightarrow> cpp_string option list \<Rightarrow> ('w, 'c, 't) fs_view
     \<Rightarrow> (exn + bool option list) \<times> ('w, 'c, 't) fs_view" where
  "abs_exists_all N [] v = (Inr [], v)"
| "abs_exists_all N (None # paths) v = map_prod (map_sum id (\<lambda>bs. None # bs)) id (abs_exists_all N paths v)"
| "abs_exists_all N (Some path # paths) v =
     (case abs_call N path (spec_info N) (not_found_or (lit ''Failed to check HDFS path '' @ quote path)) (\<lambda>st. Inr True) v of
        (Inl e, v) \<Rightarrow> (Inl e, v)
      | (Inr b, v) \<Rightarrow> map_prod (map_sum id (\<lambda>bs. Some b # bs)) id (abs_exists_all N paths v))"

lemma exists_all_ok:
  fixes s :: "('w, 'c, 'r, 'o, 't) hdfs_fs"
  assumes "fs_ok H s" and "abs_exists_all N paths (view s) = (r, v)"
  shows "\<exists>s'. HdfsExistsExecute N paths s = Some (r, s') \<and> fs_ok H s' \<and> view s' = v \<and> cells s' = cells s"
  using assms
proof (induction N paths s arbitrary: r v rule: HdfsExistsExecute.induct)
  case (2 N paths s)
  obtain q w where q: "abs_exists_all N paths (view s) = (q, w)" by (rule prod.exhaust)
  from 2(1) [OF 2(2) q] 2(3) q show ?case by auto
next
  case (3 N path paths s)
  obtain b w where b: "abs_call N path (spec_info N) (not_found_or (lit ''Failed to check HDFS path '' @ quote path)) (\<lambda>st. Inr True) (view s) =
    (b, w)" by (rule prod.exhaust)
  from implements_defined [OF exists_implements 3(2) this] obtain s1 where
    s1: "Exists N path s = Some (b, s1)" "fs_ok H s1" "view s1 = w" "cells s1 = cells s" by blast
  show ?case
  proof (cases b)
    case (Inl e)
    with 3(3) b s1 show ?thesis by (simp del: lit_Cons)
  next
    case (Inr x)
    obtain q w' where q: "abs_exists_all N paths (view s1) = (q, w')" by (rule prod.exhaust)
    from 3(1) [OF s1(1) refl Inr s1(2) q] obtain s2 where
      "HdfsExistsExecute N paths s1 = Some (q, s2)" "fs_ok H s2" "view s2 = w'" "cells s2 = cells s1" by blast
    with 3(3) b s1 q Inr show ?thesis by (auto simp del: lit_Cons)
  qed
qed simp

section \<open>Rows\<close>

lemma rwx_digit:
  fixes d :: u16
  shows "rwx ! unat (d AND 7) =
    (if bit d 2 then lit ''r'' else lit ''-'') @ (if bit d 1 then lit ''w'' else lit ''-'') @ (if bit d 0 then lit ''x'' else lit ''-'')"
proof -
  let ?k = "unat (d AND 7)"
  have k: "?k = take_bit 3 (unat d)" using take_bit_eq_mask [of 3 d] by (simp add: mask_numeral flip: unsigned_take_bit_eq)
  have bits: "bit d n \<longleftrightarrow> bit ?k n" if "n < 3" for n
    using that unfolding k by (simp add: bit_take_bit_iff bit_unsigned_iff)
  have "?k \<in> {0, 1, 2, 3, 4, 5, 6, 7}" unfolding k by (auto simp: take_bit_eq_mod)
  moreover have "bit d 2 \<longleftrightarrow> bit ?k 2" "bit d 1 \<longleftrightarrow> bit ?k 1" "bit d 0 \<longleftrightarrow> bit ?k 0" by (rule bits; simp)+
  note this [unfolded bit_iff_odd [of ?k]]
  ultimately show ?thesis
    by (elim insertE; simp add: rwx_def)
qed

text \<open>The nine permission bits, from the most significant one, each as its letter or a dash.\<close>

lemma permission_string_bits:
  "PermissionString m =
     concat (map (\<lambda>i. if bit m i then [lit ''rwx'' ! ((8 - i) mod 3)] else lit ''-'') [8, 7, 6, 5, 4, 3, 2, 1, 0])"
  by (simp add: PermissionString_def rwx_digit bit_drop_bit_eq)

lemma bind_named_same [simp]:
  "b_op (bind_named kvs b) = b_op b" "b_path (bind_named kvs b) = b_path b"
  by (induction kvs b rule: bind_named.induct) simp_all

lemma bound_call: "b_op (HdfsMetaBind op path named) = op" "b_path (HdfsMetaBind op path named) = path"
  by (simp_all add: HdfsMetaBind_def)

lemma hdfs_ls_ok:
  fixes s :: "('w, 'c, 'r, 'o, 't) hdfs_fs"
  assumes "fs_ok H s"
    and "abs_listing N timing (fst (snd (hd ts))) (new_stream (has_glob path) path (ListParallelism cfg)
      (walk_flags cfg (HdfsMetaBind LIST path named))) (view s) = ((r, es), v)" and "length es < length ts"
  shows "\<exists>s'. table_function from_epoch_ms N vsize timing ts cfg (HdfsMetaBind LIST path named) s =
      Some ((Some r, map (row_of from_epoch_ms) es), s') \<and> fs_ok H s' \<and> view s' = v \<and> cells s' = cells s"
  by (rule table_function_list_ok [OF assms(1)]) (simp_all add: bound_call assms)

lemma hdfs_stat_ok:
  fixes s :: "('w, 'c, 'r, 'o, 't) hdfs_fs" and vsize :: u64
  assumes "fs_ok H s" and "abs_stat N path (view s) = (r, v)" and "0 < vsize" and "2 \<le> length ts"
  shows "\<exists>s'. table_function from_epoch_ms N vsize timing ts cfg (HdfsMetaBind STAT path []) s =
      Some (case r of Inl e \<Rightarrow> (Some (Inl e), []) | Inr entry \<Rightarrow> (Some (Inr ()), [row_of from_epoch_ms entry]), s') \<and>
    fs_ok H s' \<and> view s' = v \<and> cells s' = cells s"
proof -
  from implements_defined [OF stat_implements assms(1,2)] obtain s' where
    s': "Stat N path s = Some (r, s')" "fs_ok H s' \<and> view s' = v \<and> cells s' = cells s" by blast
  have "Stat N (b_path (HdfsMetaBind STAT path [])) s = Some (r, s')" using s'(1) by (simp add: bound_call)
  from table_function_stat [OF bound_call(1) this assms(3,4)] s'(2) show ?thesis by blast
qed

text \<open>
  C21. The SQL functions refine their specifications, from every well-formed state of the filesystem
  and for all schedules, timings and vector sizes: a scan of \<^verbatim>\<open>hdfs_ls\<close> gives the entries of a listing,
  or of a glob when the path has a glob character, one row each and in order, also those before an
  exception; \<^verbatim>\<open>hdfs_stat\<close> gives the one row of the path; \<^verbatim>\<open>hdfs_exists\<close> answers for every path of its
  vector and leaves a NULL where one is. Each is free of undefined behaviour and gives back all memory.
\<close>

theorem sql_functions_implement:
  fixes s :: "('w, 'c, 'r, 'o, 't) hdfs_fs"
  assumes "fs_ok H s"
  shows "(\<forall>path named timing ts vsize r es v.
      abs_listing N timing (fst (snd (hd ts))) (new_stream (has_glob path) path (ListParallelism cfg)
        (walk_flags cfg (HdfsMetaBind LIST path named))) (view s) = ((r, es), v) \<and> length es < length ts \<longrightarrow>
      (\<exists>s'. table_function from_epoch_ms N vsize timing ts cfg (HdfsMetaBind LIST path named) s =
          Some ((Some r, map (row_of from_epoch_ms) es), s') \<and> fs_ok H s' \<and> view s' = v \<and> cells s' = cells s)) \<and>
    (\<forall>path timing ts vsize r v. abs_stat N path (view s) = (r, v) \<and> 0 < vsize \<and> 2 \<le> length ts \<longrightarrow>
      (\<exists>s'. table_function from_epoch_ms N vsize timing ts cfg (HdfsMetaBind STAT path []) s =
          Some (case r of Inl e \<Rightarrow> (Some (Inl e), []) | Inr entry \<Rightarrow> (Some (Inr ()), [row_of from_epoch_ms entry]), s') \<and>
        fs_ok H s' \<and> view s' = v \<and> cells s' = cells s)) \<and>
    (\<forall>paths r v. abs_exists_all N paths (view s) = (r, v) \<longrightarrow>
      (\<exists>s'. HdfsExistsExecute N paths s = Some (r, s') \<and> fs_ok H s' \<and> view s' = v \<and> cells s' = cells s))"
  using hdfs_ls_ok [OF assms] hdfs_stat_ok [OF assms] exists_all_ok [OF assms] by (intro conjI allI impI; (elim conjE)?)

theorem sql_functions_implement_witness:
  "(\<exists>s'. table_function id demo_native 2 ([], [0, 0]) demo_calls registered_settings (HdfsMetaBind LIST (lit ''/d/*'') []) demo_fs =
      Some ((Some (Inr ()), map (row_of id) [entry_of [] (demo_entry ''/d/x'' False), entry_of [] (demo_entry ''/d/s'' True)]), s') \<and>
      fs_ok {#} s') \<and>
   (\<exists>s'. table_function id demo_native 2 ([], []) demo_calls registered_settings (HdfsMetaBind STAT (lit ''/d'') []) demo_fs =
      Some ((Some (Inr ()), [row_of id (entry_of [] (demo_entry ''/d'' True))]), s') \<and> fs_ok {#} s') \<and>
   (\<exists>s'. HdfsExistsExecute demo_native [Some (lit ''/d''), None, Some (lit ''/q'')] demo_fs =
      Some (Inr [Some True, None, Some False], s') \<and> fs_ok {#} s')"
proof -
  note run = sql_functions_implement [OF demo_fs_ok, of demo_native registered_settings id]
  have glob: "has_glob (lit ''/d/*'')" "ListParallelism registered_settings = 16" by code_simp+
  obtain v1 where v1: "abs_listing demo_native ([], [0, 0]) ([], []) (new_stream True (lit ''/d/*'') 16 default_options) (view demo_fs) =
     ((Inr (), [entry_of [] (demo_entry ''/d/x'' False), entry_of [] (demo_entry ''/d/s'' True)]), v1)"
    using demo_listing_glob by (metis prod.collapse)
  have "fst (abs_stat demo_native (lit ''/d'') (view demo_fs)) = Inr (entry_of [] (demo_entry ''/d'' True))" by code_simp
  then obtain v2 where v2: "abs_stat demo_native (lit ''/d'') (view demo_fs) = (Inr (entry_of [] (demo_entry ''/d'' True)), v2)"
    by (metis prod.collapse)
  have "fst (abs_exists_all demo_native [Some (lit ''/d''), None, Some (lit ''/q'')] (view demo_fs)) =
      Inr [Some True, None, Some False]" by code_simp
  then obtain v3 where v3: "abs_exists_all demo_native [Some (lit ''/d''), None, Some (lit ''/q'')] (view demo_fs) =
      (Inr [Some True, None, Some False], v3)" by (metis prod.collapse)
  show ?thesis
  proof (intro conjI)
    have "abs_listing demo_native ([], [0, 0]) (fst (snd (hd demo_calls))) (new_stream (has_glob (lit ''/d/*'')) (lit ''/d/*'')
        (ListParallelism registered_settings) (walk_flags registered_settings (HdfsMetaBind LIST (lit ''/d/*'') []))) (view demo_fs) =
        ((Inr (), [entry_of [] (demo_entry ''/d/x'' False), entry_of [] (demo_entry ''/d/s'' True)]), v1)"
      using v1 unfolding registered_defaults(3) glob(2) by (simp add: glob(1) del: lit_Cons)
    from run [THEN conjunct1, rule_format, OF conjI, OF this, of 2]
    show "\<exists>s'. table_function id demo_native 2 ([], [0, 0]) demo_calls registered_settings (HdfsMetaBind LIST (lit ''/d/*'') []) demo_fs =
      Some ((Some (Inr ()), map (row_of id) [entry_of [] (demo_entry ''/d/x'' False), entry_of [] (demo_entry ''/d/s'' True)]), s') \<and>
      fs_ok {#} s'" by (auto simp del: lit_Cons)
    from run [THEN conjunct2, THEN conjunct1, rule_format, OF conjI, OF v2, where timing = "([], [])", of 2 demo_calls]
    show "\<exists>s'. table_function id demo_native 2 ([], []) demo_calls registered_settings (HdfsMetaBind STAT (lit ''/d'') []) demo_fs =
      Some ((Some (Inr ()), [row_of id (entry_of [] (demo_entry ''/d'' True))]), s') \<and> fs_ok {#} s'" by (auto simp del: lit_Cons)
    from run [THEN conjunct2, THEN conjunct2, rule_format, OF v3]
    show "\<exists>s'. HdfsExistsExecute demo_native [Some (lit ''/d''), None, Some (lit ''/q'')] demo_fs =
      Some (Inr [Some True, None, Some False], s') \<and> fs_ok {#} s'" by blast
  qed
qed

text \<open>
  C22. What a row says of an entry. Its path is the URL that leads back to the entry, its permissions
  are the nine permission bits of the mode, each as its letter or a dash, and replication and block
  size are NULL exactly for a directory and where the cluster reports none; size, owner, group, mode
  and times are those of the entry.
\<close>

theorem rows_describe_entries:
  assumes "\<And>n. fs_replication st = Some n \<Longrightarrow> 0 \<le> sint n" and "\<And>n. fs_blocksize st = Some n \<Longrightarrow> 0 \<le> sint n"
  shows "row_of from_epoch_ms (entry_of a st) =
    \<lparr>r_path = MakeUrl a (c_bytes (fs_path st)), r_name = after_last ch_slash (c_bytes (fs_path st)),
     r_type = (if fs_isdir st then lit ''directory'' else lit ''file''), r_size = fs_length st,
     r_owner = c_bytes (fs_owner st), r_group = c_bytes (fs_group st),
     r_permissions = concat (map (\<lambda>i. if bit (fs_permission st) i then [lit ''rwx'' ! ((8 - i) mod 3)] else lit ''-'')
       [8, 7, 6, 5, 4, 3, 2, 1, 0]),
     r_mode = fs_permission st,
     r_replication = (if fs_isdir st then None else fs_replication st),
     r_block_size = (if fs_isdir st then None else fs_blocksize st),
     r_last_modified = from_epoch_ms (ucast (fs_modification_time st)),
     r_last_accessed = from_epoch_ms (ucast (fs_access_time st))\<rparr>"
proof -
  have "sint (- 1 :: i32) < 0" "sint (- 1 :: i64) < 0" by simp_all
  with assms show ?thesis
    by (cases "fs_replication st"; cases "fs_blocksize st")
      (simp_all add: row_of_def entry_of_def permission_string_bits not_less [symmetric] del: lit_Cons)
qed

theorem rows_describe_entries_witness:
  "r_permissions (row_of id (entry_of [] (demo_entry ''/d/x'' False))) = lit ''rw-r--r--'' \<and>
   r_replication (row_of id (entry_of [] (demo_entry ''/d/x'' False))) = None"
  using rows_describe_entries [of "demo_entry ''/d/x'' False" id "[]"]
  by (simp add: demo_entry_def bit_iff_odd)

end
