(* ===== verification/Hdfs_Threads.thy ===== *)
theory Hdfs_Threads
  imports Hdfs_Listing Hdfs_Results
begin

text \<open>
  Threads of DuckDB that share the connections of one filesystem: \<^verbatim>\<open>Execute\<close>
  (\<^verbatim>\<open>src/hdfs_filesystem.cpp\<close>) of several threads, interleaved at its locks. \<^verbatim>\<open>GetConnection\<close> holds the
  mutex of the connections, \<^verbatim>\<open>Get\<close> and \<^verbatim>\<open>Invalidate\<close> the mutex of one connection, and here each of them is
  one step; so are the call of the bridge and the end of a pointer to a client. Between any two steps
  of a thread the others may run, and the cluster may change. The locals of a call have its scope, and
  the thread keeps the status it read. The mutexes themselves are in \<open>Hdfs_Locks\<close>, which shows that
  they make these steps atomic.
\<close>

section \<open>Calls\<close>

datatype request_kind = Mkdir | Remove bool | Check

record request =
  rq_url :: cpp_string
  rq_kind :: request_kind

definition answered ::
  "(addr \<Rightarrow> addr \<Rightarrow> ('w, 'c, 'r, 'o, 't) mem \<Rightarrow> (i32 \<times> ('w, 'c, 'r, 'o, 't) mem) option) \<Rightarrow> addr
     \<Rightarrow> ('w, 'c, 'r, 'o, 't) hdfs_fs \<Rightarrow> (i32 \<times> ('w, 'c, 'r, 'o, 't) hdfs_fs) option" where
  "answered call client =
     with_status (\<lambda>st s. do {
       (rc, m) \<leftarrow> call client st (heap s);
       t \<leftarrow> statuses m st;
       Some (code t, s\<lparr>heap := m\<rparr>)
     })"

text \<open>The lambdas that \<^verbatim>\<open>CreateDirectory\<close>, \<^verbatim>\<open>RemoveDirectory\<close>, \<^verbatim>\<open>RemoveFile\<close> and \<^verbatim>\<open>Exists\<close> give to \<^verbatim>\<open>Execute\<close>.\<close>

definition run_request ::
  "('w, 'c, 'r, 'o, 't) hdfs_native \<Rightarrow> request \<Rightarrow> addr
     \<Rightarrow> ('w, 'c, 'r, 'o, 't) hdfs_fs \<Rightarrow> (i32 \<times> ('w, 'c, 'r, 'o, 't) hdfs_fs) option" where
  "run_request N rq client =
     with_arg (snd (ParseHdfsPath (rq_url rq))) (\<lambda>path.
       case rq_kind rq of
         Mkdir \<Rightarrow> answered (\<lambda>client st. hdfs_bridge_mkdirs N client path st) client
       | Remove recursive \<Rightarrow> answered (\<lambda>client st. hdfs_bridge_delete N client path recursive st) client
       | Check \<Rightarrow> with_info (\<lambda>info. answered (\<lambda>client st. hdfs_bridge_get_file_info N client path info st) client))"

abbreviation authority_of :: "request \<Rightarrow> cpp_string" where
  "authority_of rq \<equiv> fst (ParseHdfsPath (rq_url rq))"

section \<open>Steps\<close>

text \<open>
  Where a thread stands in \<^verbatim>\<open>Execute\<close>: before \<^verbatim>\<open>GetConnection\<close>, before \<^verbatim>\<open>Get\<close> of an attempt, before the call with its client,
  before \<^verbatim>\<open>Invalidate\<close>, before the end of its pointer (and then the second attempt, or the end).
\<close>

datatype stage = Looking | Asking nat | Calling nat addr | Stale addr | Leaving addr bool | Over

record thread =
  th_request :: request
  th_stage :: stage

fun held_by :: "stage \<Rightarrow> addr multiset" where
  "held_by (Calling n p) = {#p#}"
| "held_by (Stale p) = {#p#}"
| "held_by (Leaving p again) = {#p#}"
| "held_by Looking = {#}"
| "held_by (Asking n) = {#}"
| "held_by Over = {#}"

definition after_call :: "nat \<Rightarrow> addr \<Rightarrow> i32 \<Rightarrow> stage" where
  "after_call attempt p k = (if k = HDFS_ERR_CONNECTION \<and> attempt = 0 then Stale p else Leaving p False)"

text \<open>A thread's step, \<open>None\<close> for undefined behaviour and for a thread that is over.\<close>

definition advance ::
  "('w, 'c, 'r, 'o, 't) hdfs_native \<Rightarrow> thread \<Rightarrow> ('w, 'c, 'r, 'o, 't) hdfs_fs \<Rightarrow> (stage \<times> ('w, 'c, 'r, 'o, 't) hdfs_fs) option" where
  "advance N th s =
     (case th_stage th of
        Looking \<Rightarrow> Some (Asking 0, GetConnection (authority_of (th_request th)) s)
      | Asking attempt \<Rightarrow> do {
          (r, s) \<leftarrow> Get N (authority_of (th_request th)) s;
          Some (case r of Inl e \<Rightarrow> Over | Inr p \<Rightarrow> Calling attempt p, s)
        }
      | Calling attempt p \<Rightarrow> do { (k, s) \<leftarrow> run_request N (th_request th) p s; Some (after_call attempt p k, s) }
      | Stale p \<Rightarrow> do { s \<leftarrow> Invalidate (authority_of (th_request th)) p s; Some (Leaving p True, s) }
      | Leaving p again \<Rightarrow> do { s \<leftarrow> release p s; Some (if again then Asking 1 else Over, s) }
      | Over \<Rightarrow> None)"

text \<open>The cluster, as a thread finds it, may change at any time, and with it what calls answer.\<close>

inductive threads_step ::
  "('w, 'c, 'r, 'o, 't) hdfs_native \<Rightarrow> thread list \<times> ('w, 'c, 'r, 'o, 't) hdfs_fs \<Rightarrow> thread list \<times> ('w, 'c, 'r, 'o, 't) hdfs_fs \<Rightarrow> bool"
  for N :: "('w, 'c, 'r, 'o, 't) hdfs_native" where
  advanced: "i < length ths \<Longrightarrow> advance N (ths ! i) s = Some (g, s') \<Longrightarrow>
    threads_step N (ths, s) (ths[i := (ths ! i)\<lparr>th_stage := g\<rparr>], s')"
| changed: "threads_step N (ths, s) (ths, s\<lparr>heap := (heap s)\<lparr>cluster := w\<rparr>\<rparr>)"

inductive_cases threads_stepE: "threads_step N (ths, s) x"

abbreviation threads_steps where
  "threads_steps N \<equiv> (threads_step N)\<^sup>*\<^sup>*"

definition holders :: "thread list \<Rightarrow> addr multiset" where
  "holders ths = (\<Sum>th\<leftarrow>ths. held_by (th_stage th))"

definition threads_ok :: "(unit, 'c, 'r, 'o, 't) mem \<Rightarrow> thread list \<times> ('w, 'c, 'r, 'o, 't) hdfs_fs \<Rightarrow> bool" where
  "threads_ok c x = (case x of (ths, s) \<Rightarrow> fs_ok (holders ths) s \<and> cells s = c \<and>
     (\<forall>th \<in> set ths. th_stage th = Looking \<or> connections s (authority_of (th_request th)) \<noteq> None))"

section \<open>One call\<close>

lemma answered_ok:
  fixes s :: "('w, 'c, 'r, 'o, 't) hdfs_fs"
  assumes "serves call g needs upd" and "\<And>c x. needs c \<Longrightarrow> needs (c\<lparr>statuses := x\<rparr>)"
    and "fs_ok (add_mset p H) s" and "needs (cells s)" and "clients (heap s) p = Some c" and "g c (cluster (heap s)) = (r, w)"
  shows "\<exists>k s'. answered call p s = Some (k, s') \<and> fs_ok (add_mset p H) s' \<and>
    cells s' = (case r of Inl _ \<Rightarrow> cells s | Inr y \<Rightarrow> (cells s)\<lparr>infos := upd y (infos (cells s))\<rparr>)"
  unfolding answered_def
proof (rule with_status_ok [OF assms(3)])
  fix st s1
  assume s1: "fs_ok (add_mset p H) s1" "st \<noteq> null" "statuses (cells s) st = None"
    "cells s1 = (cells s)\<lparr>statuses := (statuses (cells s))(st \<mapsto> status_clear)\<rparr>" "view s1 = view s"
    "clients (heap s1) = clients (heap s)"
  have needs: "needs (cells s1)" and clear: "statuses (cells s1) st = Some status_clear"
    unfolding s1(4) using assms(2,4) by simp_all
  have w: "g c (cluster (heap s1)) = (r, w)" using assms(6) arg_cong [OF s1(5), of v_world] by simp
  have ok: "fs_ok (add_mset p ({#} + H)) s1" and c: "clients (heap s1) p = Some c" using s1(1,6) assms(5) by simp_all
  from bridge_op.runs [OF served [OF assms(1)] ok c needs s1(2) clear w] obtain good s2 where
    s2: "lift_call call p st () s1 = Some ((), good, s2)" "fs_ok (add_mset p H) s2" and
    r: "case r of Inl (k, t) \<Rightarrow> \<not> good \<and> k \<noteq> HDFS_OK \<and> True \<and> told st k t (cells s1) (cells s2)
      | Inr y \<Rightarrow> good \<and> cells s2 = (cells s1)\<lparr>infos := upd y (infos (cells s1))\<rparr>"
    by auto
  let ?c = "case r of Inl _ \<Rightarrow> cells s1 | Inr y \<Rightarrow> (cells s1)\<lparr>infos := upd y (infos (cells s1))\<rparr>"
  have "statuses ?c st = Some status_clear" "arrays_ok (cstrs ?c) (entry_arrays ?c)"
    using clear fs_ok_arrays [OF s1(1)] by (auto split: sum.split)
  moreover have "?c\<lparr>statuses := (statuses ?c)(st := None)\<rparr> =
      (case r of Inl _ \<Rightarrow> cells s | Inr y \<Rightarrow> (cells s)\<lparr>infos := upd y (infos (cells s))\<rparr>)"
    using s1(3) by (auto simp: s1(4) fun_upd_idem split: sum.split)
  moreover have "(cells s2 = ?c \<or> (\<exists>k t. told st k t ?c (cells s2))) \<and> (\<exists>t. statuses (heap s2) st = Some t)"
  proof (cases r)
    case (Inl f)
    obtain k t where "f = (k, t)" by (rule prod.exhaust)
    with Inl r have tell: "told st k t (cells s1) (cells s2)" by simp
    with told_read(1) [OF tell] Inl show ?thesis by auto
  next
    case (Inr y)
    with r have c2: "cells s2 = (cells s1)\<lparr>infos := upd y (infos (cells s1))\<rparr>" by simp
    have "statuses (cells s2) st = Some status_clear" unfolding c2 using clear by simp
    then have "statuses (heap s2) st = Some status_clear" by simp
    with c2 Inr show ?thesis by simp
  qed
  then obtain t where t: "cells s2 = ?c \<or> (\<exists>k t. told st k t ?c (cells s2))" "statuses (heap s2) st = Some t" by blast
  from s2(1) obtain rc m where "call p st (heap s1) = Some (rc, m)" "s2 = s1\<lparr>heap := m\<rparr>"
    by (auto simp: lift_call_def split: bind_splits prod.splits)
  with t(2) have "(do { (rc, m) \<leftarrow> call p st (heap s1); t \<leftarrow> statuses m st; Some (code t, s1\<lparr>heap := m\<rparr>) }) = Some (code t, s2)" by simp
  ultimately show "\<exists>x s2 c. (do { (rc, m) \<leftarrow> call p st (heap s1); t \<leftarrow> statuses m st; Some (code t, s1\<lparr>heap := m\<rparr>) }) = Some (x, s2) \<and>
      fs_ok (add_mset p H) s2 \<and> (cells s2 = c \<or> (\<exists>k t. told st k t c (cells s2))) \<and>
      statuses c st = Some status_clear \<and> arrays_ok (cstrs c) (entry_arrays c) \<and>
      c\<lparr>statuses := (statuses c)(st := None)\<rparr> = (case r of Inl _ \<Rightarrow> cells s | Inr y \<Rightarrow> (cells s)\<lparr>infos := upd y (infos (cells s))\<rparr>)"
    using s2(2) t(1) by blast
qed

lemma answered_connections: "answered call p s = Some (k, s') \<Longrightarrow> connections s' = connections s"
  by (auto simp: answered_def with_status_def Let_def split: bind_splits prod.splits)

lemma run_request_connections: "run_request N rq p s = Some (k, s') \<Longrightarrow> connections s' = connections s"
  by (auto simp: run_request_def with_arg_def with_info_def Let_def split: bind_splits prod.splits request_kind.splits
      dest!: answered_connections)

lemma mkdirs_reply: "\<exists>r w. spec_mkdirs N p c v = (r, w)" "\<exists>r w. spec_delete N recursive p c v = (r, w)" "\<exists>r w. spec_info N p c v = (r, w)"
  by (metis surj_pair)+

lemma run_request_ok:
  fixes s :: "('w, 'c, 'r, 'o, 't) hdfs_fs"
  assumes "fs_ok (add_mset p H) s"
  shows "\<exists>k s'. run_request N rq p s = Some (k, s') \<and> fs_ok (add_mset p H) s' \<and> connections s' = connections s \<and> cells s' = cells s"
proof -
  let ?arg = "snd (ParseHdfsPath (rq_url rq))" and ?q = "decode_lossy (c_str (snd (ParseHdfsPath (rq_url rq))))"
  obtain c where c: "clients (heap s) p = Some c" using fs_ok_held(2) [OF assms] by blast
  let ?body = "\<lambda>path. case rq_kind rq of
         Mkdir \<Rightarrow> answered (\<lambda>client st. hdfs_bridge_mkdirs N client path st) p
       | Remove recursive \<Rightarrow> answered (\<lambda>client st. hdfs_bridge_delete N client path recursive st) p
       | Check \<Rightarrow> with_info (\<lambda>info. answered (\<lambda>client st. hdfs_bridge_get_file_info N client path info st) p)"
  have "\<exists>k s'. with_arg ?arg ?body s = Some (k, s') \<and> fs_ok (add_mset p H) s' \<and> cells s' = cells s"
  proof (rule with_arg_ok [OF assms])
    fix a and s1 :: "('w, 'c, 'r, 'o, 't) hdfs_fs"
    assume s1: "fs_ok (add_mset p H) s1" "args (cells s) a = None" "cstrs (cells s) a = None"
      "cells s1 = (cells s)\<lparr>args := (args (cells s))(a \<mapsto> c_str ?arg)\<rparr>" "clients (heap s1) = clients (heap s)"
    have arg: "arg_at a (c_str ?arg) (cells s1)" unfolding s1(4) arg_at_def using s1(3) by simp
    have live: "clients (heap s1) p = Some c" using s1(5) c by simp
    have undone: "(cells s1)\<lparr>args := (args (cells s1))(a := None)\<rparr> = cells s"
      unfolding s1(4) using s1(2) by (simp add: fun_upd_idem)
    have "\<exists>k s2. ?body a s1 = Some (k, s2) \<and> fs_ok (add_mset p H) s2 \<and> cells s2 = cells s1"
    proof (cases "rq_kind rq")
      case Mkdir
      obtain r w where "spec_mkdirs N ?q c (cluster (heap s1)) = (r, w)" by (rule prod.exhaust)
      from answered_ok [OF mkdirs_serves _ s1(1) arg live this] show ?thesis
        using Mkdir by (auto simp: arg_at_def split: sum.splits)
    next
      case (Remove recursive)
      obtain r w where "spec_delete N recursive ?q c (cluster (heap s1)) = (r, w)" by (rule prod.exhaust)
      from answered_ok [OF delete_serves _ s1(1) arg live this] show ?thesis
        using Remove by (auto simp: arg_at_def split: sum.splits)
    next
      case Check
      have "\<exists>k s2. with_info (\<lambda>info. answered (\<lambda>client st. hdfs_bridge_get_file_info N client a info st) p) s1 = Some (k, s2) \<and>
          fs_ok (add_mset p H) s2 \<and> cells s2 = cells s1"
      proof (rule with_info_ok [OF s1(1)])
        fix i and s2 :: "('w, 'c, 'r, 'o, 't) hdfs_fs"
        assume s2: "fs_ok (add_mset p H) s2" "infos (cells s1) i = None" "cells s2 = (cells s1)\<lparr>infos := (infos (cells s1))(i \<mapsto> blank_info)\<rparr>"
          "clients (heap s2) = clients (heap s1)"
        have needs: "arg_at a (c_str ?arg) (cells s2) \<and> info_at i (cells s2)"
          unfolding s2(3) using arg by (simp add: arg_at_def info_at_def)
        have live2: "clients (heap s2) p = Some c" using s2(4) live by simp
        obtain r w where "spec_info N ?q c (cluster (heap s2)) = (r, w)" by (rule prod.exhaust)
        from answered_ok [OF info_serves _ s2(1) needs live2 this] obtain k s3 where
          s3: "answered (\<lambda>client st. hdfs_bridge_get_file_info N client a i st) p s2 = Some (k, s3)" "fs_ok (add_mset p H) s3"
          "cells s3 = (case r of Inl _ \<Rightarrow> cells s2 | Inr y \<Rightarrow> (cells s2)\<lparr>infos := (infos (cells s2))(i \<mapsto> info_of y)\<rparr>)"
          by (auto simp: arg_at_def info_at_def)
        have "(cells s3)\<lparr>infos := (infos (cells s3))(i := None)\<rparr> = cells s1"
          unfolding s3(3) s2(3) using s2(2) by (auto simp: fun_upd_idem split: sum.split)
        with s3(1,2) show "\<exists>k s3. answered (\<lambda>client st. hdfs_bridge_get_file_info N client a i st) p s2 = Some (k, s3) \<and>
            fs_ok (add_mset p H) s3 \<and> (cells s3)\<lparr>infos := (infos (cells s3))(i := None)\<rparr> = cells s1" by blast
      qed
      with Check show ?thesis by simp
    qed
    then obtain k s2 where s2: "?body a s1 = Some (k, s2)" "fs_ok (add_mset p H) s2" "cells s2 = cells s1" by blast
    have "(cells s2)\<lparr>args := (args (cells s2))(a := None)\<rparr> = cells s" unfolding s2(3) by (rule undone)
    with s2(1,2) show "\<exists>k s2. ?body a s1 = Some (k, s2) \<and> fs_ok (add_mset p H) s2 \<and>
        (cells s2)\<lparr>args := (args (cells s2))(a := None)\<rparr> = cells s" by blast
  qed
  then obtain k s' where "run_request N rq p s = Some (k, s')" "fs_ok (add_mset p H) s'" "cells s' = cells s"
    unfolding run_request_def by blast
  with run_request_connections show ?thesis by blast
qed

section \<open>The system\<close>

lemma holders_append: "holders (xs @ ys) = holders xs + holders ys"
  by (simp add: holders_def)

lemma holders_Cons: "holders (th # ths) = held_by (th_stage th) + holders ths"
  by (simp add: holders_def)

lemma holders_split:
  assumes "i < length ths"
  shows "\<exists>R. holders ths = held_by (th_stage (ths ! i)) + R \<and>
    (\<forall>g. holders (ths[i := (ths ! i)\<lparr>th_stage := g\<rparr>]) = held_by g + R)"
proof -
  let ?R = "holders (take i ths) + holders (drop (Suc i) ths)"
  have "ths = take i ths @ (ths ! i) # drop (Suc i) ths" by (rule id_take_nth_drop [OF assms])
  then have "holders ths = held_by (th_stage (ths ! i)) + ?R" by (metis (no_types) holders_append holders_Cons add.left_commute)
  moreover have "holders (ths[i := (ths ! i)\<lparr>th_stage := g\<rparr>]) = held_by g + ?R" for g
    unfolding upd_conv_take_nth_drop [OF assms] holders_append holders_Cons by (simp add: add.left_commute)
  ultimately show ?thesis by blast
qed

text \<open>What one step of a thread does: the others' clients stay alive, and no memory is lost.\<close>

lemma advance_ok:
  fixes s :: "('w, 'c, 'r, 'o, 't) hdfs_fs"
  assumes "fs_ok (held_by (th_stage th) + R) s" and "th_stage th = Looking \<or> connections s (authority_of (th_request th)) \<noteq> None"
    and "th_stage th \<noteq> Over"
  shows "\<exists>g s'. advance N th s = Some (g, s') \<and> fs_ok (held_by g + R) s' \<and> cells s' = cells s \<and>
    (g = Looking \<or> connections s' (authority_of (th_request th)) \<noteq> None) \<and>
    (\<forall>b. connections s b \<noteq> None \<longrightarrow> connections s' b \<noteq> None)"
proof (cases "th_stage th")
  case Looking
  have "fs_ok R s" using assms(1) Looking by simp
  from get_connection_ok [OF this, of "authority_of (th_request th)"] Looking show ?thesis
    by (auto simp: advance_def GetConnection_def split: option.splits)
next
  case (Asking attempt)
  have known: "connections s (authority_of (th_request th)) \<noteq> None" using assms(2) Asking by simp
  obtain q v where q: "abs_get N (authority_of (th_request th)) (view s) = (q, v)" by (rule prod.exhaust)
  have "fs_ok R s" using assms(1) Asking by simp
  from get_ok [OF this known q] obtain r s' where
    s': "Get N (authority_of (th_request th)) s = Some (r, s')" "cells s' = cells s" and
    r: "case q of Inl e \<Rightarrow> r = Inl e \<and> fs_ok R s' | Inr c \<Rightarrow> \<exists>p. r = Inr p \<and> fs_ok (add_mset p R) s' \<and> connections s' (authority_of (th_request th)) = Some p \<and> clients (heap s') p = Some c"
    by blast
  with connections_kept(1) [OF s'(1)] Asking show ?thesis
    using known by (auto simp: advance_def split: sum.splits)
next
  case (Calling attempt p)
  have "fs_ok (add_mset p R) s" using assms(1) Calling by simp
  from run_request_ok [OF this] obtain k s' where "run_request N (th_request th) p s = Some (k, s')" "fs_ok (add_mset p R) s'"
    "connections s' = connections s" "cells s' = cells s" by blast
  with Calling assms(2) show ?thesis by (auto simp: advance_def after_call_def)
next
  case (Stale p)
  let ?a = "authority_of (th_request th)"
  have ok: "fs_ok (add_mset p R) s" using assms(1) Stale by simp
  obtain q where q: "connections s ?a = Some q" using assms(2) Stale by auto
  show ?thesis
  proof (cases "q = p")
    case True
    from invalidate_ok [OF ok q [unfolded True] fs_ok_held(1) [OF ok]] obtain s' where
      "Invalidate ?a p s = Some s'" "fs_ok (add_mset p R) s'" "connections s' = (connections s)(?a \<mapsto> null)" "cells s' = cells s" by blast
    with Stale show ?thesis by (auto simp: advance_def)
  next
    case False
    with invalidate_other [OF q] ok q Stale show ?thesis by (simp add: advance_def)
  qed
next
  case (Leaving p again)
  have "fs_ok (add_mset p R) s" using assms(1) Leaving by simp
  from release_ok [OF this] Leaving assms(2) show ?thesis by (auto simp: advance_def)
qed (use assms(3) in simp)

lemma threads_step_ok:
  assumes "threads_ok c x" and "threads_step N x y"
  shows "threads_ok c y"
  using assms(2,1)
proof (induction rule: threads_step.induct)
  case (advanced i ths s g s')
  let ?th = "ths ! i"
  from holders_split [OF advanced(1)] obtain R where R: "holders ths = held_by (th_stage ?th) + R"
    "\<And>g. holders (ths[i := ?th\<lparr>th_stage := g\<rparr>]) = held_by g + R" by blast
  have going: "th_stage ?th \<noteq> Over" using advanced(2) by (auto simp: advance_def)
  have ok: "fs_ok (held_by (th_stage ?th) + R) s" "cells s = c"
    "th_stage ?th = Looking \<or> connections s (authority_of (th_request ?th)) \<noteq> None"
    using advanced(1,3) R(1) nth_mem [OF advanced(1)] by (simp_all add: threads_ok_def)
  from advance_ok [OF ok(1,3) going, of N] obtain g2 s2 where
    s2: "advance N ?th s = Some (g2, s2)" "fs_ok (held_by g2 + R) s2" "cells s2 = cells s"
    "g2 = Looking \<or> connections s2 (authority_of (th_request ?th)) \<noteq> None"
    "\<forall>b. connections s b \<noteq> None \<longrightarrow> connections s2 b \<noteq> None" by (elim exE conjE)
  have conn: "th_stage th = Looking \<or> connections s (authority_of (th_request th)) \<noteq> None" if "th \<in> set ths" for th
    using advanced(3) that by (simp add: threads_ok_def)
  have "th_stage th = Looking \<or> connections s2 (authority_of (th_request th)) \<noteq> None" if "th \<in> set (ths[i := ?th\<lparr>th_stage := g\<rparr>])" for th
  proof -
    have "th = ?th\<lparr>th_stage := g\<rparr> \<or> th \<in> set ths" using set_update_subset_insert [of ths i "?th\<lparr>th_stage := g\<rparr>"] that by blast
    then show ?thesis
    proof
      assume "th = ?th\<lparr>th_stage := g\<rparr>"
      with s2(1,4) advanced(2) show ?thesis by simp
    next
      assume "th \<in> set ths"
      with conn s2(5) show ?thesis by blast
    qed
  qed
  with s2(1-3) advanced(2) ok(2) R(2) show ?case by (simp add: threads_ok_def)
next
  case (changed ths s w)
  have "fs_ok (holders ths) (s\<lparr>heap := (heap s)\<lparr>cluster := w\<rparr>\<rparr>)"
    using changed fs_okD(1,3) [of "holders ths" s] by (intro fs_ok_heap) (auto simp: threads_ok_def heap_ok_def mem_ok_def cells_ok_def)
  with changed show ?case by (simp add: threads_ok_def)
qed

lemma threads_steps_ok: "threads_steps N x y \<Longrightarrow> threads_ok c x \<Longrightarrow> threads_ok c y"
  by (induction rule: rtranclp_induct) (auto intro: threads_step_ok)

text \<open>Threads that start their calls.\<close>

definition starting :: "request list \<Rightarrow> thread list" where
  "starting rqs = map (\<lambda>rq. \<lparr>th_request = rq, th_stage = Looking\<rparr>) rqs"

lemma holders_starting: "holders (starting rqs) = {#}"
  by (induction rqs) (simp_all add: starting_def holders_def)

lemma threads_starting:
  assumes "fs_ok {#} s"
  shows "threads_ok (cells s) (starting rqs, s)"
  using assms unfolding threads_ok_def prod.case holders_starting by (simp add: starting_def)

lemma thread_proceeds:
  assumes "threads_ok c (ths, s)" and "i < length ths" and "th_stage (ths ! i) \<noteq> Over"
  shows "\<exists>g s'. advance N (ths ! i) s = Some (g, s')"
proof -
  from holders_split [OF assms(2)] obtain R where "holders ths = held_by (th_stage (ths ! i)) + R" by blast
  then have "fs_ok (held_by (th_stage (ths ! i)) + R) s"
    "th_stage (ths ! i) = Looking \<or> connections s (authority_of (th_request (ths ! i))) \<noteq> None"
    using assms(1) nth_mem [OF assms(2)] by (simp_all add: threads_ok_def)
  from advance_ok [OF this assms(3), of N] show ?thesis by (elim ex_forward conjE)
qed

text \<open>Two threads that look at \<^verbatim>\<open>/d\<close> through a client that has lost its NameNode.\<close>

abbreviation demo_requests where
  "demo_requests \<equiv> [\<lparr>rq_url = lit ''/d'', rq_kind = Check\<rparr>, \<lparr>rq_url = lit ''/d'', rq_kind = Check\<rparr>]"

lemma demo_step:
  "\<exists>g s'. advance failover_native (starting demo_requests ! 0) failover_fs = Some (g, s') \<and>
     threads_step failover_native (starting demo_requests, failover_fs)
       ((starting demo_requests)[0 := (starting demo_requests ! 0)\<lparr>th_stage := g\<rparr>], s')"
proof -
  have "0 < length (starting demo_requests)" "th_stage (starting demo_requests ! 0) \<noteq> Over" by (simp_all add: starting_def)
  from thread_proceeds [OF threads_starting [OF failover_fs_ok] this] threads_step.advanced [OF this(1)]
  show ?thesis by blast
qed

text \<open>
  C27. Threads share a filesystem safely. However any number of calls of \<^verbatim>\<open>Execute\<close> are interleaved at
  the locks of their connections, and however the cluster changes in between: every client a thread
  holds is alive, no step is undefined, what the bridge wrote for one call is given back by it, and
  when all are over only the connections still hold clients.
\<close>

theorem threads_share_safely:
  fixes s0 :: "('w, 'c, 'r, 'o, 't) hdfs_fs"
  assumes "fs_ok {#} s0" and "threads_steps N (starting rqs, s0) (ths, s)"
  shows "fs_ok (holders ths) s \<and> cells s = cells s0 \<and>
    (\<forall>p. p \<in># holders ths \<longrightarrow> clients (heap s) p \<noteq> None) \<and>
    (\<forall>i < length ths. th_stage (ths ! i) \<noteq> Over \<longrightarrow> (\<exists>g s'. advance N (ths ! i) s = Some (g, s'))) \<and>
    ((\<forall>th \<in> set ths. th_stage th = Over) \<longrightarrow> fs_ok {#} s)"
proof -
  have ok: "threads_ok (cells s0) (ths, s)" by (rule threads_steps_ok [OF assms(2) threads_starting [OF assms(1)]])
  then have fs: "fs_ok (holders ths) s" "cells s = cells s0" by (simp_all add: threads_ok_def)
  have "clients (heap s) p \<noteq> None" if "p \<in># holders ths" for p
    using fs_ok_held(2) [of p "holders ths - {#p#}" s] fs(1) that by simp
  moreover have "holders ths = {#}" if "\<forall>th \<in> set ths. th_stage th = Over"
    using that by (induction ths) (simp_all add: holders_def)
  ultimately show ?thesis using fs thread_proceeds [OF ok] by auto
qed

theorem threads_share_safely_witness:
  "\<exists>ths s. threads_step failover_native (starting demo_requests, failover_fs) (ths, s) \<and> fs_ok (holders ths) s \<and>
     cells s = cells failover_fs"
proof -
  from demo_step obtain ths s where step: "threads_step failover_native (starting demo_requests, failover_fs) (ths, s)" by blast
  then have "threads_steps failover_native (starting demo_requests, failover_fs) (ths, s)" by blast
  with threads_share_safely [OF failover_fs_ok this] step show ?thesis by blast
qed

lemma advance_connections:
  assumes "advance N th s = Some (g, s')" and "connections s a = Some q" and "q \<noteq> null"
  shows "connections s' a = Some q \<or>
    connections s' a = Some null \<and> th_stage th = Stale q \<and> authority_of (th_request th) = a"
  using assms
  by (auto simp: advance_def GetConnection_def Get_def Invalidate_def retain_def Connect_def Let_def
      split: stage.splits option.splits bind_splits prod.splits sum.splits if_splits
      dest!: release_connections run_request_connections)

text \<open>
  C28. A client that another thread has put in place survives. In every reachable state, one step
  leaves the client of an authority in place and alive, unless it is the invalidation by a thread that
  failed with a connection error on that very client: a thread that failed on an older client does
  not take down the one a faster thread has reconnected.
\<close>

theorem reconnection_survives:
  fixes s0 :: "('w, 'c, 'r, 'o, 't) hdfs_fs"
  assumes "fs_ok {#} s0" and "threads_steps N (starting rqs, s0) (ths, s)" and "threads_step N (ths, s) (ths', s')"
    and "connections s a = Some q" and "q \<noteq> null"
  shows "connections s' a = Some q \<and> clients (heap s') q \<noteq> None \<or>
    connections s' a = Some null \<and> (\<exists>th \<in> set ths. th_stage th = Stale q \<and> authority_of (th_request th) = a)"
proof -
  have "threads_ok (cells s0) (ths, s)" by (rule threads_steps_ok [OF assms(2) threads_starting [OF assms(1)]])
  from threads_step_ok [OF this assms(3)] have "fs_ok (holders ths') s'" by (simp add: threads_ok_def)
  note alive = fs_ok_current [OF this]
  have "connections s' a = Some q \<or> connections s' a = Some null \<and> (\<exists>th \<in> set ths. th_stage th = Stale q \<and> authority_of (th_request th) = a)"
    by (rule threads_stepE [OF assms(3)]) (auto simp: assms(4) dest!: advance_connections [OF _ assms(4,5)] dest: nth_mem)
  with alive assms(5) show ?thesis by blast
qed

theorem reconnection_survives_witness:
  "\<exists>ths s. threads_step failover_native (starting demo_requests, failover_fs) (ths, s) \<and> connections s [] = Some 9 \<and>
     clients (heap s) 9 \<noteq> None"
proof -
  from demo_step obtain ths s where step: "threads_step failover_native (starting demo_requests, failover_fs) (ths, s)" by blast
  have "connections failover_fs [] = Some 9" by (simp add: failover_fs_def)
  from reconnection_survives [OF failover_fs_ok rtranclp.rtrancl_refl step this] step show ?thesis
    by (auto simp: starting_def)
qed

end
