(* ===== verification/Hdfs_Locks.thy ===== *)
theory Hdfs_Locks
  imports Hdfs_Threads
begin

text \<open>
  The mutexes of \<^verbatim>\<open>src/hdfs_filesystem.cpp\<close>: \<^verbatim>\<open>connections_mutex\<close>, which \<^verbatim>\<open>GetConnection\<close> holds, and the mutex
  of each \<^verbatim>\<open>HdfsConnection\<close>, which \<^verbatim>\<open>Get\<close> and \<^verbatim>\<open>Invalidate\<close> hold. Here they are part of the state: a
  thread waits until a mutex is free, looks at what the mutex guards, acts on what it saw, and gives
  the mutex back, and the other threads run in between. The results: the threads of \<open>Hdfs_Threads\<close>,
  whose sections are single steps, allow for every such run; no run gets stuck at a mutex; and every
  thread comes to its end.
\<close>

section \<open>Mutexes\<close>

datatype mutex = Registry | Connection cpp_string

text \<open>The mutex of the section a thread stands before or in.\<close>

fun mutex_of :: "cpp_string \<Rightarrow> stage \<Rightarrow> mutex option" where
  "mutex_of a Looking = Some Registry"
| "mutex_of a (Asking attempt) = Some (Connection a)"
| "mutex_of a (Stale p) = Some (Connection a)"
| "mutex_of a (Calling attempt p) = None"
| "mutex_of a (Leaving p again) = None"
| "mutex_of a Over = None"

text \<open>
  Outside of all sections; with the mutex of the section, before its test and after it; and at the end
  of the \<^verbatim>\<open>lock_guard\<close>, which an exception of \<^verbatim>\<open>Get\<close> passes, too.
\<close>

datatype phase = Apart | Entered | Decided bool | Closing mutex

text \<open>The tests: \<^verbatim>\<open>it == connections.end()\<close>, \<^verbatim>\<open>!client\<close> and \<^verbatim>\<open>client == stale\<close>.\<close>

fun test :: "stage \<Rightarrow> cpp_string \<Rightarrow> ('w, 'c, 'r, 'o, 't) hdfs_fs \<Rightarrow> bool" where
  "test Looking a s = (connections s a = None)"
| "test (Asking attempt) a s = (connections s a = Some null)"
| "test (Stale p) a s = (connections s a = Some p)"
| "test _ a s = False"

text \<open>What a thread does after the test, on what the test said.\<close>

definition act ::
  "('w, 'c, 'r, 'o, 't) hdfs_native \<Rightarrow> stage \<Rightarrow> cpp_string \<Rightarrow> bool \<Rightarrow> ('w, 'c, 'r, 'o, 't) hdfs_fs
     \<Rightarrow> (stage \<times> ('w, 'c, 'r, 'o, 't) hdfs_fs) option" where
  "act N g a b s =
     (case g of
        Looking \<Rightarrow> Some (Asking 0, if b then s\<lparr>connections := (connections s)(a \<mapsto> null)\<rparr> else s)
      | Asking attempt \<Rightarrow>
          if b then do {
            (r, s) \<leftarrow> Connect N a s;
            Some (case r of
                Inl e \<Rightarrow> (Over, s)
              | Inr raw \<Rightarrow> (Calling attempt raw, retain raw (s\<lparr>connections := (connections s)(a \<mapsto> raw)\<rparr>)))
          }
          else do { client \<leftarrow> connections s a; Some (Calling attempt client, retain client s) }
      | Stale p \<Rightarrow> do {
          s \<leftarrow> (if b then release p (s\<lparr>connections := (connections s)(a \<mapsto> null)\<rparr>) else Some s);
          Some (Leaving p True, s)
        }
      | _ \<Rightarrow> None)"

section \<open>Threads at mutexes\<close>

type_synonym ('w, 'c, 'r, 'o, 't) locked = "(thread \<times> phase) list \<times> (mutex \<rightharpoonup> nat) \<times> ('w, 'c, 'r, 'o, 't) hdfs_fs"

abbreviation at_stage :: "thread \<Rightarrow> stage \<Rightarrow> thread" where
  "at_stage th g \<equiv> th\<lparr>th_stage := g\<rparr>"

text \<open>The steps of thread \<open>i\<close>; the owner of a mutex is the index of a thread.\<close>

inductive move ::
  "('w, 'c, 'r, 'o, 't) hdfs_native \<Rightarrow> nat \<Rightarrow> ('w, 'c, 'r, 'o, 't) locked \<Rightarrow> ('w, 'c, 'r, 'o, 't) locked \<Rightarrow> bool"
  for N :: "('w, 'c, 'r, 'o, 't) hdfs_native" and i :: nat where
  taken: "i < length ths \<Longrightarrow> ths ! i = (th, Apart) \<Longrightarrow> mutex_of (authority_of (th_request th)) (th_stage th) = Some m \<Longrightarrow>
    own m = None \<Longrightarrow> move N i (ths, own, s) (ths[i := (th, Entered)], own(m \<mapsto> i), s)"
| tested: "i < length ths \<Longrightarrow> ths ! i = (th, Entered) \<Longrightarrow>
    move N i (ths, own, s) (ths[i := (th, Decided (test (th_stage th) (authority_of (th_request th)) s))], own, s)"
| acted: "i < length ths \<Longrightarrow> ths ! i = (th, Decided b) \<Longrightarrow> mutex_of (authority_of (th_request th)) (th_stage th) = Some m \<Longrightarrow>
    act N (th_stage th) (authority_of (th_request th)) b s = Some (g, s') \<Longrightarrow>
    move N i (ths, own, s) (ths[i := (at_stage th g, Closing m)], own, s')"
| given: "i < length ths \<Longrightarrow> ths ! i = (th, Closing m) \<Longrightarrow>
    move N i (ths, own, s) (ths[i := (th, Apart)], own(m := None), s)"
| alone: "i < length ths \<Longrightarrow> ths ! i = (th, Apart) \<Longrightarrow> mutex_of (authority_of (th_request th)) (th_stage th) = None \<Longrightarrow>
    advance N th s = Some (g, s') \<Longrightarrow>
    move N i (ths, own, s) (ths[i := (at_stage th g, Apart)], own, s')"

inductive_cases moveE: "move N i (ths, own, s) y"

text \<open>A run, with the number of steps that each thread has taken in it. The cluster may change at any time.\<close>

inductive locked_run ::
  "('w, 'c, 'r, 'o, 't) hdfs_native \<Rightarrow> ('w, 'c, 'r, 'o, 't) locked \<Rightarrow> (nat \<Rightarrow> nat) \<Rightarrow> ('w, 'c, 'r, 'o, 't) locked \<Rightarrow> bool"
  for N :: "('w, 'c, 'r, 'o, 't) hdfs_native" and x where
  run_begun: "locked_run N x (\<lambda>_. 0) x"
| run_moved: "locked_run N x ks y \<Longrightarrow> move N i y z \<Longrightarrow> locked_run N x (ks(i := Suc (ks i))) z"
| run_altered: "locked_run N x ks (ths, own, s) \<Longrightarrow> locked_run N x ks (ths, own, s\<lparr>heap := (heap s)\<lparr>cluster := w\<rparr>\<rparr>)"

definition locked_start :: "request list \<Rightarrow> ('w, 'c, 'r, 'o, 't) hdfs_fs \<Rightarrow> ('w, 'c, 'r, 'o, 't) locked" where
  "locked_start rqs s = (map (\<lambda>th. (th, Apart)) (starting rqs), Map.empty, s)"

text \<open>The mutex a thread holds.\<close>

fun holding_mutex :: "thread \<times> phase \<Rightarrow> mutex option" where
  "holding_mutex (th, Apart) = None"
| "holding_mutex (th, Closing m) = Some m"
| "holding_mutex (th, _) = mutex_of (authority_of (th_request th)) (th_stage th)"

section \<open>Sections are atomic\<close>

text \<open>What a step changes of the connections.\<close>

lemma advance_changes:
  assumes "advance N th s = Some (g, s')" and "connections s' b \<noteq> connections s b"
  shows "mutex_of (authority_of (th_request th)) (th_stage th) = Some Registry \<and> connections s b = None \<or>
    mutex_of (authority_of (th_request th)) (th_stage th) = Some (Connection b) \<and> connections s b \<noteq> None \<and> connections s' b \<noteq> None"
  using assms
  by (auto simp: advance_def GetConnection_def Get_def Invalidate_def retain_def Connect_def Let_def
      split: stage.splits option.splits bind_splits prod.splits sum.splits if_splits
      dest!: release_connections run_request_connections)

text \<open>As long as the test holds, acting on it is the whole section.\<close>

lemma act_is_advance:
  assumes "mutex_of (authority_of (th_request th)) (th_stage th) \<noteq> None"
    and "th_stage th = Looking \<or> connections s (authority_of (th_request th)) \<noteq> None"
  shows "act N (th_stage th) (authority_of (th_request th)) (test (th_stage th) (authority_of (th_request th)) s) s = advance N th s"
proof (cases "th_stage th")
  case Looking
  then show ?thesis by (auto simp: act_def advance_def GetConnection_def split: option.split)
next
  case (Asking attempt)
  with assms(2) obtain q where "connections s (authority_of (th_request th)) = Some q" by auto
  then show ?thesis using Asking
    by (cases "Connect N (authority_of (th_request th)) s") (auto simp: act_def advance_def Get_def split: sum.splits prod.splits)
next
  case (Stale p)
  with assms(2) obtain q where "connections s (authority_of (th_request th)) = Some q" by auto
  then show ?thesis using Stale by (auto simp: act_def advance_def Invalidate_def)
qed (use assms(1) in simp_all)

text \<open>The invariant: owners are the holders, and what a thread saw in its section is still so.\<close>

definition owners :: "(mutex \<rightharpoonup> nat) \<Rightarrow> (thread \<times> phase) list \<Rightarrow> bool" where
  "owners own ths \<longleftrightarrow> (\<forall>m i. own m = Some i \<longleftrightarrow> i < length ths \<and> holding_mutex (ths ! i) = Some m)"

definition phase_ok :: "('w, 'c, 'r, 'o, 't) hdfs_fs \<Rightarrow> thread \<times> phase \<Rightarrow> bool" where
  "phase_ok s x =
     (case x of (th, ph) \<Rightarrow>
       (case ph of
          Entered \<Rightarrow> mutex_of (authority_of (th_request th)) (th_stage th) \<noteq> None
        | Decided b \<Rightarrow> mutex_of (authority_of (th_request th)) (th_stage th) \<noteq> None \<and>
            b = test (th_stage th) (authority_of (th_request th)) s
        | _ \<Rightarrow> True))"

definition locks_ok :: "(unit, 'c, 'r, 'o, 't) mem \<Rightarrow> ('w, 'c, 'r, 'o, 't) locked \<Rightarrow> bool" where
  "locks_ok c x = (case x of (ths, own, s) \<Rightarrow>
     threads_ok c (map fst ths, s) \<and> owners own ths \<and> (\<forall>x \<in> set ths. phase_ok s x))"

lemma owners_update:
  assumes "owners own ths" and "i < length ths"
    and "\<And>m. own' m = (if holding_mutex x = Some m then Some i else if holding_mutex (ths ! i) = Some m then None else own m)"
    and "\<And>m. holding_mutex x = Some m \<Longrightarrow> own m = None \<or> own m = Some i"
  shows "owners own' (ths[i := x])"
  unfolding owners_def
proof (intro allI)
  fix m j
  have own: "own m = Some k \<longleftrightarrow> k < length ths \<and> holding_mutex (ths ! k) = Some m" for k
    using assms(1) by (simp add: owners_def)
  show "own' m = Some j \<longleftrightarrow> j < length (ths[i := x]) \<and> holding_mutex (ths[i := x] ! j) = Some m"
    using assms(2) own [of i] own [of j] assms(4) [of m] by (cases "j = i") (auto simp: assms(3))
qed

lemma phase_ok_stable:
  assumes "phase_ok s x" and "th_stage (fst x) = Looking \<or> connections s (authority_of (th_request (fst x))) \<noteq> None"
    and "m \<noteq> None \<Longrightarrow> holding_mutex x \<noteq> m"
    and "\<And>b. connections s' b \<noteq> connections s b \<Longrightarrow> m = Some Registry \<and> connections s b = None \<or>
      m = Some (Connection b) \<and> connections s b \<noteq> None \<and> connections s' b \<noteq> None"
  shows "phase_ok s' x"
proof -
  obtain th ph where x: "x = (th, ph)" by (rule prod.exhaust)
  let ?a = "authority_of (th_request th)"
  have "test (th_stage th) ?a s' = test (th_stage th) ?a s" if "holding_mutex x = mutex_of ?a (th_stage th)"
    using assms(2,3) assms(4) [of ?a] that unfolding x
    by (cases "th_stage th"; cases "connections s' ?a = connections s ?a") auto
  with assms(1) x show ?thesis by (cases ph) (auto simp: phase_ok_def)
qed

lemma holders_differ:
  assumes "owners own ths" and "i < length ths" and "j < length ths" and "i \<noteq> j" and "holding_mutex (ths ! i) = Some m"
  shows "holding_mutex (ths ! j) \<noteq> Some m"
proof -
  have "own m = Some i" using assms(1,2,5) by (simp add: owners_def)
  moreover have "own m = Some j" if "holding_mutex (ths ! j) = Some m" using assms(1,3) that by (simp add: owners_def)
  ultimately show ?thesis using assms(4) by auto
qed

text \<open>The rest of the threads after a step of the atomic threads.\<close>

lemma others_ok:
  assumes "locks_ok c (ths, own, s)" and "i < length ths" and "ths ! i = (th, ph)" and "advance N th s = Some (g, s')"
    and "mutex_of (authority_of (th_request th)) (th_stage th) = None \<or>
      holding_mutex (th, ph) = mutex_of (authority_of (th_request th)) (th_stage th)"
    and "phase_ok s' x"
  shows "\<forall>y \<in> set (ths[i := x]). phase_ok s' y"
proof
  have own: "owners own ths" using assms(1) by (simp add: locks_ok_def)
  fix y
  assume "y \<in> set (ths[i := x])"
  then obtain j where j: "j < length ths" "y = ths[i := x] ! j" by (auto simp: in_set_conv_nth)
  show "phase_ok s' y"
  proof (cases "j = i")
    case True
    with j assms(6) show ?thesis by simp
  next
    case False
    then have y: "y = ths ! j" using j by simp
    let ?m = "mutex_of (authority_of (th_request th)) (th_stage th)"
    have "holding_mutex y \<noteq> ?m" if "?m \<noteq> None"
      using assms(3,5) that holders_differ [OF own assms(2) j(1) False [symmetric]] unfolding y by auto
    moreover have "phase_ok s y" using assms(1) j(1) y by (simp add: locks_ok_def)
    moreover have "th_stage (fst y) = Looking \<or> connections s (authority_of (th_request (fst y))) \<noteq> None"
      using assms(1) j(1) unfolding y locks_ok_def threads_ok_def by fastforce
    ultimately show ?thesis
      using advance_changes [OF assms(4)] by (intro phase_ok_stable [of s y ?m s']) auto
  qed
qed

definition atomic :: "('w, 'c, 'r, 'o, 't) locked \<Rightarrow> thread list \<times> ('w, 'c, 'r, 'o, 't) hdfs_fs" where
  "atomic x = (case x of (ths, own, s) \<Rightarrow> (map fst ths, s))"

lemma stays_put:
  assumes "locks_ok c (ths, own, s)" and "i < length ths" and "fst x = fst (ths ! i)" and "phase_ok s x"
    and "\<And>m. own' m = (if holding_mutex x = Some m then Some i else if holding_mutex (ths ! i) = Some m then None else own m)"
    and "\<And>m. holding_mutex x = Some m \<Longrightarrow> own m = None \<or> own m = Some i"
  shows "locks_ok c (ths[i := x], own', s) \<and> atomic (ths[i := x], own', s) = atomic (ths, own, s)"
proof -
  have "map fst (ths[i := x]) = map fst ths"
    using assms(2,3) by (simp add: map_update list_update_same_conv)
  moreover have "\<forall>y \<in> set (ths[i := x]). phase_ok s y"
    using assms(1,4) set_update_subset_insert [of ths i x] by (auto simp: locks_ok_def)
  moreover have "owners own' (ths[i := x])"
    using assms(1) by (intro owners_update [OF _ assms(2,5,6)]) (simp add: locks_ok_def)
  ultimately show ?thesis using assms(1) by (simp add: locks_ok_def atomic_def)
qed

lemma goes_on:
  assumes "locks_ok c (ths, own, s)" and "i < length ths" and "ths ! i = (th, ph)" and "advance N th s = Some (g, s')"
    and "mutex_of (authority_of (th_request th)) (th_stage th) = None \<or>
      holding_mutex (th, ph) = mutex_of (authority_of (th_request th)) (th_stage th)"
    and "phase_ok s' (at_stage th g, ph')" and "holding_mutex (at_stage th g, ph') = holding_mutex (th, ph)"
  shows "locks_ok c (ths[i := (at_stage th g, ph')], own, s') \<and>
    threads_step N (atomic (ths, own, s)) (atomic (ths[i := (at_stage th g, ph')], own, s'))"
proof -
  have own: "owners own ths" and ok: "threads_ok c (map fst ths, s)" using assms(1) by (simp_all add: locks_ok_def)
  have "threads_step N (map fst ths, s) ((map fst ths)[i := at_stage (map fst ths ! i) g], s')"
    using assms(2-4) by (intro threads_step.advanced) simp_all
  then have step: "threads_step N (map fst ths, s) (map fst (ths[i := (at_stage th g, ph')]), s')"
    using assms(2,3) by (simp add: map_update)
  have "owners own (ths[i := (at_stage th g, ph')])"
  proof (rule owners_update [OF own assms(2)])
    have "own m = Some i \<longleftrightarrow> holding_mutex (th, ph) = Some m" for m using own assms(2,3) by (auto simp: owners_def)
    then show "\<And>m. own m = (if holding_mutex (at_stage th g, ph') = Some m then Some i
        else if holding_mutex (ths ! i) = Some m then None else own m)"
      "\<And>m. holding_mutex (at_stage th g, ph') = Some m \<Longrightarrow> own m = None \<or> own m = Some i"
      using assms(3,7) by auto
  qed
  with step others_ok [OF assms(1-6)] threads_step_ok [OF ok step] show ?thesis by (simp add: locks_ok_def atomic_def)
qed

lemma move_ok:
  assumes "locks_ok c x" and "move N i x y"
  shows "locks_ok c y \<and> (atomic y = atomic x \<or> threads_step N (atomic x) (atomic y))"
  using assms(2,1)
proof (induction rule: move.induct)
  case (taken ths th m own s)
  then show ?case
    using stays_put [OF taken(5,1), of "(th, Entered)" "own(m \<mapsto> i)"] by (auto simp: phase_ok_def)
next
  case (tested ths th own s)
  let ?x = "(th, Decided (test (th_stage th) (authority_of (th_request th)) s))"
  have "phase_ok s (ths ! i)" "owners own ths" using tested(1,3) by (simp_all add: locks_ok_def)
  then have "phase_ok s ?x" "\<And>m. holding_mutex ?x = Some m \<longleftrightarrow> own m = Some i"
    using tested(1,2) by (auto simp: phase_ok_def owners_def)
  then show ?case using stays_put [OF tested(3,1), of ?x own] tested(2) by auto
next
  case (acted ths th b m s g s' own)
  have "phase_ok s (ths ! i)" using acted(1,5) by (simp add: locks_ok_def)
  then have b: "b = test (th_stage th) (authority_of (th_request th)) s" using acted(2) by (simp add: phase_ok_def)
  have "map fst ths ! i \<in> set (map fst ths)" using acted(1) by (intro nth_mem) simp
  then have "th_stage th = Looking \<or> connections s (authority_of (th_request th)) \<noteq> None"
    using acted(1,2,5) by (auto simp: locks_ok_def threads_ok_def)
  with acted(3,4) act_is_advance [of th s N] have "advance N th s = Some (g, s')" unfolding b by simp
  from goes_on [OF acted(5,1,2) this, of "Closing m"] acted(3) show ?case by (simp add: phase_ok_def)
next
  case (given ths th m own s)
  have "own m' = Some i \<longleftrightarrow> m' = m" for m' using given by (auto simp: locks_ok_def owners_def)
  then show ?case using stays_put [OF given(3,1), of "(th, Apart)" "own(m := None)"] given(2) by (auto simp: phase_ok_def)
next
  case (alone ths th s g s' own)
  from goes_on [OF alone(5,1,2,4), of Apart] alone(3) show ?case by (simp add: phase_ok_def)
qed

lemma altered_ok:
  assumes "locks_ok c (ths, own, s)"
  shows "locks_ok c (ths, own, s\<lparr>heap := (heap s)\<lparr>cluster := w\<rparr>\<rparr>)"
proof -
  have "threads_ok c (map fst ths, s\<lparr>heap := (heap s)\<lparr>cluster := w\<rparr>\<rparr>)"
    using threads_step_ok [OF _ threads_step.changed, of c "map fst ths" s] assms by (simp add: locks_ok_def)
  moreover have "phase_ok (s\<lparr>heap := (heap s)\<lparr>cluster := w\<rparr>\<rparr>) x" if "phase_ok s x" for x
  proof -
    have "test g a (s\<lparr>heap := (heap s)\<lparr>cluster := w\<rparr>\<rparr>) = test g a s" for g a by (cases g) simp_all
    with that show ?thesis by (auto simp: phase_ok_def split: phase.splits prod.splits)
  qed
  ultimately show ?thesis using assms by (simp add: locks_ok_def)
qed

lemma locked_run_ok:
  "locked_run N x ks y \<Longrightarrow> locks_ok c x \<Longrightarrow> locks_ok c y \<and> threads_steps N (atomic x) (atomic y)"
proof (induction rule: locked_run.induct)
  case (run_moved ks y i z)
  then have "locks_ok c y" "threads_steps N (atomic x) (atomic y)" by simp_all
  with move_ok [OF this(1) run_moved(2)] show ?case by (metis rtranclp.rtrancl_into_rtrancl)
next
  case (run_altered ks ths own s w)
  then have "locks_ok c (ths, own, s)" "threads_steps N (atomic x) (map fst ths, s)" by (simp_all add: atomic_def)
  with altered_ok [OF this(1)] show ?case
    by (simp add: atomic_def rtranclp.rtrancl_into_rtrancl threads_step.changed)
qed simp

lemma locked_start_ok:
  assumes "fs_ok {#} s"
  shows "locks_ok (cells s) (locked_start rqs s)" "atomic (locked_start rqs s) = (starting rqs, s)"
  using threads_starting [OF assms, of rqs]
  by (auto simp: locked_start_def locks_ok_def atomic_def owners_def phase_ok_def comp_def)

section \<open>No run gets stuck\<close>

definition finished :: "(thread \<times> phase) list \<Rightarrow> bool" where
  "finished ths \<longleftrightarrow> (\<forall>x \<in> set ths. th_stage (fst x) = Over \<and> snd x = Apart)"

text \<open>A thread that has a mutex, or needs none, can go on.\<close>

lemma thread_moves:
  assumes "locks_ok c (ths, own, s)" and "i < length ths" and "th_stage (fst (ths ! i)) \<noteq> Over \<or> snd (ths ! i) \<noteq> Apart"
    and "snd (ths ! i) = Apart \<Longrightarrow> \<forall>m. mutex_of (authority_of (th_request (fst (ths ! i)))) (th_stage (fst (ths ! i))) = Some m \<longrightarrow> own m = None"
  shows "\<exists>y. move N i (ths, own, s) y"
proof -
  obtain th ph where th: "ths ! i = (th, ph)" by (rule prod.exhaust)
  have ok: "threads_ok c (map fst ths, s)" "phase_ok s (th, ph)"
    using assms(1) nth_mem [OF assms(2)] unfolding th locks_ok_def by simp_all
  have goes: "\<exists>g s'. advance N th s = Some (g, s')" if "th_stage th \<noteq> Over"
    using thread_proceeds [OF ok(1), of i N] assms(2) th that by simp
  show ?thesis
  proof (cases ph)
    case Apart
    show ?thesis
    proof (cases "mutex_of (authority_of (th_request th)) (th_stage th)")
      case None
      from goes obtain g s' where "advance N th s = Some (g, s')" using assms(3) th Apart by auto
      from alone [OF assms(2) th [unfolded Apart] None this] show ?thesis by blast
    next
      case (Some m)
      with assms(4) th Apart have "own m = None" by simp
      from taken [where own = own, OF assms(2) th [unfolded Apart] Some this] show ?thesis by blast
    qed
  next
    case Entered
    from tested [OF assms(2) th [unfolded this]] show ?thesis by blast
  next
    case (Decided b)
    with ok(2) obtain m where m: "mutex_of (authority_of (th_request th)) (th_stage th) = Some m"
      "b = test (th_stage th) (authority_of (th_request th)) s" by (auto simp: phase_ok_def)
    have "map fst ths ! i \<in> set (map fst ths)" using assms(2) by (intro nth_mem) simp
    then have "th_stage th = Looking \<or> connections s (authority_of (th_request th)) \<noteq> None"
      using assms(2) th ok(1) by (auto simp: threads_ok_def)
    with act_is_advance [of th s N] m(1) have "act N (th_stage th) (authority_of (th_request th)) b s = advance N th s"
      unfolding m(2) by simp
    moreover have "th_stage th \<noteq> Over" using m(1) by auto
    ultimately obtain g s' where "act N (th_stage th) (authority_of (th_request th)) b s = Some (g, s')" using goes by auto
    from acted [OF assms(2) th [unfolded Decided] m(1) this] show ?thesis by blast
  next
    case (Closing m)
    from given [OF assms(2) th [unfolded this]] show ?thesis by blast
  qed
qed

lemma some_thread_moves:
  assumes "locks_ok c (ths, own, s)" and "\<not> finished ths"
  shows "\<exists>i y. move N i (ths, own, s) y"
proof -
  obtain i where i: "i < length ths" "th_stage (fst (ths ! i)) \<noteq> Over \<or> snd (ths ! i) \<noteq> Apart"
    using assms(2) by (auto simp: finished_def in_set_conv_nth)
  show ?thesis
  proof (cases "\<exists>m j. snd (ths ! i) = Apart \<and> own m = Some j")
    case False
    with thread_moves [OF assms(1) i, of N] show ?thesis by auto
  next
    case True
    then obtain m j where "own m = Some j" by blast
    then have "j < length ths" "holding_mutex (ths ! j) = Some m" using assms(1) by (auto simp: locks_ok_def owners_def)
    moreover from this(2) have "snd (ths ! j) \<noteq> Apart" by (cases "ths ! j") auto
    ultimately show ?thesis using thread_moves [OF assms(1), of j N] by auto
  qed
qed

section \<open>Every thread comes to its end\<close>

text \<open>How many steps a thread has before it, at most: from the outside, and in its phase.\<close>

fun stage_left :: "stage \<Rightarrow> nat" where
  "stage_left Looking = 20"
| "stage_left (Asking attempt) = (if attempt = 0 then 16 else 6)"
| "stage_left (Calling attempt p) = (if attempt = 0 then 12 else 2)"
| "stage_left (Stale p) = 11"
| "stage_left (Leaving p again) = (if again then 7 else 1)"
| "stage_left Over = 0"

fun steps_left :: "thread \<times> phase \<Rightarrow> nat" where
  "steps_left (th, Apart) = stage_left (th_stage th)"
| "steps_left (th, Entered) = stage_left (th_stage th) - 1"
| "steps_left (th, Decided b) = stage_left (th_stage th) - 2"
| "steps_left (th, Closing m) = stage_left (th_stage th) + 1"

lemma advance_left:
  "advance N th s = Some (g, s') \<Longrightarrow> mutex_of (authority_of (th_request th)) (th_stage th) = None \<Longrightarrow>
     stage_left g < stage_left (th_stage th)"
  by (auto simp: advance_def after_call_def split: stage.splits bind_splits prod.splits sum.splits if_splits)

lemma act_left: "act N g a b s = Some (g', s') \<Longrightarrow> stage_left g' + 4 \<le> stage_left g"
  by (auto simp: act_def split: stage.splits bind_splits prod.splits sum.splits if_splits)

lemma section_left: "mutex_of a g = Some m \<Longrightarrow> 4 \<le> stage_left g"
  by (cases g) auto

lemma move_left:
  assumes "locks_ok c x" and "move N i x y"
  shows "i < length (fst x) \<and> (\<exists>th. fst y = (fst x)[i := th] \<and> steps_left th < steps_left (fst x ! i))"
  using assms(2,1)
proof (induction rule: move.induct)
  case (taken ths th m own s)
  with section_left show ?case by fastforce
next
  case (tested ths th own s)
  then have "phase_ok s (th, Entered)" unfolding tested(2) [symmetric] by (simp add: locks_ok_def)
  then obtain m where "mutex_of (authority_of (th_request th)) (th_stage th) = Some m" by (auto simp: phase_ok_def)
  from section_left [OF this] have
    "steps_left (th, Decided (test (th_stage th) (authority_of (th_request th)) s)) < steps_left (ths ! i)"
    unfolding tested(2) by simp
  with tested(1) show ?case by (auto simp del: split_paired_Ex)
next
  case (acted ths th b m s g s' own)
  from act_left [OF acted(4)] have "steps_left (at_stage th g, Closing m) < steps_left (ths ! i)"
    unfolding acted(2) by simp
  with acted(1) show ?case by (auto simp del: split_paired_Ex)
next
  case (alone ths th s g s' own)
  from advance_left [OF alone(4,3)] have "steps_left (at_stage th g, Apart) < steps_left (ths ! i)"
    unfolding alone(2) by simp
  with alone(1) show ?case by (auto simp del: split_paired_Ex)
qed (auto simp del: split_paired_Ex)

lemma run_left:
  assumes "locked_run N x ks y" and "locks_ok c x"
  shows "length (fst y) = length (fst x) \<and>
    (if i < length (fst x) then ks i + steps_left (fst y ! i) \<le> steps_left (fst x ! i) else ks i = 0)"
  using assms
proof (induction rule: locked_run.induct)
  case (run_moved ks y j z)
  have "locks_ok c y" using locked_run_ok [OF run_moved(1,4)] by blast
  from move_left [OF this run_moved(2)] obtain th where
    "j < length (fst y)" "fst z = (fst y)[j := th]" "steps_left th < steps_left (fst y ! j)" by blast
  with run_moved(3,4) show ?case by (cases "i = j") (auto split: if_splits)
qed auto

definition all_left :: "(thread \<times> phase) list \<Rightarrow> nat" where
  "all_left ths = sum_list (map steps_left ths)"

lemma all_left_update:
  assumes "i < length ths" and "steps_left th < steps_left (ths ! i)"
  shows "all_left (ths[i := th]) < all_left ths"
proof -
  have "all_left ths = all_left (take i ths) + (steps_left (ths ! i) + all_left (drop (Suc i) ths))"
    using arg_cong [OF id_take_nth_drop [OF assms(1)], of all_left] by (simp add: all_left_def)
  with assms show ?thesis by (simp add: all_left_def upd_conv_take_nth_drop)
qed

abbreviation some_move where
  "some_move N x y \<equiv> \<exists>i. move N i x y"

lemma finished_holds_nothing:
  assumes "locks_ok c (ths, own, s)" and "finished ths"
  shows "own = Map.empty \<and> fs_ok {#} s \<and> cells s = c"
proof -
  have none: "holding_mutex (ths ! i) = None" if "i < length ths" for i
    using assms(2) nth_mem [OF that] by (cases "ths ! i") (auto simp: finished_def)
  then have "own m = None" for m using assms(1) none by (cases "own m") (auto simp: locks_ok_def owners_def)
  moreover have "holders (map fst ths) = {#}" using assms(2) by (induction ths) (simp_all add: finished_def holders_def)
  ultimately show ?thesis using assms(1) by (auto simp: locks_ok_def threads_ok_def)
qed

lemma inevitably_finished:
  fixes x :: "('w, 'c, 'r, 'o, 't) locked"
  assumes "locks_ok c x"
  shows "inevitably (some_move N) (\<lambda>(ths, own, s). finished ths \<and> own = Map.empty \<and> fs_ok {#} s \<and> cells s = c) x"
proof (rule inevitably_wf [where D = "measure (\<lambda>x. all_left (fst x))" and I = "locks_ok c", OF wf_measure])
  fix x y :: "('w, 'c, 'r, 'o, 't) locked"
  assume x: "locks_ok c x" and "some_move N x y"
  then obtain i where i: "move N i x y" by blast
  from move_left [OF x i] obtain th where "i < length (fst x)" "fst y = (fst x)[i := th]" "steps_left th < steps_left (fst x ! i)" by blast
  with all_left_update move_ok [OF x i] show "(y, x) \<in> measure (\<lambda>x. all_left (fst x)) \<and> locks_ok c y" by auto
next
  fix x :: "('w, 'c, 'r, 'o, 't) locked"
  assume x: "locks_ok c x" and not: "\<not> (case x of (ths, own, s) \<Rightarrow> finished ths \<and> own = Map.empty \<and> fs_ok {#} s \<and> cells s = c)"
  obtain ths own s where xs: "x = (ths, own, s)" by (metis prod_cases3)
  with x not finished_holds_nothing have "\<not> finished ths" by auto
  with some_thread_moves x xs show "\<exists>y. some_move N x y" by blast
qed (rule assms)

section \<open>Properties\<close>

text \<open>
  C29. The mutexes make the sections atomic. However the threads are interleaved at and inside the
  sections that the mutexes guard, at most one thread is in the sections of a mutex, what a thread saw
  when it tested the connections still holds when it acts on it, and the run is one of the threads
  whose \<^verbatim>\<open>GetConnection\<close>, \<^verbatim>\<open>Get\<close> and \<^verbatim>\<open>Invalidate\<close> are single steps.
\<close>

theorem sections_are_atomic:
  assumes "fs_ok {#} s0" and "locked_run N (locked_start rqs s0) ks (ths, own, s)"
  shows "threads_steps N (starting rqs, s0) (map fst ths, s) \<and>
    (\<forall>i j m. i < length ths \<and> j < length ths \<and> holding_mutex (ths ! i) = Some m \<and> holding_mutex (ths ! j) = Some m \<longrightarrow> i = j) \<and>
    (\<forall>th b. (th, Decided b) \<in> set ths \<longrightarrow> b = test (th_stage th) (authority_of (th_request th)) s)"
proof -
  from locked_run_ok [OF assms(2) locked_start_ok(1) [OF assms(1)]]
  have ok: "locks_ok (cells s0) (ths, own, s)" and steps: "threads_steps N (starting rqs, s0) (map fst ths, s)"
    using locked_start_ok(2) [OF assms(1), of rqs] by (simp_all add: atomic_def)
  have "b = test (th_stage th) (authority_of (th_request th)) s" if "(th, Decided b) \<in> set ths" for th b
    using ok that unfolding locks_ok_def prod.case by (auto simp: phase_ok_def dest!: bspec)
  with steps holders_differ [of own ths] ok show ?thesis by (auto simp: locks_ok_def)
qed

lemma first_lock:
  assumes "i < length rqs"
  shows "move N i (locked_start rqs s) ((fst (locked_start rqs s))[i := (starting rqs ! i, Entered)], [Registry \<mapsto> i], s)"
  using assms by (auto simp: locked_start_def starting_def intro!: move.taken)

theorem sections_are_atomic_witness:
  "\<exists>ths s. locked_run failover_native (locked_start demo_requests failover_fs) ((\<lambda>_. 0)(1 := Suc 0)) (ths, [Registry \<mapsto> 1], s) \<and>
     threads_steps failover_native (starting demo_requests, failover_fs) (map fst ths, s)"
proof -
  have "1 < length demo_requests" by simp
  note run = run_moved [OF run_begun first_lock [OF this]]
  from sections_are_atomic [OF failover_fs_ok run] run show ?thesis by blast
qed

text \<open>
  C30. The threads finish, with their mutexes. Whatever the cluster does, a thread takes at most twenty
  steps, those at mutexes included, so it tries at most twice; in every state that a run can reach some
  thread can take a step, so the mutexes cannot deadlock; and every way to go on reaches the state where
  all threads are over, all mutexes are free and everything but the connections is as it was.
\<close>

theorem threads_finish:
  fixes s0 :: "('w, 'c, 'r, 'o, 't) hdfs_fs"
  assumes "fs_ok {#} s0" and "locked_run N (locked_start rqs s0) ks (ths, own, s)"
  shows "(\<forall>i. ks i \<le> 20) \<and> (finished ths \<or> (\<exists>i y. move N i (ths, own, s) y)) \<and>
    inevitably (some_move N) (\<lambda>(ths, own, s). finished ths \<and> own = Map.empty \<and> fs_ok {#} s \<and> cells s = cells s0) (ths, own, s)"
proof (intro conjI allI)
  note start = locked_start_ok(1) [OF assms(1), of rqs]
  have ok: "locks_ok (cells s0) (ths, own, s)" using locked_run_ok [OF assms(2) start] by blast
  show "ks i \<le> 20" for i
    using run_left [OF assms(2) start, of i] by (auto simp: locked_start_def starting_def split: if_splits)
  show "finished ths \<or> (\<exists>i y. move N i (ths, own, s) y)" using some_thread_moves [OF ok] by blast
  show "inevitably (some_move N) (\<lambda>(ths, own, s). finished ths \<and> own = Map.empty \<and> fs_ok {#} s \<and> cells s = cells s0) (ths, own, s)"
    by (rule inevitably_finished [OF ok])
qed

theorem threads_finish_witness:
  "inevitably (some_move failover_native) (\<lambda>(ths, own, s). finished ths \<and> own = Map.empty \<and> fs_ok {#} s \<and> cells s = cells failover_fs)
     (locked_start demo_requests failover_fs)"
proof -
  obtain ths own s where x: "locked_start demo_requests failover_fs = (ths, own, s)" by (metis prod_cases3)
  have "locked_run failover_native (locked_start demo_requests failover_fs) (\<lambda>_. 0) (ths, own, s)"
    unfolding x by (rule run_begun)
  from threads_finish [OF failover_fs_ok this] show ?thesis unfolding x by blast
qed

end
