(* ===== verification/Glob_Tests.thy ===== *)
theory Glob_Tests
  imports Walk "HOL-Library.List_Lexorder"
begin

text \<open>
  The unit tests of \<^verbatim>\<open>hdfs-bridge/src/glob.rs\<close> (module \<^verbatim>\<open>test\<close>) with their helper \<^verbatim>\<open>run_walk\<close>,
  evaluated on the model: a check that the definitions compute what the repository says the code
  computes. \<^verbatim>\<open>run_walk\<close> is a sequential stand-in for the walk; that it stands for the walk of the
  bridge, for every parallelism and schedule, is the theorem of this theory.
\<close>

section \<open>Components and braces\<close>

definition component_case :: "string \<times> string \<times> bool \<Rightarrow> bool" where
  "component_case t = (case t of (name, p, expected) \<Rightarrow> match_component (lit name) (lit p) = Some expected)"

definition component_matching :: bool where
  "component_matching = list_all component_case [(''file.txt'', ''*.txt'', True),
    (''file.jpg'', ''*.txt'', False),
    (''file.txt'', ''*'', True),
    ([], ''*'', True),
    (''abc'', ''a**c'', True),
    (''ac'', ''a*c'', True),
    (''ab'', ''a*c'', False),
    (''data1.csv'', ''data?.csv'', True),
    (''data12.csv'', ''data?.csv'', False),
    (''data.csv'', ''data?.csv'', False),
    (''a.txt'', ''[abc].txt'', True),
    (''d.txt'', ''[abc].txt'', False),
    (''file3.txt'', ''file[0-9].txt'', True),
    (''filex.txt'', ''file[0-9].txt'', False),
    (''b.txt'', ''[!a].txt'', True),
    (''a.txt'', ''[!a].txt'', False),
    (''a-b'', ''a[x-]b'', True),
    ('']'', ''[]]'', True),
    (''file*name'', ''file'' @ CHR 0x5C # ''*name'', True),
    (''fileXname'', ''file'' @ CHR 0x5C # ''*name'', False),
    (''file['', ''file['', False),
    (''abc'', ''abc'' @ CHR 0x5C # [], False)]"

lemma component_matching_holds: component_matching
  by code_simp

definition braces_case :: "string \<times> string list \<Rightarrow> bool" where
  "braces_case t = (case t of (p, expected) \<Rightarrow> expand_braces (lit p) = Some (Inr (map lit expected)))"

definition brace_expansion :: bool where
  "brace_expansion \<longleftrightarrow> list_all braces_case [(''/a/b'', [''/a/b'']),
    (''/a/{b,c}'', [''/a/b'', ''/a/c'']),
    (''/{a/b,c/d}/e'', [''/a/b/e'', ''/c/d/e'']),
    (''/{a,{b,c}}'', [''/a'', ''/b'', ''/c'']),
    (''/{a,b}/{c,d}'', [''/a/c'', ''/a/d'', ''/b/c'', ''/b/d'']),
    (''/a/'' @ CHR 0x5C # ''{b,c'' @ CHR 0x5C # ''}'', [''/a/'' @ CHR 0x5C # ''{b,c'' @ CHR 0x5C # ''}'']),
    (''/a/b}'', [''/a/b}''])] \<and>
     (case expand_braces (lit ''/a/{b,c'') of Some (Inl _) \<Rightarrow> True | _ \<Rightarrow> False)"

lemma brace_expansion_holds: brace_expansion
  by code_simp

section \<open>Plans\<close>

text \<open>Root, number of initial positions, and whether the root itself matches.\<close>

definition plan_case :: "string \<times> string \<times> nat \<times> bool \<Rightarrow> bool" where
  "plan_case t = (case t of (p, root, n, em) \<Rightarrow>
     (case parse (lit p) False of
        Some (Inr plan) \<Rightarrow> plan_root plan = lit root \<and> length (plan_initial plan) = n \<and> plan_emit_root plan = em
      | _ \<Rightarrow> False))"

definition plan_roots :: bool where
  "plan_roots \<longleftrightarrow> list_all plan_case [(''/warehouse/db/table/*.parquet'', ''/warehouse/db/table'', 1, False),
    (''/a/file'' @ CHR 0x5C # ''*name'', ''/a/file*name'', 0, True),
    (''/data/{2024/01,2025/02}/part-*'', ''/data'', 2, False)] \<and>
     (case parse (lit ''/a/**/b/**'') False of Some (Inl _) \<Rightarrow> True | _ \<Rightarrow> False)"

lemma plan_roots_holds: plan_roots
  by code_simp

text \<open>One \<open>**\<close> in each brace alternative is accepted: the limit is per expansion.\<close>

lemma crawl_per_alternative: "case parse (lit ''/{a/**,b/**}'') False of Some (Inr _) \<Rightarrow> True | _ \<Rightarrow> False"
  by code_simp

section \<open>Sequential walks\<close>

text \<open>A tree: the children of each directory as (name, is a directory).\<close>

type_synonym tree = "(string \<times> (string \<times> bool) list) list"

definition children_of :: "tree \<Rightarrow> rstring \<Rightarrow> (rstring \<times> bool) list" where
  "children_of t path =
     (case find (\<lambda>(p, _). lit p = path) t of Some (_, cs) \<Rightarrow> map (\<lambda>(n, d). (lit n, d)) cs | None \<Rightarrow> [])"

definition child_path :: "rstring \<Rightarrow> rstring \<Rightarrow> rstring" where
  "child_path path name = (if path = lit ''/'' then ch_slash # name else path @ ch_slash # name)"

text \<open>The loop over the children of one directory; the queue is a stack that grows at its end.\<close>

fun take_children ::
  "GlobPlan \<Rightarrow> rstring \<Rightarrow> Pos list \<Rightarrow> (rstring \<times> bool) list \<Rightarrow> rstring list \<Rightarrow> (rstring \<times> Pos list) list
     \<Rightarrow> (rstring list \<times> (rstring \<times> Pos list) list) option" where
  "take_children plan path states [] emitted queue = Some (emitted, queue)"
| "take_children plan path states ((name, is_dir) # cs) emitted queue =
     do {
       st \<leftarrow> step plan states name is_dir;
       take_children plan path states cs
         (if emit st then emitted @ [child_path path name] else emitted)
         (if is_dir \<and> next_states st \<noteq> [] then queue @ [(child_path path name, next_states st)] else queue)
     }"

partial_function (option) run_walk_loop ::
  "GlobPlan \<Rightarrow> tree \<Rightarrow> rstring list \<Rightarrow> (rstring \<times> Pos list) list \<Rightarrow> rstring list option" where
  "run_walk_loop plan t emitted queue =
     (if queue = [] then Some emitted
      else do {
        (emitted, queue) \<leftarrow> take_children plan (fst (last queue)) (snd (last queue))
          (children_of t (fst (last queue))) emitted (butlast queue);
        run_walk_loop plan t emitted queue
      })"

declare run_walk_loop.simps [code]

definition run_walk :: "GlobPlan \<Rightarrow> tree \<Rightarrow> rstring list option" where
  "run_walk plan t = map_option sort (run_walk_loop plan t [] [(plan_root plan, plan_initial plan)])"

text \<open>A pattern, whether hidden names are included, and the paths the walk of a tree is to emit.\<close>

definition walk_case :: "tree \<Rightarrow> string \<times> bool \<times> string list \<Rightarrow> bool" where
  "walk_case t x = (case x of (p, hidden, expected) \<Rightarrow>
     (case parse (lit p) hidden of
        Some (Inr plan) \<Rightarrow> run_walk plan t = Some (map lit expected)
      | _ \<Rightarrow> False))"

definition walk_star_and_classes :: bool where
  "walk_star_and_classes =
     list_all (walk_case [(''/data'', [(''a.csv'', False), (''b.txt'', False), (''sub'', True)]),
         (''/data/sub'', [(''c.csv'', False)])])
       [(''/data/*.csv'', False, [''/data/a.csv'']),
        (''/data/*'', False, [''/data/a.csv'', ''/data/b.txt'', ''/data/sub'']),
        (''/data/[ab].*'', False, [''/data/a.csv'', ''/data/b.txt'']),
        (''/data/*/*.csv'', False, [''/data/sub/c.csv'']),
        (''/data/zzz*'', False, [])]"

lemma walk_star_and_classes_holds: walk_star_and_classes
  by code_simp

definition walk_crawl :: bool where
  "walk_crawl =
     list_all (walk_case [(''/d'', [(''x.parquet'', False), (''a'', True)]),
         (''/d/a'', [(''y.parquet'', False), (''b'', True)]),
         (''/d/a/b'', [(''z.parquet'', False)])])
       [(''/d/**'', False, [''/d/a'', ''/d/a/b'', ''/d/a/b/z.parquet'', ''/d/a/y.parquet'', ''/d/x.parquet'']),
        (''/d/**/*.parquet'', False, [''/d/a/b/z.parquet'', ''/d/a/y.parquet'', ''/d/x.parquet'']),
        (''/d/**/b/*.parquet'', False, [''/d/a/b/z.parquet''])]"

lemma walk_crawl_holds: walk_crawl
  by code_simp

definition walk_braces :: bool where
  "walk_braces =
     list_all (walk_case [(''/d'', [(''jan'', True), (''feb'', True), (''mar'', True)]),
         (''/d/jan'', [(''1.csv'', False)]),
         (''/d/feb'', [(''2.csv'', False)]),
         (''/d/mar'', [(''3.csv'', False)])])
       [(''/d/{jan,feb}/*.csv'', False, [''/d/feb/2.csv'', ''/d/jan/1.csv'']),
        (''/d/{jan,j*}/*.csv'', False, [''/d/jan/1.csv''])]"

lemma walk_braces_holds: walk_braces
  by code_simp

definition walk_hidden :: bool where
  "walk_hidden =
     list_all (walk_case [(''/d'', [(''a.csv'', False), (''_SUCCESS'', False), (''.staged'', False), (''_temporary'', True), (''sub'', True)]),
         (''/d/_temporary'', [(''part.csv'', False)]),
         (''/d/sub'', [(''b.csv'', False), (''_SUCCESS'', False)])])
       [(''/d/*'', False, [''/d/a.csv'', ''/d/sub'']),
        (''/d/**'', False, [''/d/a.csv'', ''/d/sub'', ''/d/sub/b.csv'']),
        (''/d/*'', True, [''/d/.staged'', ''/d/_SUCCESS'', ''/d/_temporary'', ''/d/a.csv'', ''/d/sub'']),
        (''/d/**'', True, [''/d/.staged'', ''/d/_SUCCESS'', ''/d/_temporary'', ''/d/_temporary/part.csv'', ''/d/a.csv'', ''/d/sub'',
           ''/d/sub/_SUCCESS'', ''/d/sub/b.csv'']),
        (''/d/_temporary/*'', False, [''/d/_temporary/part.csv'']),
        (''/d/_*'', False, [''/d/_SUCCESS'', ''/d/_temporary'']),
        (''/d/'' @ CHR 0x5C # ''_*'', False, [''/d/_SUCCESS'', ''/d/_temporary'']),
        (''/d/[_a]*'', False, [''/d/a.csv'']),
        (''/d/?SUCCESS'', False, []),
        (''/d/**/_SUCCESS'', False, [''/d/_SUCCESS'', ''/d/sub/_SUCCESS''])]"

lemma walk_hidden_holds: walk_hidden
  by code_simp

section \<open>The sequential walk stands for the walk\<close>

text \<open>The tree as a name space.\<close>

definition tree_ls :: "tree \<Rightarrow> list_rpc" where
  "tree_ls t p = Inr (map (\<lambda>(n, d). (demo_entry [] d)\<lparr>fs_path := child_path p n\<rparr>) (children_of t p))"

definition plain_tree :: "tree \<Rightarrow> bool" where
  "plain_tree t \<longleftrightarrow> (\<forall>(p, cs) \<in> set t. \<forall>(n, d) \<in> set cs. n \<noteq> [] \<and> CHR ''/'' \<notin> set n)"

lemma children_plain:
  assumes "plain_tree t" and "(n, d) \<in> set (children_of t p)"
  shows "n \<noteq> []" "ch_slash \<notin> set n" "\<exists>q \<in> fst ` set t. lit q = p"
proof -
  obtain x where x: "find (\<lambda>(p', _). lit p' = p) t = Some x"
    using assms(2) by (cases "find (\<lambda>(p', _). lit p' = p) t") (simp_all add: children_of_def)
  obtain q cs where "x = (q, cs)" by (rule prod.exhaust)
  with x assms(2) have q: "find (\<lambda>(p', _). lit p' = p) t = Some (q, cs)" "(n, d) \<in> (\<lambda>(n, d). (lit n, d)) ` set cs"
    by (simp_all add: children_of_def)
  then have mem: "(q, cs) \<in> set t" "lit q = p" by (auto simp: find_Some_iff in_set_conv_nth)
  then show "\<exists>q \<in> fst ` set t. lit q = p" by force
  from q(2) obtain n' where n': "n = lit n'" "(n', d) \<in> set cs" by auto
  with assms(1) mem(1) have "n' \<noteq> []" "CHR ''/'' \<notin> set n'" by (auto simp: plain_tree_def)
  moreover have slash: "c = CHR ''/''" if "of_char c = ch_slash" for c
    using that of_char_eq_iff [of c "CHR ''/''", where 'a = nat] by simp
  ultimately show "n \<noteq> []" "ch_slash \<notin> set n"
    unfolding n'(1) lit_def set_map by (simp, metis imageE)
qed

lemma child_path_below:
  "n \<noteq> [] \<Longrightarrow> length p < length (child_path p n)" "child_path p n = (if p = lit ''/'' then [] else p) @ ch_slash # n"
  by (auto simp: child_path_def Suc_le_eq)

lemma tree_ls_paths:
  assumes "plain_tree t"
  shows "tree_paths (tree_ls t)"
proof -
  have "one_below p ((demo_entry [] d)\<lparr>fs_path := child_path p n\<rparr>)" if "(n, d) \<in> set (children_of t p)" for p n d
    unfolding one_below_def
    using children_plain(1,2) [OF assms that] child_path_below(2) [of p n]
    by (intro exI [of _ "if p = lit ''/'' then [] else p"] exI [of _ n]) (simp add: path_names_def split_on.simps)
  then show ?thesis by (auto simp: tree_paths_def tree_ls_def)
qed

lemma tree_ls_finite:
  assumes "plain_tree t"
  shows "finite_tree (tree_ls t) root"
proof -
  let ?K = "Suc (Max (insert 0 ((\<lambda>q. length (lit q)) ` fst ` set t)))"
  have "length p < ?K \<and> length p < length p'" if child: "dir_child (tree_ls t) p' p" for p p'
  proof -
    from child obtain n d where n: "(n, d) \<in> set (children_of t p)" "p' = child_path p n"
      by (auto simp: dir_child_def tree_ls_def)
    from children_plain [OF assms n(1)] obtain q where "q \<in> fst ` set t" "lit q = p" "n \<noteq> []" by blast
    then have "length p \<in> (\<lambda>q. length (lit q)) ` fst ` set t" by blast
    then have "length p \<le> Max (insert 0 ((\<lambda>q. length (lit q)) ` fst ` set t))" by (intro Max_ge) auto
    with \<open>n \<noteq> []\<close> n(2) show ?thesis by (simp add: child_path_below(1) less_Suc_eq_le)
  qed
  then have sub: "{(p', p). dir_child (tree_ls t) p' p} \<subseteq> measure (\<lambda>p. ?K - length p)" by (auto intro!: diff_less_mono2)
  show ?thesis unfolding finite_tree_def
    using wf_subset [OF wf_measure sub] by (simp add: wf_iff_acc accp_acc_eq [symmetric] acc_def)
qed

text \<open>One directory of the walk, then one poll when nothing else is in flight.\<close>

lemma take_children_ok:
  assumes "\<forall>(n, d) \<in> set cs. n \<noteq> [] \<and> ch_slash \<notin> set n"
    and "ending (glob_children plan path states (map (\<lambda>(n, d). (demo_entry [] d)\<lparr>fs_path := child_path path n\<rparr>) cs)) = Go"
  shows "take_children plan path states cs emitted queue =
    (let r = glob_children plan path states (map (\<lambda>(n, d). (demo_entry [] d)\<lparr>fs_path := child_path path n\<rparr>) cs)
     in Some (emitted @ map fs_path (outs r), queue @ map (\<lambda>(p, sts, _). (p, sts)) (jobs r)))"
  using assms
proof (induction cs arbitrary: emitted queue)
  case (Cons c cs)
  obtain n d where c: "c = (n, d)" by (rule prod.exhaust)
  let ?c = "(demo_entry [] d)\<lparr>fs_path := child_path path n\<rparr>"
  have n: "n \<noteq> []" "ch_slash \<notin> set n" using Cons.prems(1) c by auto
  have "fs_path ?c \<noteq> path" using child_path_below(1) [OF n(1), of path] by auto
  moreover have "child_name ?c = n" using n(2) by (simp add: child_name_def child_path_below(2) after_last_append)
  moreover have "fs_isdir ?c = d" by (simp add: demo_entry_def)
  moreover note Cons.prems(2)
  ultimately show ?case using Cons.IH Cons.prems(1) c
    by (cases "step plan states n d") (simp_all add: Let_def)
qed simp

lemma poll_one:
  assumes "in_flight s = []"
  shows "poll visit (Suc 0) k s =
    (if pending s = [] then s\<lparr>status := Completed\<rparr>
     else let r = visit (last (pending s))
       in s\<lparr>pending := butlast (pending s) @ jobs r, in_flight := [], sent := sent s @ messages r, status := end_status (ending r)\<rparr>)"
  using assms by (simp add: poll_def fill.simps Let_def)

lemma run_walk_loop_ok:
  assumes "plain_tree t" and "in_flight s = []" and "status s = Running"
    and "status (run_schedule (glob_visit (tree_ls t) plan options) (Suc 0) ks s) = Completed"
  shows "run_walk_loop plan t (map fs_path (oks (sent s))) (map (\<lambda>(p, sts, _). (p, sts)) (pending s)) =
    Some (map fs_path (oks (sent (run_schedule (glob_visit (tree_ls t) plan options) (Suc 0) ks s))))"
  using assms(2-)
proof (induction ks arbitrary: s)
  case (Cons k ks)
  show ?case
  proof (cases "pending s = []")
    case True
    with Cons.prems show ?thesis
      by (simp add: poll_one run_schedule_stopped run_walk_loop.simps)
  next
    case False
    obtain p sts r where job: "last (pending s) = (p, sts, r)" by (rule prod_cases3)
    let ?cs = "map (\<lambda>(n, d). (demo_entry [] d)\<lparr>fs_path := child_path p n\<rparr>) (children_of t p)"
    let ?r = "glob_children plan p sts ?cs"
    have visit: "glob_visit (tree_ls t) plan options (last (pending s)) = ?r"
      by (simp add: job glob_visit_def tree_ls_def)
    have go: "ending ?r = Go"
      using Cons.prems False visit by (cases "ending ?r") (simp_all add: poll_one run_schedule_stopped end_status_def Let_def)
    let ?s = "s\<lparr>pending := butlast (pending s) @ jobs ?r, in_flight := [], sent := sent s @ messages ?r, status := Running\<rparr>"
    have step: "poll (glob_visit (tree_ls t) plan options) (Suc 0) k s = ?s"
      using Cons.prems(1) False visit go by (simp add: poll_one end_status_def Let_def)
    have "\<forall>(n, d) \<in> set (children_of t p). n \<noteq> [] \<and> ch_slash \<notin> set n"
      using children_plain(1,2) [OF assms(1)] by blast
    from take_children_ok [OF this go] have "run_walk_loop plan t (map fs_path (oks (sent s))) (map (\<lambda>(p, sts, _). (p, sts)) (pending s)) =
        run_walk_loop plan t (map fs_path (oks (sent ?s))) (map (\<lambda>(p, sts, _). (p, sts)) (pending ?s))"
      using False job by (subst run_walk_loop.simps) (simp add: last_map map_butlast Let_def)
    also have "\<dots> = Some (map fs_path (oks (sent (run_schedule (glob_visit (tree_ls t) plan options) (Suc 0) ks ?s))))"
      using Cons.prems step by (intro Cons.IH) simp_all
    finally show ?thesis using Cons.prems step by simp
  qed
qed simp

text \<open>Without states nothing is emitted and nothing queued.\<close>

lemma no_states: "run_walk_loop plan t [] [(p, [])] = Some []"
proof -
  have "take_children plan p [] cs [] [] = Some ([], [])" for cs
    by (induction cs) (auto simp: step_def)
  then show ?thesis by (simp add: run_walk_loop.simps [of _ _ _ "[(p, [])]"] run_walk_loop.simps [of _ _ _ "[]"])
qed

text \<open>
  C23. The sequential \<^verbatim>\<open>run_walk\<close> of the tests stands for the walk of the bridge. On a tree whose names are
  plain it returns, and the walk of the same plan, with any number of listings in flight and in any
  order of their completion, completes with exactly the same paths; so what the tests of a pattern
  check sequentially holds of the concurrent walk. (\<^verbatim>\<open>run_walk\<close> leaves out the root's own match.)
\<close>

theorem run_walk_stands_for_the_walk:
  assumes "parse pattern ih = Some (Inr plan)" and "plain_tree t" and "\<not> plan_emit_root plan" and "0 < n"
  shows "\<exists>ps m. run_walk plan t = Some ps \<and> (\<forall>ks. m \<le> length ks \<longrightarrow>
    status (glob_walk (tree_ls t) info plan n options ks) = Completed \<and>
    sort (map fs_path (oks (sent (glob_walk (tree_ls t) info plan n options ks)))) = ps)"
proof -
  let ?walk = "\<lambda>n. glob_walk (tree_ls t) info plan n options"
  have clear: "clear_below (glob_prune options) (tree_ls t) (plan_root plan)" by (simp add: clear_below_def tree_ls_def)
  have compl: "\<exists>m. \<forall>ks. m \<le> length ks \<longrightarrow> status (?walk n ks) = Completed" if n: "0 < n" for n
  proof -
    obtain m where m: "\<forall>ks. m \<le> length ks \<longrightarrow> status (?walk n ks) \<in> {Completed, Failed}"
      using glob_walk_ends [OF assms(1) tree_ls_finite [OF assms(2)] n] by blast
    have "status (?walk n ks) \<in> {Running, Completed}" for ks
      by (rule glob_walk_clear [OF assms(1) tree_ls_finite [OF assms(2)] n clear]) (simp add: assms(3))
    then have "status (?walk n ks) = Completed" if "m \<le> length ks" for ks
      using m [rule_format, OF that] by (metis empty_iff insert_iff walk_status.distinct(3))
    then show ?thesis by blast
  qed
  obtain ks1 where one: "status (?walk 1 ks1) = Completed"
    using compl [of 1] by (metis length_replicate order_refl zero_less_one)
  obtain m where m: "\<And>ks. m \<le> length ks \<Longrightarrow> status (?walk n ks) = Completed" using compl [OF assms(4)] by blast
  let ?s = "glob_start info plan" and ?ps = "sort (map fs_path (oks (sent (?walk 1 ks1))))"
  have start: "in_flight ?s = []" "status ?s = Running" "sent ?s = []"
    "pending ?s = (if plan_initial plan = [] then [] else [(plan_root plan, plan_initial plan, True)])"
    using assms(3) by (simp_all add: glob_start_def Let_def)
  have "run_walk plan t = Some ?ps"
    using run_walk_loop_ok [OF assms(2) start(1,2), of plan options ks1] one start(3,4)
      no_states [of plan t "plan_root plan"]
    by (cases "plan_initial plan = []") (simp_all add: run_walk_def glob_walk_def run_walk_loop.simps [of _ _ _ "[]"])
  moreover have "sort (map fs_path (oks (sent (?walk n ks)))) = ?ps" if "m \<le> length ks" for ks
    using schedule_independent(2) [OF zero_less_one assms(4) start(2) one [unfolded glob_walk_def] m [OF that, unfolded glob_walk_def]]
    by (intro properties_for_sort) (simp_all add: glob_walk_def)
  ultimately show ?thesis using m by blast
qed

theorem run_walk_stands_for_the_walk_witness:
  "\<exists>m. \<forall>ks. m \<le> length ks \<longrightarrow>
    sort (map fs_path (oks (sent (glob_walk (tree_ls [(''/d'', [(''x'', False), (''s'', True), (''_h'', False)])]) demo_info demo_plan 3
      demo_options ks)))) = map lit [''/d/s'', ''/d/x'']"
proof -
  have "plain_tree [(''/d'', [(''x'', False), (''s'', True), (''_h'', False)])]" by (simp add: plain_tree_def)
  from run_walk_stands_for_the_walk [OF parse_example this, of 3 demo_info demo_options] obtain ps m where
    m: "run_walk demo_plan [(''/d'', [(''x'', False), (''s'', True), (''_h'', False)])] = Some ps"
      "\<forall>ks. m \<le> length ks \<longrightarrow> sort (map fs_path (oks (sent (glob_walk (tree_ls [(''/d'', [(''x'', False), (''s'', True), (''_h'', False)])])
        demo_info demo_plan 3 demo_options ks)))) = ps" by auto
  have "run_walk demo_plan [(''/d'', [(''x'', False), (''s'', True), (''_h'', False)])] = Some (map lit [''/d/s'', ''/d/x''])" by code_simp
  with m show ?thesis by (simp del: lit_Cons) blast
qed

end
