(* ===== verification/Spec2Isabelle.thy ===== *)
theory Spec2Isabelle
  imports Hdfs_Functions Hdfs_Locks Glob_Tests
begin

text \<open>
  A verification development of the DuckDB extension for HDFS: the Rust library \<^verbatim>\<open>hdfs-bridge\<close>, which
  compiles glob patterns, walks directories with many listing RPCs in flight, streams the entries
  through a bounded channel and exports all of it as C functions; and the C++ file system and SQL
  functions above it, through which DuckDB reads, lists and changes a Hadoop file system.

  \<^bold>\<open>The bridge and its theories\<close>, from the bottom up. File names are below \<^verbatim>\<open>src/hdfs-bridge/src\<close>.

  \<^item> \<open>Prelude\<close>: characters as code points, strings, results as sums, panics as \<open>None\<close>, checked
    indexing, splitting of paths into names.
  \<^item> \<open>Hdfs_Error\<close>: \<^verbatim>\<open>classify\<close>, \<^verbatim>\<open>classify_rpc\<close>, \<^verbatim>\<open>classify_io\<close>, \<^verbatim>\<open>is_permission\<close> (\<^verbatim>\<open>lib.rs\<close>).
  \<^item> \<open>Glob_Match\<close>: \<^verbatim>\<open>match_component\<close>, \<^verbatim>\<open>match_chars\<close>, \<^verbatim>\<open>match_class\<close> and the hidden-name
    predicates (\<^verbatim>\<open>glob.rs\<close>), at the level of their indices; the language of a component is defined
    on tokens, and the matcher decides it.
  \<^item> \<open>Brace\<close>: \<^verbatim>\<open>expand_braces\<close>; its reference is the list of alternatives of the bracket structure.
  \<^item> \<open>Matcher\<close>: the interface of a matcher that descends one name at a time (locale \<open>matcher\<close>).
  \<^item> \<open>Glob_Plan\<close>: \<^verbatim>\<open>GlobPlan::parse\<close>, \<^verbatim>\<open>step\<close>, \<^verbatim>\<open>match_at\<close>; the automaton of positions refines
    \<open>glob_matches\<close>, the meaning of a pattern on the names of a path.
  \<^item> \<open>Glob_Tests\<close>: the unit tests of \<^verbatim>\<open>glob.rs\<close>, evaluated on the model, and the proof that their
    sequential walk stands for the concurrent one.
  \<^item> \<open>Worklist\<close>: the scheduling loop that \<^verbatim>\<open>stream_walk\<close> and \<^verbatim>\<open>glob_walk\<close> share (\<^verbatim>\<open>client.rs\<close>); the
    locales \<open>scheduled\<close> and \<open>tree_scheduled\<close> state what it needs of the handling of one listing.
  \<^item> \<open>Walk\<close> and \<open>Listing\<close>: that handling for globs and for listings, and the interpretations.
  \<^item> \<open>List_Stream\<close>: \<^verbatim>\<open>BridgeListStream\<close> with \<^verbatim>\<open>next_batch\<close>, \<^verbatim>\<open>list_stream\<close>, \<^verbatim>\<open>glob_stream\<close>, read one
    call after the other over the list of the walk's messages.
  \<^item> \<open>Channel\<close>: the walker task, the bounded channel (\<^verbatim>\<open>LIST_STREAM_BUFFER\<close>) and the consumer as
    concurrent steps, with the drop of a stream; every interleaving refines \<open>List_Stream\<close>.
  \<^item> \<open>Utf8\<close>: the encoding of strings at the C boundary and its lossy decoding.
  \<^item> \<open>Bridge_Client\<close>: \<^verbatim>\<open>shared_runtime\<close>, \<^verbatim>\<open>BridgeClient\<close>, \<^verbatim>\<open>BridgeReader\<close>, \<^verbatim>\<open>BridgeWriter\<close> (\<^verbatim>\<open>client.rs\<close>).
  \<^item> \<open>Ffi_Memory\<close>, \<open>Ffi\<close>: the exported functions of \<^verbatim>\<open>lib.rs\<close> over an explicit memory, in which a
    dangling pointer, a double free or an array rebuilt with a wrong length is \<open>None\<close>; the locale
    \<open>fallible\<close> is the contract of the functions that take a status.
  \<^item> \<open>Ffi_Session\<close>, \<open>Ffi_Results\<close>: a caller over any sequence of calls, and what it may rely on.

  \<^bold>\<open>The extension and its theories.\<close> File names are below \<^verbatim>\<open>src/src\<close>. The C++ code calls the modelled
  functions of the bridge on the same memory; undefined behaviour is \<open>None\<close> again, an exception is the
  left of a sum, and locals whose address is taken are cells that their scope allocates and gives back.

  \<^item> \<open>Hdfs_Url\<close>: \<^verbatim>\<open>ParseHdfsPath\<close>, \<^verbatim>\<open>MakeUrl\<close>, \<^verbatim>\<open>MakeHdfsEntry\<close> (\<^verbatim>\<open>hdfs_filesystem.cpp\<close>).
  \<^item> \<open>Hdfs_Connection\<close>, \<open>Hdfs_Execute\<close>: \<^verbatim>\<open>HdfsConnection\<close>, \<^verbatim>\<open>BridgeStatus\<close> and \<^verbatim>\<open>Execute\<close> with its one
    reconnection. Shared pointers to clients are counted: \<open>fs_ok H\<close> says that the counts are those of the
    connections and of the holders \<open>H\<close>. The abstract state, \<open>view\<close>, is the client of each authority, the
    runtime and the cluster.
  \<^item> \<open>Hdfs_Threads\<close>, \<open>Hdfs_Locks\<close>: \<^verbatim>\<open>Execute\<close> of several threads as a step relation, interleaved at its
    locks; and with the mutexes as part of the state, interleaved at and inside the sections they guard.
  \<^item> \<open>Hdfs_Metadata\<close>, \<open>Hdfs_Files\<close>: the operations on names and on open files.
  \<^item> \<open>Hdfs_Listing\<close>: \<^verbatim>\<open>HdfsListStream\<close>, \<^verbatim>\<open>OpenListStream\<close>, \<^verbatim>\<open>OpenGlobStream\<close>, \<^verbatim>\<open>ListFilesExtended\<close>, \<^verbatim>\<open>Glob\<close>.
  \<^item> \<open>Hdfs_Results\<close>, \<open>Hdfs_Globs\<close>: what DuckDB may rely on, for names and files and for listings.
  \<^item> \<open>Hdfs_Functions\<close>: \<^verbatim>\<open>hdfs_ls\<close>, \<^verbatim>\<open>hdfs_stat\<close>, \<^verbatim>\<open>hdfs_exists\<close> (\<^verbatim>\<open>hdfs_functions.cpp\<close>) and the defaults
    of the settings (\<^verbatim>\<open>hdfs_extension.cpp\<close>).

  \<^bold>\<open>What is shown.\<close> For patterns: matching, expansion and parsing end without a panic and compute
  their references; stepping a plan decides \<open>glob_matches\<close>; hidden names match only where they are
  spelled out. For walks: they end, for every order of completions and every parallelism; what a
  completed walk has sent is exactly the entries asked for, each once; errors on the named root
  surface; a walk without fatal errors completes. For streams: batches respect their bound and
  order, nothing is lost before an error, a dead task is not a clean end, no interleaving gives
  other results, no call waits for ever, and dropping a stream ends its walk. For the boundary: the
  status convention of all fallible functions, strings and batches that read back unchanged and are
  freed without a leak, exact counts and lengths, and no undefined behaviour for a disciplined caller.
  For the extension, which is such a caller: every operation is defined, gives back all memory and
  refines a specification on the view; checks never guess; a stale client is replaced once; reads
  deliver the file; a listing is that of one walk, or of a second one if the first lost its connection
  before its first entry; threads that share the connections never lose a client they hold, do not take
  down each other's reconnections, cannot deadlock at the mutexes, which make their sections atomic, and
  finish. Two lemmas show where the code falls short of this for callers that the repository does not
  have: \<open>reopening_can_fail\<close>, a stream that is used again after its retry could not open a walk, and
  \<open>negative_read_overruns\<close>, a read of a negative size. The last theorems, below, span all layers, from a call of DuckDB to the
  names on the cluster.

  \<^bold>\<open>Parameters and hypotheses.\<close> \<^verbatim>\<open>hdfs-native\<close>, Tokio and DuckDB are not part of the program. The walks
  take the listing RPC \<open>ls\<close> and the look-up \<open>info\<close> as functions; the rest of the client library is the
  record \<open>hdfs_native\<close>. A walk sees the name space as one function of the path. What the theorems
  assume of it is named: \<open>finite_tree\<close> (no infinite descent), \<open>tree_paths\<close> (a listed child is one
  name below its directory), \<open>distinct_listings\<close>, \<open>dirs_list_children\<close>, \<open>clear_below\<close> (no fatal
  error below the root), \<open>keeps_length\<close> and \<open>reads_file\<close> (a read fills the buffer it is given);
  \<open>demo_ls\<close> and \<open>demo_native\<close> are instances, and the witnesses use them. Of Tokio the model uses that
  the channel is first-in first-out and bounded, that it closes when the task is over, and that an
  aborted task ends at a point where it waits. Of DuckDB, \<open>vsize\<close> is \<^verbatim>\<open>STANDARD_VECTOR_SIZE\<close> and
  \<open>from_epoch_ms\<close> is \<^verbatim>\<open>Timestamp::FromEpochMs\<close>, taken as total; a table function is run by initialising
  its state, asking for chunks until one is empty, and destroying the state (\<open>table_function\<close>).

  \<^bold>\<open>Schedules and bounds.\<close> The order in which RPCs complete is a list \<open>ks\<close>, one index into the
  futures in flight for each iteration of the loop; the timing of a batch is the number \<open>ready\<close> of
  messages that are in the channel beyond the first. Both are universally quantified. A loop of DuckDB
  over a stream is given the timings \<open>ts\<close> of its calls, and more of them than there are entries always
  suffice. Nothing else is bounded by fuel: that enough iterations end a walk is a theorem
  (\<open>always_ends\<close>), and the recursions that are not structural have termination proofs, but for
  \<^verbatim>\<open>run_walk\<close> of the tests, which is total on plain trees only. Integers of the boundary and of C++ are
  words of their width; string lengths and indices, which cannot overflow a 64-bit \<^verbatim>\<open>usize\<close>, are naturals.

  \<^bold>\<open>Not modelled.\<close> The client library, Tokio and DuckDB themselves; the text of third-party errors (a
  parameter); \<^verbatim>\<open>build.rs\<close>, which generates the C header; the registration of the file system and of the
  functions with DuckDB, and the one-line overrides that answer a constant or do nothing (\<^verbatim>\<open>CanSeek\<close>,
  \<^verbatim>\<open>OnDiskFile\<close>, \<^verbatim>\<open>GetName\<close>, \<^verbatim>\<open>FileSync\<close>). Calls of several threads on one reader, client or stream
  are interleaved as whole calls of the bridge. A stream keeps its runtime alive in the code; the model has no such field.
\<close>

section \<open>From the pattern to the consumer\<close>

text \<open>
  C2. A whole glob, from the pattern string to the entries the consumer reads: for a valid pattern
  on a namespace where no listing fails for a reason that is not pruned, every schedule of the
  listings that is long enough gives a stream which, read with any batch sizes and any timing,
  yields without an error exactly the entries whose path matches the pattern, each once.
\<close>

theorem glob_end_to_end:
  assumes "parse pattern (include_hidden options) = Some (Inr plan)"
    and "tree_paths ls" and "finite_tree ls (plan_root plan)" and "distinct_listings ls"
    and "clear_below (glob_prune options) ls (plan_root plan)"
    and "\<And>c. info (plan_root plan) = Inr c \<Longrightarrow> path_names (fs_path c) = path_names (plan_root plan)"
    and "\<And>e. info (plan_root plan) = Inl e \<Longrightarrow> is_not_found e"
  shows "\<exists>m. \<forall>ks. m \<le> length ks \<longrightarrow>
    (\<exists>s. glob_stream ls info pattern max_parallelism options died ks = Some (Inr s) \<and>
      (\<forall>calls. length (rx s) < length calls \<longrightarrow>
        (\<exists>xs. read_all calls s = (xs, Some None) \<and> distinct (map entry_names xs) \<and>
          set xs = {c. (tree_entry ls (plan_root plan) c \<or> info (plan_root plan) = Inr c) \<and>
                       glob_matches pattern (include_hidden options) (path_names (fs_path c))})))"
proof -
  let ?t = "glob_walk ls info plan (unat (max max_parallelism 1)) options"
  from glob_walk_all [OF assms clamp_positive] obtain m where m: "\<And>ks. m \<le> length ks \<Longrightarrow>
      status (?t ks) = Completed \<and> well_sent (?t ks) \<and> distinct (map entry_names (oks (sent (?t ks)))) \<and>
      set (oks (sent (?t ks))) = {c. (tree_entry ls (plan_root plan) c \<or> info (plan_root plan) = Inr c) \<and>
                       glob_matches pattern (include_hidden options) (path_names (fs_path c))}"
    unfolding Let_def by blast
  show ?thesis
  proof (intro exI [of _ m] allI impI)
    fix ks :: "nat list"
    assume "m \<le> length ks"
    note t = m [OF this]
    have "read_all calls (stream_of (?t ks) died pattern) = (oks (sent (?t ks)), Some None)"
      if "length (rx (stream_of (?t ks) died pattern)) < length calls" for calls :: "(usize \<times> nat) list"
      using that t by (intro read_walk_completed) (simp_all add: stream_of_def)
    moreover have "glob_stream ls info pattern max_parallelism options died ks = Some (Inr (stream_of (?t ks) died pattern))"
      using assms(1) by (simp add: glob_stream_def)
    ultimately show "\<exists>s. glob_stream ls info pattern max_parallelism options died ks = Some (Inr s) \<and>
      (\<forall>calls. length (rx s) < length calls \<longrightarrow>
        (\<exists>xs. read_all calls s = (xs, Some None) \<and> distinct (map entry_names xs) \<and>
          set xs = {c. (tree_entry ls (plan_root plan) c \<or> info (plan_root plan) = Inr c) \<and>
                       glob_matches pattern (include_hidden options) (path_names (fs_path c))}))"
      using t by blast
  qed
qed

theorem glob_end_to_end_witness:
  "\<exists>m. \<forall>ks. m \<le> length ks \<longrightarrow>
    (\<exists>s. glob_stream demo_ls demo_info (lit ''/d/*'') 3 demo_options [] ks = Some (Inr s))"
proof -
  have "clear_below (glob_prune demo_options) demo_ls (plan_root demo_plan)"
    by (auto simp: clear_below_def demo_ls_def demo_dir_child)
  from glob_end_to_end [of "lit ''/d/*''" demo_options demo_plan demo_ls demo_info 3 "[]", OF _
      demo_tree_paths demo_finite_tree demo_distinct this] parse_example
  show ?thesis by (auto simp: demo_info_def demo_entry_def simp del: lit_Cons) blast
qed

section \<open>From DuckDB to the cluster\<close>

lemma demo_glob_facts:
  "ParseHdfsPath (lit ''/d/*'') = ([], lit ''/d/*'')" "lit ''/d/*'' = decode_lossy (c_str (lit ''/d/*''))"
  "parse (lit ''/d/*'') (include_hidden demo_options) = Some (Inr demo_plan)"
  "clear_below (glob_prune demo_options) demo_ls (plan_root demo_plan)"
  using parse_example by (code_simp, code_simp, simp add: demo_options_def) (auto simp: clear_below_def demo_ls_def demo_dir_child)

lemma demo_rpcs:
  "demo_ls = (\<lambda>q. n_list_status demo_native (cl_inner \<lparr>cl_inner = (), cl_rt = 1\<rparr>) q w)"
  "demo_info = (\<lambda>q. n_get_file_info demo_native (cl_inner \<lparr>cl_inner = (), cl_rt = 1\<rparr>) q w)"
  by (simp_all add: demo_native_def)

text \<open>
  C1. A glob of DuckDB, through all layers: the URL, the connection, the C boundary, the walk and the
  stream. From every well-formed state of the filesystem, for a URL whose authority has or gets a
  client and whose path is a valid pattern, on a namespace where no listing fails for a reason that
  is not pruned, every long enough schedule of the listings gives \<^verbatim>\<open>Glob\<close> exactly the files whose path
  matches, each once, named by their URL with their type, size and time, for every vector size and
  timing of the batches; no memory is lost, no undefined behaviour occurs and the walk changes nothing.
\<close>

theorem duckdb_glob_end_to_end:
  fixes s :: "('w, 'c, 'r, 'o, 't) hdfs_fs"
  assumes "fs_ok H s" and "ParseHdfsPath path = (a, p)" and "abs_get N a (view s) = (Inr c, v)"
    and walk: "pattern = decode_lossy (c_str p)" "options = walk_options (glob_options cfg)"
      "ls = (\<lambda>q. n_list_status N (cl_inner c) q (v_world v))" "info = (\<lambda>q. n_get_file_info N (cl_inner c) q (v_world v))"
    and tree: "parse pattern (include_hidden options) = Some (Inr plan)"
      "tree_paths ls" "finite_tree ls (plan_root plan)" "distinct_listings ls"
      "clear_below (glob_prune options) ls (plan_root plan)"
      "\<And>x. info (plan_root plan) = Inr x \<Longrightarrow> path_names (fs_path x) = path_names (plan_root plan)"
      "\<And>e. info (plan_root plan) = Inl e \<Longrightarrow> is_not_found e"
  shows "\<exists>m. \<forall>ks. m \<le> length ks \<longrightarrow>
    (\<exists>xs. distinct (map entry_names xs) \<and>
      set xs = {x. (tree_entry ls (plan_root plan) x \<or> info (plan_root plan) = Inr x) \<and>
                   glob_matches pattern (include_hidden options) (path_names (fs_path x))} \<and>
      (\<forall>ts vsize died. length xs < length ts \<longrightarrow>
        (\<exists>s'. Glob from_epoch_ms N vsize (died, ks) ts cfg path s =
            Some (Some (Inr (map (\<lambda>x. MakeExtendedInfo from_epoch_ms (MakeUrl a (c_bytes (fs_path x))) (entry_of a x))
              (filter (\<lambda>x. \<not> fs_isdir x) xs))), s') \<and>
          fs_ok H s' \<and> view s' = v \<and> cells s' = cells s)))"
proof -
  let ?listing = "\<lambda>timing again. abs_listing N timing again (new_stream True path (list_parallelism (hdfs_list_parallelism cfg))
      (glob_options cfg)) (view s)"
  from abs_listing_matches [OF assms(2-14), where n = "list_parallelism (hdfs_list_parallelism cfg)"] obtain m where
    m: "\<And>ks. m \<le> length ks \<Longrightarrow> \<exists>xs. distinct (map entry_names xs) \<and>
      set xs = {x. (tree_entry ls (plan_root plan) x \<or> info (plan_root plan) = Inr x) \<and>
                   glob_matches pattern (include_hidden options) (path_names (fs_path x))} \<and>
      (\<forall>died again. ?listing (died, ks) again = ((Inr (), map (entry_of a) xs), v))" by blast
  have glob: "\<exists>s'. Glob from_epoch_ms N vsize (died, ks) ts cfg path s =
        Some (Some (Inr (map (\<lambda>x. MakeExtendedInfo from_epoch_ms (MakeUrl a (c_bytes (fs_path x))) (entry_of a x))
          (filter (\<lambda>x. \<not> fs_isdir x) xs))), s') \<and> fs_ok H s' \<and> view s' = v \<and> cells s' = cells s"
    if "\<forall>died again. ?listing (died, ks) again = ((Inr (), map (entry_of a) xs), v)" "length xs < length ts"
    for ks xs ts vsize died
    using listings_implement_glob [OF assms(1) refl that(1) [rule_format], of ts from_epoch_ms vsize] that(2)
    by (simp add: filter_map comp_def entry_of_def)
  show ?thesis
    by (intro exI [of _ m] allI impI; drule m; elim ex_forward conjE; intro conjI allI impI; (assumption | rule glob; assumption))
qed

text \<open>
  C3. The table function \<^verbatim>\<open>hdfs_ls\<close> on a pattern, through all layers. Under the same hypotheses its rows are
  exactly the matching entries, directories included, each once, for every schedule, vector size and
  timing of the chunks, with the named parameters of the call before the settings.
\<close>

theorem hdfs_ls_end_to_end:
  fixes s :: "('w, 'c, 'r, 'o, 't) hdfs_fs"
  assumes "fs_ok H s" and "ParseHdfsPath path = (a, p)" and "abs_get N a (view s) = (Inr c, v)"
    and walk: "pattern = decode_lossy (c_str p)" "options = walk_options (walk_flags cfg (HdfsMetaBind LIST path named))"
      "ls = (\<lambda>q. n_list_status N (cl_inner c) q (v_world v))" "info = (\<lambda>q. n_get_file_info N (cl_inner c) q (v_world v))"
    and tree: "parse pattern (include_hidden options) = Some (Inr plan)"
      "tree_paths ls" "finite_tree ls (plan_root plan)" "distinct_listings ls"
      "clear_below (glob_prune options) ls (plan_root plan)"
      "\<And>x. info (plan_root plan) = Inr x \<Longrightarrow> path_names (fs_path x) = path_names (plan_root plan)"
      "\<And>e. info (plan_root plan) = Inl e \<Longrightarrow> is_not_found e"
    and "has_glob path"
  shows "\<exists>m. \<forall>ks. m \<le> length ks \<longrightarrow>
    (\<exists>xs. distinct (map entry_names xs) \<and>
      set xs = {x. (tree_entry ls (plan_root plan) x \<or> info (plan_root plan) = Inr x) \<and>
                   glob_matches pattern (include_hidden options) (path_names (fs_path x))} \<and>
      (\<forall>ts vsize died. length xs < length ts \<longrightarrow>
        (\<exists>s'. table_function from_epoch_ms N vsize (died, ks) ts cfg (HdfsMetaBind LIST path named) s =
            Some ((Some (Inr ()), map (\<lambda>x. row_of from_epoch_ms (entry_of a x)) xs), s') \<and>
          fs_ok H s' \<and> view s' = v \<and> cells s' = cells s)))"
proof -
  let ?b = "HdfsMetaBind LIST path named"
  let ?listing = "\<lambda>timing again. abs_listing N timing again (new_stream True path (ListParallelism cfg) (walk_flags cfg ?b)) (view s)"
  from abs_listing_matches [OF assms(2-14), where n = "ListParallelism cfg"] obtain m where
    m: "\<And>ks. m \<le> length ks \<Longrightarrow> \<exists>xs. distinct (map entry_names xs) \<and>
      set xs = {x. (tree_entry ls (plan_root plan) x \<or> info (plan_root plan) = Inr x) \<and>
                   glob_matches pattern (include_hidden options) (path_names (fs_path x))} \<and>
      (\<forall>died again. ?listing (died, ks) again = ((Inr (), map (entry_of a) xs), v))" by blast
  have scan: "\<exists>s'. table_function from_epoch_ms N vsize (died, ks) ts cfg ?b s =
        Some ((Some (Inr ()), map (\<lambda>x. row_of from_epoch_ms (entry_of a x)) xs), s') \<and>
      fs_ok H s' \<and> view s' = v \<and> cells s' = cells s"
    if "\<forall>died again. ?listing (died, ks) again = ((Inr (), map (entry_of a) xs), v)" "length xs < length ts"
    for ks xs ts vsize died
    using hdfs_ls_ok [OF assms(1), of N "(died, ks)" ts path cfg named "Inr ()" "map (entry_of a) xs" v from_epoch_ms vsize] that assms(15)
    by (simp add: comp_def)
  show ?thesis
    by (intro exI [of _ m] allI impI; drule m; elim ex_forward conjE; intro conjI allI impI; (assumption | rule scan; assumption))
qed

theorem duckdb_glob_end_to_end_witness:
  "\<exists>m. \<forall>ks. m \<le> length ks \<longrightarrow> (\<exists>xs. distinct (map entry_names xs) \<and>
     (\<forall>ts vsize died. length xs < length ts \<longrightarrow>
       (\<exists>s'. Glob id demo_native vsize (died, ks) ts demo_settings (lit ''/d/*'') demo_fs =
         Some (Some (Inr (map (\<lambda>x. MakeExtendedInfo id (MakeUrl [] (c_bytes (fs_path x))) (entry_of [] x))
           (filter (\<lambda>x. \<not> fs_isdir x) xs))), s') \<and> fs_ok {#} s')))"
proof -
  have "fst (abs_get demo_native [] (view demo_fs)) = Inr \<lparr>cl_inner = (), cl_rt = 1\<rparr>" by code_simp
  then obtain v where v: "abs_get demo_native [] (view demo_fs) = (Inr \<lparr>cl_inner = (), cl_rt = 1\<rparr>, v)" by (metis prod.collapse)
  have options: "demo_options = walk_options (glob_options demo_settings)"
    by (simp add: walk_options_def glob_options_def default_options_def demo_options_def)
  from duckdb_glob_end_to_end [OF demo_fs_ok demo_glob_facts(1) v demo_glob_facts(2) options demo_rpcs demo_glob_facts(3)
      demo_tree_paths demo_finite_tree demo_distinct demo_glob_facts(4), of id] show ?thesis
    by (simp add: demo_info_def demo_entry_def is_not_found_def del: lit_Cons) (elim ex_forward all_forward imp_forward; blast)
qed

theorem hdfs_ls_end_to_end_witness:
  "\<exists>m. \<forall>ks. m \<le> length ks \<longrightarrow> (\<exists>xs. distinct (map entry_names xs) \<and>
     (\<forall>ts vsize died. length xs < length ts \<longrightarrow>
       (\<exists>s'. table_function id demo_native vsize (died, ks) ts registered_settings (HdfsMetaBind LIST (lit ''/d/*'') []) demo_fs =
         Some ((Some (Inr ()), map (\<lambda>x. row_of id (entry_of [] x)) xs), s') \<and> fs_ok {#} s')))"
proof -
  have glob: "has_glob (lit ''/d/*'')" by code_simp
  have "fst (abs_get demo_native [] (view demo_fs)) = Inr \<lparr>cl_inner = (), cl_rt = 1\<rparr>" by code_simp
  then obtain v where v: "abs_get demo_native [] (view demo_fs) = (Inr \<lparr>cl_inner = (), cl_rt = 1\<rparr>, v)" by (metis prod.collapse)
  have options: "demo_options = walk_options (walk_flags registered_settings (HdfsMetaBind LIST (lit ''/d/*'') []))"
    unfolding registered_defaults by (simp add: walk_options_def default_options_def demo_options_def)
  from hdfs_ls_end_to_end [OF demo_fs_ok demo_glob_facts(1) v demo_glob_facts(2) options demo_rpcs demo_glob_facts(3)
      demo_tree_paths demo_finite_tree demo_distinct demo_glob_facts(4) _ _ glob, of id] show ?thesis
    by (simp add: demo_info_def demo_entry_def is_not_found_def del: lit_Cons) (elim ex_forward all_forward imp_forward; blast)
qed

end
